(* ===== verification/Prelude.thy ===== *)
theory Prelude
  imports Main "HOL-Library.Word" "HOL-Library.Monad_Syntax"
begin

text \<open>
  Shared vocabulary of the development.

  \<^item> Names for the C integer types of the sources (\<open>uint8_t\<close> \<dots> \<open>uint64_t\<close>, \<open>hwaddr\<close>).
  \<^item> C arrays: a list with a checked read \<open>arr_get\<close> and a checked write \<open>arr_set\<close>. An index
    outside the array is undefined behaviour in C; here it is \<open>None\<close>, so that a theorem
    that an operation returns \<open>Some\<close> says that it stays inside its arrays.
  \<^item> \<open>exec_list\<close>: running a list of events through a step function that may run into
    undefined behaviour.
  \<^item> \<open>or_if\<close> and \<open>clear_if\<close>: the C statements \<open>if (c) x |= m;\<close> and \<open>if (c) x &= ~m;\<close>.
  \<^item> Bit-level facts about words and about the C idiom \<open>x & 7\<close> on a signed \<open>int\<close>.
  \<^item> Ring buffers: \<open>ring_list\<close> reads the logical contents of a circular array.
\<close>

unbundle bit_operations_syntax

type_synonym u8 = "8 word"
type_synonym u16 = "16 word"
type_synonym u32 = "32 word"
type_synonym u64 = "64 word"
type_synonym hwaddr = "64 word"

named_theorems arr_simps \<open>checked array accesses that are known to be in range\<close>
named_theorems dev_defs \<open>the definitions of a device's register handlers\<close>

definition arr_get :: "'a list \<Rightarrow> int \<Rightarrow> 'a option" where
  "arr_get xs i = (if 0 \<le> i \<and> i < int (length xs) then Some (xs ! nat i) else None)"

definition arr_set :: "'a list \<Rightarrow> int \<Rightarrow> 'a \<Rightarrow> 'a list option" where
  "arr_set xs i x = (if 0 \<le> i \<and> i < int (length xs) then Some (xs[nat i := x]) else None)"

definition nth_opt :: "'a list \<Rightarrow> nat \<Rightarrow> 'a option" where
  "nth_opt xs i = (if i < length xs then Some (xs ! i) else None)"

definition set_opt :: "'a list \<Rightarrow> nat \<Rightarrow> 'a \<Rightarrow> 'a list option" where
  "set_opt xs i x = (if i < length xs then Some (xs[i := x]) else None)"

fun exec_list :: "('s \<Rightarrow> 'e \<Rightarrow> 's option) \<Rightarrow> 's \<Rightarrow> 'e list \<Rightarrow> 's option" where
  "exec_list stp s [] = Some s"
| "exec_list stp s (e # es) = do { t \<leftarrow> stp s e; exec_list stp t es }"

definition or_if :: "bool \<Rightarrow> 'a::len word \<Rightarrow> 'a word \<Rightarrow> 'a word" where
  "or_if c m x = (if c then x OR m else x)"

definition clear_if :: "bool \<Rightarrow> 'a::len word \<Rightarrow> 'a word \<Rightarrow> 'a word" where
  "clear_if c m x = (if c then x AND NOT m else x)"

definition ring_list :: "'a list \<Rightarrow> nat \<Rightarrow> nat \<Rightarrow> 'a list" where
  "ring_list xs p n = map (\<lambda>i. xs ! ((p + i) mod length xs)) [0..<n]"

subsection \<open>Arrays\<close>

lemma arr_get_Some [arr_simps]: "0 \<le> i \<Longrightarrow> i < int (length xs) \<Longrightarrow> arr_get xs i = Some (xs ! nat i)"
  by (simp add: arr_get_def)

lemma arr_set_Some [arr_simps]: "0 \<le> i \<Longrightarrow> i < int (length xs) \<Longrightarrow> arr_set xs i x = Some (xs[nat i := x])"
  by (simp add: arr_set_def)

lemma arr_get_nat: "k < length xs \<Longrightarrow> arr_get xs (int k) = Some (xs ! k)"
  by (simp add: arr_get_def)

lemma arr_set_nat: "k < length xs \<Longrightarrow> arr_set xs (int k) x = Some (xs[k := x])"
  by (simp add: arr_set_def)

lemma arr_get_uint [arr_simps]: "unat w < length xs \<Longrightarrow> arr_get xs (uint w) = Some (xs ! unat w)"
  unfolding uint_nat by (rule arr_get_nat)

lemma arr_set_uint [arr_simps]: "unat w < length xs \<Longrightarrow> arr_set xs (uint w) x = Some (xs[unat w := x])"
  unfolding uint_nat by (rule arr_set_nat)

lemma nth_opt_Some [simp]: "i < length xs \<Longrightarrow> nth_opt xs i = Some (xs ! i)"
  by (simp add: nth_opt_def)

lemma set_opt_Some [simp]: "i < length xs \<Longrightarrow> set_opt xs i x = Some (xs[i := x])"
  by (simp add: set_opt_def)

lemma arr_get_None_iff: "arr_get xs i = None \<longleftrightarrow> i < 0 \<or> int (length xs) \<le> i"
  by (auto simp: arr_get_def)

lemma arr_set_None_iff: "arr_set xs i x = None \<longleftrightarrow> i < 0 \<or> int (length xs) \<le> i"
  by (auto simp: arr_set_def)

lemma arr_set_length: "arr_set xs i x = Some ys \<Longrightarrow> length ys = length xs"
  by (auto simp: arr_set_def split: if_splits)

lemma arr_get_set_same: "arr_set xs i x = Some ys \<Longrightarrow> arr_get ys i = Some x"
  by (auto simp: arr_set_def arr_get_def split: if_splits)

subsection \<open>Runs\<close>

lemma if_keeps: "P a \<Longrightarrow> P b \<Longrightarrow> P (if c then a else b)"
  by simp

lemma exec_list_append:
  "exec_list stp s (es @ fs) = do { t \<leftarrow> exec_list stp s es; exec_list stp t fs }"
  by (induction es arbitrary: s) (auto split: bind_splits)

lemma exec_list_invariant:
  assumes "\<And>s e. I s \<Longrightarrow> \<exists>t. stp s e = Some t \<and> I t" and "I s"
  shows "\<exists>t. exec_list stp s es = Some t \<and> I t"
  using assms(2)
proof (induction es arbitrary: s)
  case Nil
  then show ?case by simp
next
  case (Cons e es)
  from Cons.prems assms(1) obtain t where "stp s e = Some t" and "I t" by blast
  with Cons.IH [of t] show ?case by simp
qed

subsection \<open>Bits\<close>

lemma int_and_7 [simp]: "(i::int) AND 7 = i mod 8"
  using take_bit_eq_mask [of 3 i] by (simp add: take_bit_eq_mod mask_eq_exp_minus_1)

lemma word_and_exp_eq_0: "w = 2 ^ n \<Longrightarrow> (x::'a::len word) AND w = 0 \<longleftrightarrow> \<not> bit x n"
  using and_exp_eq_0_iff_not_bit [of x n] by simp

lemma bit_or_if: "bit (or_if c m x) n \<longleftrightarrow> bit x n \<or> c \<and> bit m n"
  by (simp add: or_if_def bit_or_iff)

lemma bit_clear_if: "bit (clear_if c m x) n \<longleftrightarrow> bit x n \<and> \<not> (c \<and> bit m n)"
  by (auto simp: clear_if_def bit_and_iff bit_not_iff bit_imp_le_length dest: bit_imp_le_length)

lemma or_if_False [simp]: "or_if False m x = x" "clear_if False m x = x"
  by (simp_all add: or_if_def clear_if_def)

lemma unat_lt2p: "unat (w::'a::len word) < 2 ^ LENGTH('a)"
  by (fact unsigned_less)

lemma unat_drop_bit_div: "unat (drop_bit n (w::'a::len word)) = unat w div 2 ^ n"
  by (simp only: unat_drop_bit_eq) (simp only: drop_bit_eq_div)

lemma unat_ucast_up:
  assumes "LENGTH('a) \<le> LENGTH('b)"
  shows "unat (ucast (w::'a::len word) :: 'b::len word) = unat w"
proof -
  have "unat w < 2 ^ LENGTH('b)"
    using unat_lt2p [of w] power_increasing [OF assms, of "2::nat"] by linarith
  then show ?thesis by (simp add: unsigned_ucast_eq take_bit_nat_eq_self_iff)
qed

lemma unat_ucast_down: "unat (ucast (w::'a::len word) :: 'b::len word) = unat w mod 2 ^ LENGTH('b)"
  by (simp add: unsigned_ucast_eq take_bit_eq_mod)

lemmas word_distribs = bit.conj_disj_distrib bit.conj_disj_distrib2 and.assoc

text \<open>The identification registers that PrimeCell-style devices show at \<open>0xfe0\<close> to \<open>0xfff\<close>.\<close>

lemma id_index: "0xfe0 \<le> (a::hwaddr) \<Longrightarrow> a < 0x1000 \<Longrightarrow> unat (drop_bit 2 (a - 0xfe0)) < 8"
proof -
  assume a: "0xfe0 \<le> a" "a < 0x1000"
  then have "unat (a - 0xfe0) = unat a - 0xfe0" by (simp add: unat_sub)
  moreover have "unat a < 0x1000" using a(2) by (simp add: word_less_nat_alt)
  ultimately have "unat (a - 0xfe0) div 4 < 8" by linarith
  then show ?thesis by (simp add: unat_drop_bit_div)
qed

lemma id_get:
  assumes "0xfe0 \<le> (a::hwaddr)" "a < 0x1000" "length xs = 8"
  shows "arr_get xs (uint (drop_bit 2 (a - 0xfe0))) \<noteq> None"
proof -
  have "uint w < int (length xs)" if "unat w < 8" for w :: hwaddr
    using that assms(3) unfolding uint_nat by linarith
  from this [OF id_index [OF assms(1,2)]]
  show ?thesis by (simp only: arr_get_Some uint_ge_0 option.simps simp_thms)
qed

subsection \<open>Ring buffers\<close>

lemma length_ring_list [simp]: "length (ring_list xs p n) = n"
  by (simp add: ring_list_def)

lemma ring_list_0 [simp]: "ring_list xs p 0 = []"
  by (simp add: ring_list_def)

lemma ring_list_nth: "i < n \<Longrightarrow> ring_list xs p n ! i = xs ! ((p + i) mod length xs)"
  by (simp add: ring_list_def)

lemma ring_list_enq:
  assumes "n < length xs"
  shows "ring_list (xs[(p + n) mod length xs := x]) p (Suc n) = ring_list xs p n @ [x]"
proof -
  let ?j = "(p + n) mod length xs"
  from assms have "0 < length xs" by linarith
  then have j: "?j < length xs" by simp
  have "xs[?j := x] ! ((p + i) mod length xs) = xs ! ((p + i) mod length xs)" if "i < n" for i
  proof -
    have "(p + i) mod length xs \<noteq> ?j"
    proof
      assume "(p + i) mod length xs = ?j"
      then have "length xs dvd (p + n) - (p + i)"
        using that by (metis add_le_cancel_left less_or_eq_imp_le mod_eq_dvd_iff_nat)
      then have "length xs dvd n - i" by simp
      with that assms show False by (auto dest!: dvd_imp_le)
    qed
    then show ?thesis by simp
  qed
  with j show ?thesis by (simp add: ring_list_def)
qed

lemma ring_list_Cons:
  "ring_list xs p (Suc n) = xs ! (p mod length xs) # ring_list xs (Suc p) n"
proof -
  have "map (\<lambda>i. xs ! ((p + i) mod length xs)) [0..<Suc n]
      = xs ! (p mod length xs) # map (\<lambda>i. xs ! ((p + Suc i) mod length xs)) [0..<n]"
    by (simp add: upt_conv_Cons map_Suc_upt [symmetric] del: upt_Suc)
  then show ?thesis by (simp add: ring_list_def)
qed

lemma ring_list_mod: "ring_list xs (p mod length xs) n = ring_list xs p n"
  by (simp add: ring_list_def mod_add_left_eq)

text \<open>
  \<open>yields m P\<close>: the computation \<open>m\<close> is defined and its result satisfies \<open>P\<close>.
\<close>

definition yields :: "'a option \<Rightarrow> ('a \<Rightarrow> bool) \<Rightarrow> bool" where
  "yields m P \<longleftrightarrow> (\<exists>x. m = Some x \<and> P x)"

lemma yields_Some [simp]: "yields (Some x) P = P x"
  by (simp add: yields_def)

lemma yields_bind [simp]: "yields (m \<bind> f) P = yields m (\<lambda>x. yields (f x) P)"
  by (cases m) (simp_all add: yields_def)

lemma yields_map [simp]: "yields (map_option f m) P = yields m (\<lambda>x. P (f x))"
  by (cases m) (simp_all add: yields_def)

lemma yields_if: "(c \<Longrightarrow> yields a P) \<Longrightarrow> (\<not> c \<Longrightarrow> yields b P) \<Longrightarrow> yields (if c then a else b) P"
  by simp

lemma yields_mono: "yields m P \<Longrightarrow> (\<And>x. P x \<Longrightarrow> Q x) \<Longrightarrow> yields m Q"
  by (auto simp: yields_def)

lemma yields_exec_list:
  assumes "\<And>s x. I s \<Longrightarrow> x \<in> set xs \<Longrightarrow> yields (stp s x) I" "I s"
  shows "yields (exec_list stp s xs) I"
  using assms
proof (induction xs arbitrary: s)
  case Nil
  then show ?case by simp
next
  case (Cons x xs)
  from Cons.prems obtain t where "stp s x = Some t" "I t" by (auto simp: yields_def)
  with Cons show ?case by simp
qed

end
