(* ===== verification/HostUtils.thy ===== *)
theory HostUtils
  imports Prelude
begin

text \<open>
  The integer helpers of \<^verbatim>\<open>include/qemu/host-utils.h\<close> and \<^verbatim>\<open>util/host-utils.c\<close>: counting
  leading and trailing zeros and ones by binary search, and the 64 by 64 to 128 bit
  multiplication from 32-bit halves. The models translate the portable code (the branch
  taken without the compiler builtins and without \<open>__int128\<close>); the lemmas show that it
  computes the reference values \<open>clz_ref\<close>, \<open>ctz_ref\<close> and the mathematical product, which is
  what the builtins are documented to return, so both branches of every \<open>#if\<close> agree.
\<close>

subsection \<open>Reference definitions\<close>

fun lead_from :: "nat \<Rightarrow> 'a::len word \<Rightarrow> nat" where
  "lead_from 0 w = 0"
| "lead_from (Suc n) w = (if bit w n then 0 else Suc (lead_from n w))"

fun trail_from :: "nat \<Rightarrow> nat \<Rightarrow> 'a::len word \<Rightarrow> nat" where
  "trail_from i 0 w = 0"
| "trail_from i (Suc n) w = (if bit w i then 0 else Suc (trail_from (Suc i) n w))"

definition clz_ref :: "'a::len word \<Rightarrow> nat" where
  "clz_ref w = lead_from LENGTH('a) w"

definition ctz_ref :: "'a::len word \<Rightarrow> nat" where
  "ctz_ref w = trail_from 0 LENGTH('a) w"

subsection \<open>The portable routines\<close>

text \<open>One conditional of the binary searches: \<open>if (!(val & m)) { cnt += k; val <<= k; }\<close>.\<close>

fun clz_step :: "u32 \<Rightarrow> nat \<Rightarrow> nat \<times> u32 \<Rightarrow> nat \<times> u32" where
  "clz_step m k (cnt, val) = (if val AND m = 0 then (cnt + k, push_bit k val) else (cnt, val))"

fun ctz_step :: "u32 \<Rightarrow> nat \<Rightarrow> nat \<times> u32 \<Rightarrow> nat \<times> u32" where
  "ctz_step m k (cnt, val) = (if val AND m = 0 then (cnt + k, drop_bit k val) else (cnt, val))"

definition clz32 :: "u32 \<Rightarrow> nat" where
  "clz32 val = (
     let st = (0, val);
         st = clz_step 0xFFFF0000 16 st;
         st = clz_step 0xFF000000 8 st;
         st = clz_step 0xF0000000 4 st;
         st = clz_step 0xC0000000 2 st;
         (cnt, val) = clz_step 0x80000000 1 st
     in if val AND 0x80000000 = 0 then cnt + 1 else cnt)"

definition clo32 :: "u32 \<Rightarrow> nat" where
  "clo32 val = clz32 (NOT val)"

definition clz64 :: "u64 \<Rightarrow> nat" where
  "clz64 val0 = (
     let (cnt, val) = (if drop_bit 32 val0 = 0 then (32, val0) else (0, drop_bit 32 val0))
     in cnt + clz32 (ucast val))"

definition clo64 :: "u64 \<Rightarrow> nat" where
  "clo64 val = clz64 (NOT val)"

definition ctz32 :: "u32 \<Rightarrow> nat" where
  "ctz32 val = (
     let st = (0, val);
         st = ctz_step 0x0000FFFF 16 st;
         st = ctz_step 0x000000FF 8 st;
         st = ctz_step 0x0000000F 4 st;
         st = ctz_step 0x00000003 2 st;
         (cnt, val) = ctz_step 0x00000001 1 st
     in if val AND 0x00000001 = 0 then cnt + 1 else cnt)"

definition cto32 :: "u32 \<Rightarrow> nat" where
  "cto32 val = ctz32 (NOT val)"

definition ctz64 :: "u64 \<Rightarrow> nat" where
  "ctz64 val0 = (
     let (cnt, val) = (if (ucast val0 :: u32) = 0 then (32, drop_bit 32 val0) else (0, val0))
     in cnt + ctz32 (ucast val))"

definition cto64 :: "u64 \<Rightarrow> nat" where
  "cto64 val = ctz64 (NOT val)"

text \<open>The union \<open>LL\<close> of \<^verbatim>\<open>mul64\<close>: a 64-bit value and its two 32-bit halves.\<close>

definition LL_low :: "u64 \<Rightarrow> u32" where
  "LL_low x = ucast x"

definition LL_high :: "u64 \<Rightarrow> u32" where
  "LL_high x = ucast (drop_bit 32 x)"

definition LL_make :: "u32 \<Rightarrow> u32 \<Rightarrow> u64" where
  "LL_make high low = push_bit 32 (ucast high) OR ucast low"

definition mul64 :: "u64 \<Rightarrow> u64 \<Rightarrow> u64 \<times> u64" where
  "mul64 a b = (
     let rl = ucast (LL_low a) * ucast (LL_low b) :: u64;
         rm = ucast (LL_low a) * ucast (LL_high b) :: u64;
         rn = ucast (LL_high a) * ucast (LL_low b) :: u64;
         rh = ucast (LL_high a) * ucast (LL_high b) :: u64;
         c = ucast (LL_high rl) + ucast (LL_low rm) + ucast (LL_low rn) :: u64;
         rl = LL_make (ucast c) (LL_low rl);
         c = drop_bit 32 c;
         c = c + ucast (LL_high rm) + ucast (LL_high rn) + ucast (LL_low rh);
         rh = LL_make (LL_high rh) (ucast c);
         rh = LL_make (LL_high rh + ucast (drop_bit 32 c)) (LL_low rh)
     in (rl, rh))"

definition mulu64 :: "u64 \<Rightarrow> u64 \<Rightarrow> u64 \<times> u64" where
  "mulu64 a b = mul64 a b"

definition muls64 :: "u64 \<Rightarrow> u64 \<Rightarrow> u64 \<times> u64" where
  "muls64 a b = (
     let (plow, rh) = mul64 a b;
         rh = (if sint b < 0 then rh - a else rh);
         rh = (if sint a < 0 then rh - b else rh)
     in (plow, rh))"

subsection \<open>Leading and trailing zeros\<close>

lemma lead_from_ge: "k \<le> n \<Longrightarrow> k \<le> lead_from n w \<longleftrightarrow> (\<forall>i. n - k \<le> i \<and> i < n \<longrightarrow> \<not> bit w i)"
proof (induction n arbitrary: k)
  case 0
  then show ?case by simp
next
  case (Suc n)
  show ?case
  proof (cases k)
    case 0
    then show ?thesis by auto
  next
    case (Suc k')
    with Suc.prems have "k' \<le> n" by simp
    note IH = Suc.IH [OF this]
    show ?thesis
    proof (cases "bit w n")
      case True
      with Suc show ?thesis by (auto intro!: exI [of _ n])
    next
      case False
      then show ?thesis using Suc IH
        by (auto simp: less_Suc_eq)
    qed
  qed
qed

lemma lead_from_le: "lead_from n w \<le> n"
  by (induction n) auto

lemma trail_from_ge: "k \<le> n \<Longrightarrow> k \<le> trail_from j n w \<longleftrightarrow> (\<forall>i. j \<le> i \<and> i < j + k \<longrightarrow> \<not> bit w i)"
proof (induction n arbitrary: k j)
  case 0
  then show ?case by auto
next
  case (Suc n)
  show ?case
  proof (cases k)
    case 0
    then show ?thesis by auto
  next
    case (Suc k')
    with Suc.prems have "k' \<le> n" by simp
    note IH = Suc.IH [OF this, of "Suc j"]
    show ?thesis
    proof (cases "bit w j")
      case True
      with Suc show ?thesis by (auto intro!: exI [of _ j])
    next
      case False
      then have "(\<forall>i. j \<le> i \<and> i < j + Suc k' \<longrightarrow> \<not> bit w i)
          \<longleftrightarrow> (\<forall>i. Suc j \<le> i \<and> i < Suc j + k' \<longrightarrow> \<not> bit w i)"
        by (metis Suc_leI add_Suc_shift le_eq_less_or_eq Suc_leD)
      then show ?thesis using Suc IH False by simp
    qed
  qed
qed

lemma trail_from_le: "trail_from j n w \<le> n"
  by (induction n arbitrary: j) auto

lemma clz_ref_ge:
  "k \<le> LENGTH('a) \<Longrightarrow>
   k \<le> clz_ref (w::'a::len word) \<longleftrightarrow> (\<forall>i. LENGTH('a) - k \<le> i \<and> i < LENGTH('a) \<longrightarrow> \<not> bit w i)"
  unfolding clz_ref_def by (rule lead_from_ge)

lemma ctz_ref_ge:
  "k \<le> LENGTH('a) \<Longrightarrow> k \<le> ctz_ref (w::'a::len word) \<longleftrightarrow> (\<forall>i<k. \<not> bit w i)"
  unfolding ctz_ref_def using trail_from_ge [of k "LENGTH('a)" 0 w] by simp

lemma clz_ref_le: "clz_ref (w::'a::len word) \<le> LENGTH('a)"
  unfolding clz_ref_def by (rule lead_from_le)

lemma ctz_ref_le: "ctz_ref (w::'a::len word) \<le> LENGTH('a)"
  unfolding ctz_ref_def by (rule trail_from_le)

lemma nat_eq_by_bounds: "(\<And>k. k \<le> (a::nat) \<longleftrightarrow> k \<le> b) \<Longrightarrow> a = b"
  by (meson dual_order.refl order_antisym)

lemma clz_min_step:
  fixes w :: "'a::len word"
  assumes "a + b \<le> LENGTH('a)" and "a \<le> clz_ref w"
  shows "min (clz_ref w) (a + b) = a + min (clz_ref (push_bit a w)) b"
proof (rule nat_eq_by_bounds)
  fix k
  let ?n = "LENGTH('a)"
  have "k \<le> clz_ref w \<longleftrightarrow> k - a \<le> clz_ref (push_bit a w)" if k: "a \<le> k" "k \<le> a + b"
  proof -
    from k assms have le: "k \<le> ?n" "k - a \<le> ?n" by simp_all
    have top: "\<not> bit w i" if "?n - a \<le> i" "i < ?n" for i
      using clz_ref_ge [of a w] assms that by auto
    have "(\<forall>i. ?n - k \<le> i \<and> i < ?n \<longrightarrow> \<not> bit w i)
        \<longleftrightarrow> (\<forall>i. ?n - (k - a) \<le> i \<and> i < ?n \<longrightarrow> \<not> bit (push_bit a w) i)" (is "?L \<longleftrightarrow> ?R")
    proof
      assume L: ?L
      show ?R
      proof (intro allI impI)
        fix i assume i: "?n - (k - a) \<le> i \<and> i < ?n"
        with k le have "?n - k \<le> i - a \<and> i - a < ?n" by auto
        with L have "\<not> bit w (i - a)" by blast
        then show "\<not> bit (push_bit a w) i" by (simp add: bit_push_bit_iff)
      qed
    next
      assume R: ?R
      show ?L
      proof (intro allI impI)
        fix i assume i: "?n - k \<le> i \<and> i < ?n"
        show "\<not> bit w i"
        proof (cases "?n - a \<le> i")
          case True
          with i top show ?thesis by blast
        next
          case False
          with i k le have "?n - (k - a) \<le> i + a \<and> i + a < ?n" by auto
          with R have "\<not> bit (push_bit a w) (i + a)" by blast
          with False i show ?thesis by (simp add: bit_push_bit_iff)
        qed
      qed
    qed
    with le show ?thesis by (simp add: clz_ref_ge)
  qed
  then show "k \<le> min (clz_ref w) (a + b) \<longleftrightarrow> k \<le> a + min (clz_ref (push_bit a w)) b"
    using assms(2) by (cases "a \<le> k") (auto simp: le_diff_conv)
qed

lemma ctz_min_step:
  fixes w :: "'a::len word"
  assumes "a + b \<le> LENGTH('a)" and "a \<le> ctz_ref w"
  shows "min (ctz_ref w) (a + b) = a + min (ctz_ref (drop_bit a w)) b"
proof (rule nat_eq_by_bounds)
  fix k
  have low: "\<not> bit w i" if "i < a" for i
    using ctz_ref_ge [of a w] assms that by auto
  have "k \<le> ctz_ref w \<longleftrightarrow> k - a \<le> ctz_ref (drop_bit a w)" if k: "a \<le> k" "k \<le> a + b"
  proof -
    from k assms have le: "k \<le> LENGTH('a)" "k - a \<le> LENGTH('a)" by simp_all
    have "(\<forall>i<k. \<not> bit w i) \<longleftrightarrow> (\<forall>i<k - a. \<not> bit w (a + i))" (is "?L \<longleftrightarrow> ?R")
    proof
      assume ?L
      then show ?R by auto
    next
      assume R: ?R
      show ?L
      proof (intro allI impI)
        fix i assume "i < k"
        then show "\<not> bit w i"
          using low R [rule_format, of "i - a"] by (cases "i < a") auto
      qed
    qed
    with le show ?thesis by (simp add: ctz_ref_ge bit_drop_bit_eq)
  qed
  then show "k \<le> min (ctz_ref w) (a + b) \<longleftrightarrow> k \<le> a + min (ctz_ref (drop_bit a w)) b"
    using assms(2) by (cases "a \<le> k") (auto simp: le_diff_conv)
qed

lemma clz_test:
  fixes w :: "'a::len word"
  assumes "k \<le> LENGTH('a)"
  shows "w AND push_bit (LENGTH('a) - k) (mask k) = 0 \<longleftrightarrow> k \<le> clz_ref w"
proof -
  have "w AND push_bit (LENGTH('a) - k) (mask k) = 0
      \<longleftrightarrow> (\<forall>i<LENGTH('a). \<not> (bit w i \<and> LENGTH('a) - k \<le> i \<and> i - (LENGTH('a) - k) < k))"
    by (auto simp: bit_eq_iff bit_simps)
  also have "\<dots> \<longleftrightarrow> k \<le> clz_ref w"
    using assms by (auto simp: clz_ref_ge)
  finally show ?thesis .
qed

lemma ctz_test:
  fixes w :: "'a::len word"
  assumes "k \<le> LENGTH('a)"
  shows "w AND mask k = 0 \<longleftrightarrow> k \<le> ctz_ref w"
  using assms by (auto simp: ctz_ref_ge bit_eq_iff bit_simps dest: bit_imp_le_length)

lemma clz32_tests:
  "(w::u32) AND 0xFFFF0000 = 0 \<longleftrightarrow> 16 \<le> clz_ref w"
  "w AND 0xFF000000 = 0 \<longleftrightarrow> 8 \<le> clz_ref w"
  "w AND 0xF0000000 = 0 \<longleftrightarrow> 4 \<le> clz_ref w"
  "w AND 0xC0000000 = 0 \<longleftrightarrow> 2 \<le> clz_ref w"
  "w AND 0x80000000 = 0 \<longleftrightarrow> 1 \<le> clz_ref w"
  using clz_test [of 16 w] clz_test [of 8 w] clz_test [of 4 w] clz_test [of 2 w] clz_test [of 1 w]
  by (simp_all add: mask_eq_exp_minus_1)

lemma ctz32_tests:
  "(w::u32) AND 0x0000FFFF = 0 \<longleftrightarrow> 16 \<le> ctz_ref w"
  "w AND 0x000000FF = 0 \<longleftrightarrow> 8 \<le> ctz_ref w"
  "w AND 0x0000000F = 0 \<longleftrightarrow> 4 \<le> ctz_ref w"
  "w AND 0x00000003 = 0 \<longleftrightarrow> 2 \<le> ctz_ref w"
  "w AND 0x00000001 = 0 \<longleftrightarrow> 1 \<le> ctz_ref w"
  using ctz_test [of 16 w] ctz_test [of 8 w] ctz_test [of 4 w] ctz_test [of 2 w] ctz_test [of 1 w]
  by (simp_all add: mask_eq_exp_minus_1)

text \<open>
  What the rest of the search will return: \<open>k\<close> more zeros can still be found. Each step
  halves \<open>k\<close> and keeps the value.
\<close>

fun clz_rest :: "nat \<Rightarrow> nat \<times> u32 \<Rightarrow> nat" where
  "clz_rest k (cnt, val) = cnt + min (clz_ref val) k"

fun ctz_rest :: "nat \<Rightarrow> nat \<times> u32 \<Rightarrow> nat" where
  "ctz_rest k (cnt, val) = cnt + min (ctz_ref val) k"

lemma clz_step_rest:
  assumes "\<And>w::u32. w AND m = 0 \<longleftrightarrow> k \<le> clz_ref w" and "k + k \<le> 32"
  shows "clz_rest k (clz_step m k st) = clz_rest (k + k) st"
  using clz_min_step [of k k "snd st"] assms by (cases st) auto

lemma ctz_step_rest:
  assumes "\<And>w::u32. w AND m = 0 \<longleftrightarrow> k \<le> ctz_ref w" and "k + k \<le> 32"
  shows "ctz_rest k (ctz_step m k st) = ctz_rest (k + k) st"
  using ctz_min_step [of k k "snd st"] assms by (cases st) auto

lemmas clz32_steps =
  clz_step_rest [OF clz32_tests(1), simplified] clz_step_rest [OF clz32_tests(2), simplified]
  clz_step_rest [OF clz32_tests(3), simplified] clz_step_rest [OF clz32_tests(4), simplified]

lemmas ctz32_steps =
  ctz_step_rest [OF ctz32_tests(1), simplified] ctz_step_rest [OF ctz32_tests(2), simplified]
  ctz_step_rest [OF ctz32_tests(3), simplified] ctz_step_rest [OF ctz32_tests(4), simplified]

lemma clz32_last: "clz_rest 1 (clz_step 0x80000000 1 st) = clz_rest 2 st"
  using clz_step_rest [OF clz32_tests(5), of st] by (simp only: one_add_one)

lemma ctz32_last: "ctz_rest 1 (ctz_step 0x00000001 1 st) = ctz_rest 2 st"
  using ctz_step_rest [OF ctz32_tests(5), of st] by (simp only: one_add_one)

lemma clz32_end:
  "(case st of (cnt, val) \<Rightarrow> if val AND 0x80000000 = 0 then cnt + 1 else cnt) = clz_rest 1 st"
  by (cases st) (auto simp: clz32_tests(5))

lemma ctz32_end:
  "(case st of (cnt, val) \<Rightarrow> if val AND 0x00000001 = 0 then cnt + 1 else cnt) = ctz_rest 1 st"
  by (cases st) (auto simp: ctz32_tests(5))

lemma clz32_ref: "clz32 w = clz_ref w"
proof -
  have "clz32 w = clz_rest 1 (clz_step 0x80000000 1 (clz_step 0xC0000000 2 (clz_step 0xF0000000 4
      (clz_step 0xFF000000 8 (clz_step 0xFFFF0000 16 (0, w))))))"
    by (simp only: clz32_def Let_def clz32_end)
  also have "\<dots> = clz_rest 32 (0, w)"
    by (simp only: clz32_last clz32_steps)
  also have "\<dots> = clz_ref w"
    using clz_ref_le [of w] by simp
  finally show ?thesis .
qed

lemma ctz32_ref: "ctz32 w = ctz_ref w"
proof -
  have "ctz32 w = ctz_rest 1 (ctz_step 0x00000001 1 (ctz_step 0x00000003 2 (ctz_step 0x0000000F 4
      (ctz_step 0x000000FF 8 (ctz_step 0x0000FFFF 16 (0, w))))))"
    by (simp only: ctz32_def Let_def ctz32_end)
  also have "\<dots> = ctz_rest 32 (0, w)"
    by (simp only: ctz32_last ctz32_steps)
  also have "\<dots> = ctz_ref w"
    using ctz_ref_le [of w] by simp
  finally show ?thesis .
qed

lemma clz_ref_unat:
  fixes w :: "'a::len word"
  assumes "k \<le> LENGTH('a)"
  shows "k \<le> clz_ref w \<longleftrightarrow> unat w < 2 ^ (LENGTH('a) - k)"
proof -
  have "k \<le> clz_ref w \<longleftrightarrow> take_bit (LENGTH('a) - k) w = w"
    using assms by (auto simp: clz_ref_ge bit_eq_iff bit_simps) (meson linorder_not_le)
  also have "\<dots> \<longleftrightarrow> unat (take_bit (LENGTH('a) - k) w) = unat w"
    by (rule word_unat_eq_iff)
  also have "\<dots> \<longleftrightarrow> unat w < 2 ^ (LENGTH('a) - k)"
    by (simp add: unsigned_take_bit_eq take_bit_nat_eq_self_iff)
  finally show ?thesis .
qed

lemma clz64_ref: "clz64 w = clz_ref w"
proof (cases "drop_bit 32 w = 0")
  case True
  then have "unat (drop_bit 32 w) = 0" by (simp only: unat_0)
  then have small: "unat w < 2 ^ 32"
    by (simp only: unat_drop_bit_div div_eq_0_iff) simp
  then have same: "unat (ucast w :: u32) = unat w"
    by (simp add: unsigned_ucast_eq take_bit_nat_eq_self_iff)
  have "32 + clz_ref (ucast w :: u32) = clz_ref w"
  proof (rule nat_eq_by_bounds)
    fix k :: nat
    consider "k \<le> 32" | "32 < k" "k \<le> 64" | "64 < k" by linarith
    then show "k \<le> 32 + clz_ref (ucast w :: u32) \<longleftrightarrow> k \<le> clz_ref w"
    proof cases
      case 1
      then have "(2::nat) ^ 32 \<le> 2 ^ (64 - k)" by (intro power_increasing) auto
      with 1 small clz_ref_unat [of k w] show ?thesis by simp
    next
      case 2
      then have "32 - (k - 32) = 64 - k" by simp
      with 2 clz_ref_unat [of k w] clz_ref_unat [of "k - 32" "ucast w :: u32"] same
      show ?thesis by (auto simp: le_diff_conv)
    next
      case 3
      then show ?thesis using clz_ref_le [of w] clz_ref_le [of "ucast w :: u32"] by simp
    qed
  qed
  with True show ?thesis by (simp add: clz64_def clz32_ref)
next
  case False
  have hi: "unat (ucast (drop_bit 32 w) :: u32) = unat w div 2 ^ 32"
  proof -
    have "unat w div 2 ^ 32 < 2 ^ 32"
      using unat_lt2p [of w] by (simp add: div_less_iff_less_mult)
    then show ?thesis
      by (simp add: unsigned_ucast_eq unat_drop_bit_div take_bit_nat_eq_self_iff)
  qed
  have big: "2 ^ 32 \<le> unat w"
    using False unat_drop_bit_div [of 32 w]
    by (metis div_less linorder_not_le unat_eq_zero)
  have "clz_ref (ucast (drop_bit 32 w) :: u32) = clz_ref w"
  proof (rule nat_eq_by_bounds)
    fix k :: nat
    consider "k \<le> 32" | "32 < k" by linarith
    then show "k \<le> clz_ref (ucast (drop_bit 32 w) :: u32) \<longleftrightarrow> k \<le> clz_ref w"
    proof cases
      case 1
      then have "64 - k = (32 - k) + 32" by simp
      then have "(2::nat) ^ (64 - k) = 2 ^ (32 - k) * 2 ^ 32"
        by (simp only: power_add)
      with 1 hi clz_ref_unat [of k w] clz_ref_unat [of k "ucast (drop_bit 32 w) :: u32"]
      show ?thesis by (simp add: div_less_iff_less_mult)
    next
      case 2
      have "\<not> 33 \<le> clz_ref w" using clz_ref_unat [of 33 w] big by simp
      with 2 clz_ref_le [of "ucast (drop_bit 32 w) :: u32"] show ?thesis by simp
    qed
  qed
  with False show ?thesis by (simp add: clz64_def clz32_ref)
qed

lemma ctz64_ref: "ctz64 w = ctz_ref w"
proof (cases "(ucast w :: u32) = 0")
  case True
  then have low: "\<not> bit w i" if "i < 32" for i
  proof -
    from True have "\<not> bit (ucast w :: u32) i" by (simp only: bit_0_eq bot_apply bot_bool_def) simp
    with that show ?thesis by (simp only: bit_ucast_iff) simp
  qed
  then have ge: "32 \<le> ctz_ref w" using ctz_ref_ge [of 32 w] by simp
  have "ctz_ref w = 32 + min (ctz_ref (drop_bit 32 w)) 32"
    using ctz_min_step [of 32 32 w] ge ctz_ref_le [of w] by (simp add: min_absorb1)
  also have "min (ctz_ref (drop_bit 32 w)) 32 = ctz_ref (ucast (drop_bit 32 w) :: u32)"
  proof (rule nat_eq_by_bounds)
    fix k
    show "k \<le> min (ctz_ref (drop_bit 32 w)) 32 \<longleftrightarrow> k \<le> ctz_ref (ucast (drop_bit 32 w) :: u32)"
      using ctz_ref_ge [of k "drop_bit 32 w"] ctz_ref_ge [of k "ucast (drop_bit 32 w) :: u32"]
        ctz_ref_le [of "ucast (drop_bit 32 w) :: u32"]
      by (cases "k \<le> 32") (auto simp: bit_simps)
  qed
  finally show ?thesis using True by (simp add: ctz64_def ctz32_ref)
next
  case False
  then obtain j where j: "j < 32" "bit w j"
    by (auto simp: bit_eq_iff bit_simps)
  have "ctz_ref (ucast w :: u32) = ctz_ref w"
  proof (rule nat_eq_by_bounds)
    fix k
    have "\<not> 33 \<le> ctz_ref w" using ctz_ref_ge [of 33 w] j by auto
    then show "k \<le> ctz_ref (ucast w :: u32) \<longleftrightarrow> k \<le> ctz_ref w"
      using ctz_ref_ge [of k w] ctz_ref_ge [of k "ucast w :: u32"] ctz_ref_le [of "ucast w :: u32"]
      by (cases "k \<le> 32") (auto simp: bit_simps)
  qed
  with False show ?thesis by (simp add: ctz64_def ctz32_ref)
qed

subsection \<open>128-bit products\<close>

lemma unat_LL_low: "unat (LL_low x) = unat x mod 2 ^ 32"
  by (simp add: LL_low_def unsigned_ucast_eq take_bit_eq_mod)

lemma unat_LL_high: "unat (LL_high x) = unat x div 2 ^ 32"
proof -
  have "unat x div 2 ^ 32 < 2 ^ 32"
    using unat_lt2p [of x] by (simp add: div_less_iff_less_mult)
  then show ?thesis
    by (simp add: LL_high_def unsigned_ucast_eq unat_drop_bit_div take_bit_nat_eq_self_iff)
qed

lemma unat_LL_make: "unat (LL_make h l) = unat h * 2 ^ 32 + unat l"
proof -
  have "push_bit 32 (ucast h :: u64) AND ucast l = 0"
    by (auto simp: bit_eq_iff bit_simps dest: bit_imp_le_length)
  then have "LL_make h l = push_bit 32 (ucast h) + ucast l"
    by (simp add: LL_make_def disjunctive_add_eq_or)
  moreover have "unat (push_bit 32 (ucast h) :: u64) = unat h * 2 ^ 32"
  proof -
    have "unat h * 2 ^ 32 < 2 ^ 64" using unat_lt2p [of h] by simp
    moreover have "unat (ucast h :: u64) = unat h" by (simp add: unat_ucast_up)
    ultimately show ?thesis
      by (simp only: unsigned_push_bit_eq) (simp add: push_bit_eq_mult take_bit_nat_eq_self_iff)
  qed
  moreover have "unat (ucast l :: u64) = unat l" by (simp add: unat_ucast_up)
  moreover have "unat h * 2 ^ 32 + unat l < 2 ^ 64"
    using unat_lt2p [of h] unat_lt2p [of l] by simp
  ultimately show ?thesis
    by (simp add: unat_word_ariths)
qed

text \<open>The column sums of the schoolbook product, over natural numbers.\<close>

lemma column_sums:
  fixes rl rm rn rh B :: nat
  defines "c1 \<equiv> rl div B + rm mod B + rn mod B"
  defines "c2 \<equiv> c1 div B + rm div B + rn div B + rh mod B"
  shows "(rh div B + c2 div B) * (B * (B * B)) + c2 mod B * (B * B) + c1 mod B * B + rl mod B
    = rh * (B * B) + rm * B + rn * B + rl"
proof -
  have "(rh div B + c2 div B) * (B * (B * B)) + c2 mod B * (B * B) + c1 mod B * B + rl mod B
      = rh div B * B * (B * B) + (c2 div B * B + c2 mod B) * (B * B) + c1 mod B * B + rl mod B"
    by (simp only: distrib_right mult.assoc add.assoc)
  also have "\<dots> = rh div B * B * (B * B) + c2 * (B * B) + c1 mod B * B + rl mod B"
    by (simp only: div_mult_mod_eq)
  also have "\<dots> = (rh div B * B + rh mod B) * (B * B) + (rm div B + rn div B) * (B * B)
      + (c1 div B * B + c1 mod B) * B + rl mod B"
    unfolding c2_def by (simp only: distrib_left distrib_right mult.assoc ac_simps)
  also have "\<dots> = rh * (B * B) + (rm div B + rn div B) * (B * B) + c1 * B + rl mod B"
    by (simp only: div_mult_mod_eq)
  also have "\<dots> = rh * (B * B) + (rm div B * B + rm mod B) * B + (rn div B * B + rn mod B) * B
      + (rl div B * B + rl mod B)"
    unfolding c1_def by (simp only: distrib_left distrib_right mult.assoc ac_simps)
  also have "\<dots> = rh * (B * B) + rm * B + rn * B + rl"
    by (simp only: div_mult_mod_eq)
  finally show ?thesis .
qed

lemma unat_word_add: "unat x + unat y < 2 ^ LENGTH('a) \<Longrightarrow> unat (x + y :: 'a::len word) = unat x + unat y"
  by (simp add: unat_word_ariths)

lemma unat_word_mult: "unat x * unat y < 2 ^ LENGTH('a) \<Longrightarrow> unat (x * y :: 'a::len word) = unat x * unat y"
  by (simp add: unat_word_ariths)

lemma half_product_bound:
  fixes x y :: u32
  shows "unat x * unat y \<le> (2 ^ 32 - 1) * (2 ^ 32 - 1)"
proof -
  have "unat x \<le> 2 ^ 32 - 1" "unat y \<le> 2 ^ 32 - 1"
    using unat_lt2p [of x] unat_lt2p [of y] by simp_all
  then show ?thesis by (rule mult_le_mono)
qed

lemma unat_half_product: "unat (ucast (x::u32) * ucast (y::u32) :: u64) = unat x * unat y"
  using half_product_bound [of x y] by (simp add: unat_ucast_up unat_word_mult)

lemma LL_make_parts: "LL_high (LL_make h l) = h" "LL_low (LL_make h l) = l"
  using unat_lt2p [of l]
  by (simp_all add: word_unat_eq_iff unat_LL_high unat_LL_low unat_LL_make)

lemma LL_split: "unat x = unat (LL_high x) * 2 ^ 32 + unat (LL_low x)"
  by (simp only: unat_LL_high unat_LL_low div_mult_mod_eq)

lemma mul64_correct:
  "unat (snd (mul64 a b)) * 2 ^ 64 + unat (fst (mul64 a b)) = unat a * unat b"
proof -
  let ?B = "2 ^ 32 :: nat"
  define wl wm wn wh :: u64 where
    "wl = ucast (LL_low a) * ucast (LL_low b)" and "wm = ucast (LL_low a) * ucast (LL_high b)"
    and "wn = ucast (LL_high a) * ucast (LL_low b)" and "wh = ucast (LL_high a) * ucast (LL_high b)"
  define v1 :: u64 where "v1 = ucast (LL_high wl) + ucast (LL_low wm) + ucast (LL_low wn)"
  define v2 :: u64 where "v2 = drop_bit 32 v1 + ucast (LL_high wm) + ucast (LL_high wn) + ucast (LL_low wh)"
  define c1 where "c1 = unat wl div ?B + unat wm mod ?B + unat wn mod ?B"
  define c2 where "c2 = c1 div ?B + unat wm div ?B + unat wn div ?B + unat wh mod ?B"
  have half: "unat (ucast h :: u64) = unat h" "unat h < ?B" for h :: u32
    using unat_lt2p [of h] by (simp_all add: unat_ucast_up)
  have prod: "unat wh * (?B * ?B) + unat wm * ?B + unat wn * ?B + unat wl = unat a * unat b"
    unfolding wl_def wm_def wn_def wh_def unat_half_product LL_split [of a] LL_split [of b]
    by (simp only: distrib_left distrib_right mult.assoc ac_simps)
  have c1: "unat v1 = c1" "c1 < 3 * ?B"
    using half(2) [of "LL_high wl"] half(2) [of "LL_low wm"] half(2) [of "LL_low wn"]
    by (simp_all add: v1_def c1_def unat_word_add half(1) unat_LL_high unat_LL_low)
  have c2: "unat v2 = c2"
  proof -
    have "c1 div ?B < ?B" using c1(2) by (simp add: div_less_iff_less_mult)
    then show ?thesis
      using half(2) [of "LL_high wm"] half(2) [of "LL_high wn"] half(2) [of "LL_low wh"]
      by (simp add: v2_def c2_def unat_word_add half(1) unat_drop_bit_div c1(1) unat_LL_high unat_LL_low)
  qed
  have cols: "(unat wh div ?B + c2 div ?B) * (?B * (?B * ?B)) + c2 mod ?B * (?B * ?B)
      + c1 mod ?B * ?B + unat wl mod ?B = unat a * unat b"
    using column_sums [of "unat wh" ?B "unat wl" "unat wm" "unat wn"] prod
    by (simp only: c1_def c2_def)
  have top: "unat wh div ?B + c2 div ?B < ?B"
  proof -
    have "(unat wh div ?B + c2 div ?B) * (?B * (?B * ?B)) \<le> unat a * unat b"
      using cols by linarith
    also have "\<dots> < ?B * (?B * (?B * ?B))"
    proof -
      have "unat a < ?B * ?B" "unat b < ?B * ?B"
        using unat_lt2p [of a] unat_lt2p [of b] by simp_all
      then have "unat a * unat b < (?B * ?B) * (?B * ?B)" by (rule mult_strict_mono') simp_all
      then show ?thesis by (simp only: mult.assoc)
    qed
    finally show ?thesis by simp
  qed
  have hi: "unat (LL_high wh + ucast (drop_bit 32 v2)) = unat wh div ?B + c2 div ?B"
  proof -
    have "unat (ucast (drop_bit 32 v2) :: u32) = c2 div ?B"
      using top by (simp add: unat_ucast_down unat_drop_bit_div c2)
    then show ?thesis using top by (simp add: unat_word_add unat_LL_high)
  qed
  have lo: "unat (ucast v1 :: u32) = c1 mod ?B" "unat (ucast v2 :: u32) = c2 mod ?B"
    by (simp_all add: unat_ucast_down c1 c2)
  have res: "mul64 a b = (LL_make (ucast v1) (LL_low wl),
      LL_make (LL_high wh + ucast (drop_bit 32 v2)) (ucast v2))"
    by (simp only: mul64_def Let_def LL_make_parts wl_def wm_def wn_def wh_def v1_def v2_def)
  have "(x * ?B + y) * 2 ^ 64 + (z * ?B + w) = x * (?B * (?B * ?B)) + y * (?B * ?B) + z * ?B + w"
    for x y z w :: nat by simp
  then show ?thesis
    using cols by (simp only: res fst_conv snd_conv unat_LL_make hi lo unat_LL_low)
qed

text \<open>the unsigned 64 by 64 bit multiplication from 32-bit halves returns the exact 128-bit
  product as its high and low words.\<close>
theorem mulu64_correct:
  "unat (snd (mulu64 a b)) * 2 ^ 64 + unat (fst (mulu64 a b)) = unat a * unat b"
  unfolding mulu64_def by (rule mul64_correct)

text \<open>
  The signed product: the high word read as a signed number. \<open>sint x\<close> is \<open>uint x\<close>, less
  \<open>2 ^ 64\<close> when the sign bit is set, which is what the two corrections subtract.
\<close>

lemma sint_range64: "- (2 ^ 63) \<le> sint (x::u64)" "sint (x::u64) < 2 ^ 63"
  using sint_greater_eq [of x] sint_less [of x] by simp_all

lemma sint_uint64: "sint (x::u64) = uint x - (if sint x < 0 then 2 ^ 64 else 0)"
proof -
  have u: "uint x = sint x mod 2 ^ 64" by (simp add: uint_sint take_bit_eq_mod)
  show ?thesis
  proof (cases "sint x < 0")
    case True
    have "sint x mod 2 ^ 64 = (sint x + 2 ^ 64) mod 2 ^ 64" by simp
    also have "\<dots> = sint x + 2 ^ 64"
      using True sint_range64 [of x] by (intro mod_pos_pos_trivial) auto
    finally show ?thesis using u True by simp
  next
    case False
    then show ?thesis using u sint_range64 [of x] by (simp add: mod_pos_pos_trivial)
  qed
qed

lemma sint_of_int64: "- (2 ^ 63) \<le> y \<Longrightarrow> y < 2 ^ 63 \<Longrightarrow> sint (word_of_int y :: u64) = y"
  by (simp add: signed_of_int signed_take_bit_int_eq_self)

text \<open>C25: the signed 64 by 64 bit multiplication returns the exact product of the operands read as
  two's complement numbers, the high word signed and the low word unsigned.\<close>
theorem muls64_correct:
  "sint (snd (muls64 a b)) * 2 ^ 64 + uint (fst (muls64 a b)) = sint a * sint b"
proof -
  obtain lo hi where m: "mul64 a b = (lo, hi)" by fastforce
  define na nb :: int where "na = (if sint a < 0 then 1 else 0)" and "nb = (if sint b < 0 then 1 else 0)"
  define y where "y = uint hi - nb * uint a - na * uint b + na * nb * 2 ^ 64"
  have u: "uint hi * 2 ^ 64 + uint lo = uint a * uint b"
    using mul64_correct [of a b] unfolding m fst_conv snd_conv uint_nat
    by (metis of_nat_add of_nat_mult of_nat_numeral of_nat_power)
  have s: "sint a = uint a - na * 2 ^ 64" "sint b = uint b - nb * 2 ^ 64"
    using sint_uint64 [of a] sint_uint64 [of b] by (auto simp: na_def nb_def split: if_split_asm)
  have prod: "sint a * sint b = y * 2 ^ 64 + uint lo"
    unfolding s y_def using u by (simp add: algebra_simps)
  have z: "(18446744073709551616 :: u64) = 0" by simp
  have "word_of_int y = hi - word_of_int nb * a - word_of_int na * b"
    by (simp add: y_def) (simp only: z mult_zero_right)
  then have word: "snd (muls64 a b) = word_of_int y"
    by (simp add: muls64_def m na_def nb_def)
  have range: "- (2 ^ 63) \<le> y" "y < 2 ^ 63"
  proof -
    have lo: "0 \<le> uint lo" "uint lo < 2 ^ 64" using uint_lt2p [of lo] by simp_all
    have "\<bar>sint a * sint b\<bar> \<le> 2 ^ 63 * 2 ^ 63"
      unfolding abs_mult using sint_range64 [of a] sint_range64 [of b]
      by (intro mult_mono) auto
    then have "- (2 ^ 126) \<le> y * 2 ^ 64 + uint lo" and up: "y * 2 ^ 64 + uint lo \<le> 2 ^ 126"
      unfolding prod by simp_all
    with lo(2) show "- (2 ^ 63) \<le> y" by simp
    have "y * 2 ^ 64 \<le> y * 2 ^ 64 + uint lo" by simp
    also note up
    finally show "y < 2 ^ 63" by simp
  qed
  have "fst (muls64 a b) = lo" by (simp add: muls64_def m Let_def)
  then show ?thesis
    using prod sint_of_int64 [OF range] by (simp only: word)
qed

text \<open>C26: the binary searches for leading and trailing zeros (32 and 64 bits), and with them the
  counts of leading and trailing ones, compute what the bit-by-bit definition does, the zero
  word included, where they return the width.\<close>
theorem count_zeros_equiv:
  "clz32 v = clz_ref v \<and> clz64 w = clz_ref w \<and> ctz32 v = ctz_ref v \<and> ctz64 w = ctz_ref w \<and>
   clo32 v = clz_ref (NOT v) \<and> clo64 w = clz_ref (NOT w) \<and>
   cto32 v = ctz_ref (NOT v) \<and> cto64 w = ctz_ref (NOT w)"
  by (simp add: clz32_ref clz64_ref ctz32_ref ctz64_ref clo32_def clo64_def cto32_def cto64_def)

end
