(* ===== verification/Interfaces.thy ===== *)
theory Interfaces
  imports Prelude
begin

text \<open>
  The contracts the components rely on, as locales.

  \<^item> \<open>guarded_machine\<close>: a step function that may run into undefined behaviour (\<open>None\<close>), an
    environment guard and an invariant. What it gives: every run of events the guard admits
    is defined and keeps the invariant.
  \<^item> \<open>mmio_device\<close>: the contract of a device behind a memory region (\<open>MemoryRegionOps\<close> of
    \<^verbatim>\<open>include/exec/memory.h\<close>): a read handler and a write handler that keep the device's
    invariant. It is a \<open>guarded_machine\<close> for guest accesses.
  \<^item> \<open>bounded_queue\<close>: a FIFO of fixed capacity stored in some larger state. What it gives:
    along every run of pushes and pops nothing is lost, duplicated or reordered.
  \<^item> \<open>simulation\<close>: a machine with outputs, an abstract machine that follows the outputs and a
    relation between their states that every admitted step keeps. What it gives: every admitted
    run is defined and the abstract machine follows it.
\<close>

datatype mmio = MRead hwaddr | MWrite hwaddr u64

fun mmio_step ::
  "('s \<Rightarrow> hwaddr \<Rightarrow> (u64 \<times> 's) option) \<Rightarrow> ('s \<Rightarrow> hwaddr \<Rightarrow> u64 \<Rightarrow> 's option) \<Rightarrow> 's \<Rightarrow> mmio \<Rightarrow> 's option"
where
  "mmio_step rd wr s (MRead a) = map_option snd (rd s a)"
| "mmio_step rd wr s (MWrite a v) = wr s a v"

fun guarded :: "('s \<Rightarrow> 'e \<Rightarrow> 's option) \<Rightarrow> ('s \<Rightarrow> 'e \<Rightarrow> bool) \<Rightarrow> 's \<Rightarrow> 'e list \<Rightarrow> bool" where
  "guarded stp ok s [] = True"
| "guarded stp ok s (e # es) =
     (ok s e \<and> (case stp s e of None \<Rightarrow> True | Some t \<Rightarrow> guarded stp ok t es))"

datatype 'a qop = Push 'a | Pop

fun queue_run ::
  "('s \<Rightarrow> 'a \<Rightarrow> 's option) \<Rightarrow> ('s \<Rightarrow> ('a \<times> 's) option) \<Rightarrow> 's \<Rightarrow> 'a qop list \<Rightarrow> ('a list \<times> 's) option"
where
  "queue_run push pop s [] = Some ([], s)"
| "queue_run push pop s (Push x # ops) = do { t \<leftarrow> push s x; queue_run push pop t ops }"
| "queue_run push pop s (Pop # ops) =
     do { (x, t) \<leftarrow> pop s; (out, u) \<leftarrow> queue_run push pop t ops; Some (x # out, u) }"

fun pushed :: "'a qop list \<Rightarrow> 'a list" where
  "pushed [] = []"
| "pushed (Push x # ops) = x # pushed ops"
| "pushed (Pop # ops) = pushed ops"

fun queue_admits :: "nat \<Rightarrow> nat \<Rightarrow> 'a qop list \<Rightarrow> bool" where
  "queue_admits c n [] = True"
| "queue_admits c n (Push x # ops) = (n < c \<and> queue_admits c (Suc n) ops)"
| "queue_admits c n (Pop # ops) = (0 < n \<and> queue_admits c (n - 1) ops)"

locale guarded_machine =
  fixes stp :: "'s \<Rightarrow> 'e \<Rightarrow> 's option"
    and ok :: "'s \<Rightarrow> 'e \<Rightarrow> bool"
    and I :: "'s \<Rightarrow> bool"
  assumes step_ok: "I s \<Longrightarrow> ok s e \<Longrightarrow> \<exists>t. stp s e = Some t \<and> I t"
begin

lemma run_ok: "I s \<Longrightarrow> guarded stp ok s es \<Longrightarrow> \<exists>t. exec_list stp s es = Some t \<and> I t"
proof (induction es arbitrary: s)
  case Nil
  then show ?case by simp
next
  case (Cons e es)
  then obtain t where "stp s e = Some t" "I t" using step_ok [of s e] by auto
  with Cons show ?case by auto
qed

lemma run_keeps: "I s \<Longrightarrow> guarded stp ok s es \<Longrightarrow> exec_list stp s es = Some t \<Longrightarrow> I t"
  using run_ok by fastforce

end

lemma guarded_True: "guarded stp (\<lambda>_ _. True) s es"
  by (induction es arbitrary: s) (auto split: option.split)

locale mmio_device =
  fixes rd :: "'s \<Rightarrow> hwaddr \<Rightarrow> (u64 \<times> 's) option"
    and wr :: "'s \<Rightarrow> hwaddr \<Rightarrow> u64 \<Rightarrow> 's option"
    and I :: "'s \<Rightarrow> bool"
  assumes read_ok: "I s \<Longrightarrow> \<exists>v t. rd s a = Some (v, t) \<and> I t"
    and write_ok: "I s \<Longrightarrow> \<exists>t. wr s a x = Some t \<and> I t"
begin

lemma access_ok: "I s \<Longrightarrow> \<exists>t. mmio_step rd wr s e = Some t \<and> I t"
proof (cases e)
  case (MRead a)
  assume "I s"
  from read_ok [OF this, of a] MRead show ?thesis by auto
next
  case (MWrite a x)
  assume "I s"
  from write_ok [OF this, of a x] MWrite show ?thesis by simp
qed

end

sublocale mmio_device \<subseteq> guarded_machine "mmio_step rd wr" "\<lambda>_ _. True" I
  by unfold_locales (rule access_ok)

context mmio_device
begin

lemma accesses_ok: "I s \<Longrightarrow> \<exists>t. exec_list (mmio_step rd wr) s es = Some t \<and> I t"
  by (rule run_ok [OF _ guarded_True])

end

locale bounded_queue =
  fixes push :: "'s \<Rightarrow> 'a \<Rightarrow> 's option"
    and pop :: "'s \<Rightarrow> ('a \<times> 's) option"
    and items :: "'s \<Rightarrow> 'a list"
    and I :: "'s \<Rightarrow> bool"
    and capacity :: nat
  assumes push_ok: "I s \<Longrightarrow> length (items s) < capacity \<Longrightarrow>
      \<exists>t. push s x = Some t \<and> I t \<and> items t = items s @ [x]"
    and pop_ok: "I s \<Longrightarrow> items s = x # xs \<Longrightarrow> \<exists>t. pop s = Some (x, t) \<and> I t \<and> items t = xs"
    and within_capacity: "I s \<Longrightarrow> length (items s) \<le> capacity"
begin

lemma run_fifo:
  "I s \<Longrightarrow> queue_admits capacity (length (items s)) ops \<Longrightarrow>
   \<exists>out t. queue_run push pop s ops = Some (out, t) \<and> I t \<and> items s @ pushed ops = out @ items t"
proof (induction ops arbitrary: s rule: pushed.induct)
  case 1
  then show ?case by simp
next
  case (2 x ops)
  then obtain t where t: "push s x = Some t" "I t" "items t = items s @ [x]"
    using push_ok [of s x] by auto
  with 2 have "queue_admits capacity (length (items t)) ops" by simp
  from 2(1) [OF \<open>I t\<close> this] t show ?case by auto
next
  case (3 ops)
  then obtain x xs where xs: "items s = x # xs" by (cases "items s") auto
  with 3 obtain t where t: "pop s = Some (x, t)" "I t" "items t = xs"
    using pop_ok [of s x xs] by auto
  with 3 xs have "queue_admits capacity (length (items t)) ops" by simp
  from 3(1) [OF \<open>I t\<close> this] t xs show ?case by auto
qed

end

fun io_run :: "('s \<Rightarrow> 'e \<Rightarrow> ('o \<times> 's) option) \<Rightarrow> 's \<Rightarrow> 'e list \<Rightarrow> ('o list \<times> 's) option" where
  "io_run stp s [] = Some ([], s)"
| "io_run stp s (e # es) = do { (out, t) \<leftarrow> stp s e; (outs, u) \<leftarrow> io_run stp t es; Some (out # outs, u) }"

lemma io_run_append:
  "io_run stp s (es @ fs) = do { (outs, t) \<leftarrow> io_run stp s es; (outs', u) \<leftarrow> io_run stp t fs; Some (outs @ outs', u) }"
  by (induction es arbitrary: s) (auto simp: case_prod_beta split: bind_splits)

fun follow :: "('a \<Rightarrow> 'e \<Rightarrow> 'o \<Rightarrow> 'a) \<Rightarrow> 'a \<Rightarrow> 'e list \<Rightarrow> 'o list \<Rightarrow> 'a" where
  "follow astep a (e # es) (out # outs) = follow astep (astep a e out) es outs"
| "follow astep a _ _ = a"

fun io_guarded ::
  "('s \<Rightarrow> 'e \<Rightarrow> ('o \<times> 's) option) \<Rightarrow> ('a \<Rightarrow> 'e \<Rightarrow> 'o \<Rightarrow> 'a) \<Rightarrow> ('s \<Rightarrow> 'a \<Rightarrow> 'e \<Rightarrow> bool) \<Rightarrow> 's \<Rightarrow> 'a \<Rightarrow> 'e list \<Rightarrow> bool"
where
  "io_guarded stp astep ok s a [] = True"
| "io_guarded stp astep ok s a (e # es) =
     (ok s a e \<and> (case stp s e of None \<Rightarrow> True | Some (out, t) \<Rightarrow> io_guarded stp astep ok t (astep a e out) es))"

locale simulation =
  fixes stp :: "'s \<Rightarrow> 'e \<Rightarrow> ('o \<times> 's) option"
    and astep :: "'a \<Rightarrow> 'e \<Rightarrow> 'o \<Rightarrow> 'a"
    and ok :: "'s \<Rightarrow> 'a \<Rightarrow> 'e \<Rightarrow> bool"
    and R :: "'s \<Rightarrow> 'a \<Rightarrow> bool"
  assumes step_sim: "R s a \<Longrightarrow> ok s a e \<Longrightarrow> yields (stp s e) (\<lambda>(out, t). R t (astep a e out))"
begin

lemma run_sim:
  "R s a \<Longrightarrow> io_guarded stp astep ok s a es \<Longrightarrow>
   \<exists>outs t. io_run stp s es = Some (outs, t) \<and> R t (follow astep a es outs)"
proof (induction es arbitrary: s a)
  case Nil
  then show ?case by simp
next
  case (Cons e es)
  then obtain out t where t: "stp s e = Some (out, t)" "R t (astep a e out)"
    using step_sim [of s a e] by (auto simp: yields_def)
  with Cons.prems have "io_guarded stp astep ok t (astep a e out) es" by simp
  from Cons.IH [OF t(2) this] t(1) show ?case by auto
qed

end

end
