(* ===== verification/Ptimer.thy ===== *)
theory Ptimer
  imports HostUtils Interfaces "HOL-Library.Signed_Division"
begin

text \<open>
  The down-counter with interpolation of \<^verbatim>\<open>hw/core/ptimer.c\<close>, which drives the RTT and the PMC.

  The virtual clock (\<open>qemu_get_clock_ns(vm_clock)\<close>) is an argument \<open>now\<close> of every operation that
  reads it. The bottom half is an optional "scheduled" flag (\<open>None\<close>: the timer was created
  without one); the host timer is its deadline, if it is armed. Signed 64-bit fields are
  64-bit words read with \<open>sint\<close> where the code compares them as signed. An integer division
  by zero is \<open>None\<close>.

  The lemmas show that the scaled 64-bit division of \<open>ptimer_get_count\<close> never divides by
  zero and never exceeds the exact quotient by the 64.32 fixed-point period; that
  \<open>ptimer_set_freq\<close> computes exactly the rounded-down fixed-point period; and that every
  operation keeps an enabled timer armed for \<open>next_event\<close>.
\<close>

record ptimer_state =
  pt_enabled :: u8
  pt_limit :: u64
  pt_delta :: u64
  pt_period_frac :: u32
  pt_period :: u64
  pt_last_event :: u64
  pt_next_event :: u64
  pt_bh :: "bool option"
  pt_timer :: "u64 option"

definition ptimer_trigger :: "ptimer_state \<Rightarrow> ptimer_state" where
  "ptimer_trigger s = s\<lparr>pt_bh := map_option (\<lambda>_. True) (pt_bh s)\<rparr>"

definition ptimer_reload :: "ptimer_state \<Rightarrow> ptimer_state" where
  "ptimer_reload s =
    (let s = (if pt_delta s = 0 then (ptimer_trigger s)\<lparr>pt_delta := pt_limit s\<rparr> else s)
     in if pt_delta s = 0 \<or> pt_period s = 0 then s\<lparr>pt_enabled := 0\<rparr>
        else let s = s\<lparr>pt_last_event := pt_next_event s\<rparr>;
                 s = s\<lparr>pt_next_event := pt_last_event s + pt_delta s * pt_period s\<rparr>;
                 s = (if pt_period_frac s \<noteq> 0
                      then s\<lparr>pt_next_event := pt_next_event s
                               + drop_bit 32 (ucast (pt_period_frac s) * pt_delta s)\<rparr>
                      else s)
             in s\<lparr>pt_timer := Some (pt_next_event s)\<rparr>)"

definition ptimer_tick :: "ptimer_state \<Rightarrow> ptimer_state" where
  "ptimer_tick s =
    (let s = (ptimer_trigger s)\<lparr>pt_delta := 0\<rparr>
     in if pt_enabled s = 2 then s\<lparr>pt_enabled := 0\<rparr> else ptimer_reload s)"

definition ptimer_divisor :: "u64 \<Rightarrow> u32 \<Rightarrow> nat \<Rightarrow> u64" where
  "ptimer_divisor period frac sh =
    (let d = push_bit sh period
     in if 32 \<le> sh then d OR push_bit (sh - 32) (ucast frac)
        else let d = (if sh \<noteq> 0 then d OR ucast (drop_bit (32 - sh) frac) else d)
             in if push_bit sh frac \<noteq> 0 then d + 1 else d)"

definition ptimer_get_count :: "ptimer_state \<Rightarrow> u64 \<Rightarrow> u64 option" where
  "ptimer_get_count s now =
    (if pt_enabled s \<noteq> 0 then
       if 0 < sint (now - pt_next_event s) \<or> pt_period s = 0 then Some 0
       else let rem = pt_next_event s - now;
                clz1 = clz64 rem;
                clz2 = clz64 (pt_period s);
                sh = (if clz1 < clz2 then clz1 else clz2);
                d = ptimer_divisor (pt_period s) (pt_period_frac s) sh
            in if d = 0 then None else Some (push_bit sh rem div d)
     else Some (pt_delta s))"

definition ptimer_restart :: "ptimer_state \<Rightarrow> u64 \<Rightarrow> ptimer_state" where
  "ptimer_restart s now =
    (if pt_enabled s \<noteq> 0 then ptimer_reload (s\<lparr>pt_next_event := now\<rparr>) else s)"

definition ptimer_set_count :: "ptimer_state \<Rightarrow> u64 \<Rightarrow> u64 \<Rightarrow> ptimer_state" where
  "ptimer_set_count s now count = ptimer_restart (s\<lparr>pt_delta := count\<rparr>) now"

definition ptimer_run :: "ptimer_state \<Rightarrow> u64 \<Rightarrow> bool \<Rightarrow> ptimer_state" where
  "ptimer_run s now oneshot =
    (if pt_enabled s \<noteq> 0 then s
     else if pt_period s = 0 then s
     else ptimer_reload (s\<lparr>pt_enabled := (if oneshot then 2 else 1), pt_next_event := now\<rparr>))"

definition ptimer_stop :: "ptimer_state \<Rightarrow> u64 \<Rightarrow> ptimer_state option" where
  "ptimer_stop s now =
    (if pt_enabled s = 0 then Some s
     else do { c \<leftarrow> ptimer_get_count s now;
               Some (s\<lparr>pt_delta := c, pt_timer := None, pt_enabled := 0\<rparr>) })"

definition ptimer_set_period :: "ptimer_state \<Rightarrow> u64 \<Rightarrow> u64 \<Rightarrow> ptimer_state" where
  "ptimer_set_period s now period =
     ptimer_restart (s\<lparr>pt_period := period, pt_period_frac := 0\<rparr>) now"

definition ptimer_set_freq :: "ptimer_state \<Rightarrow> u64 \<Rightarrow> u32 \<Rightarrow> ptimer_state option" where
  "ptimer_set_freq s now freq =
    (if freq = 0 then None
     else Some (ptimer_restart
            (s\<lparr>pt_period := 1000000000 div ucast freq,
               pt_period_frac := ucast (push_bit 32 (1000000000::u64) div ucast freq)\<rparr>) now))"

definition ptimer_set_limit :: "ptimer_state \<Rightarrow> u64 \<Rightarrow> u64 \<Rightarrow> bool \<Rightarrow> ptimer_state" where
  "ptimer_set_limit s now limit reload =
    (let limit = (if limit * pt_period s < 10000 \<and> pt_period s \<noteq> 0
                  then word_of_int (10000 sdiv sint (pt_period s)) else limit);
         s = s\<lparr>pt_limit := limit\<rparr>;
         s = (if reload then s\<lparr>pt_delta := limit\<rparr> else s)
     in if reload then ptimer_restart s now else s)"

definition ptimer_init :: "bool \<Rightarrow> ptimer_state" where
  "ptimer_init has_bh =
    \<lparr>pt_enabled = 0, pt_limit = 0, pt_delta = 0, pt_period_frac = 0, pt_period = 0,
     pt_last_event = 0, pt_next_event = 0, pt_bh = (if has_bh then Some False else None),
     pt_timer = None\<rparr>"

definition ptimer_expire :: "ptimer_state \<Rightarrow> ptimer_state" where
  "ptimer_expire s = ptimer_tick (s\<lparr>pt_timer := None\<rparr>)"

datatype ptimer_op =
    SetCount u64 | Run bool | Stop | SetPeriod u64 | SetFreq u32 | SetLimit u64 bool | Expire

fun ptimer_step :: "ptimer_state \<Rightarrow> u64 \<times> ptimer_op \<Rightarrow> ptimer_state option" where
  "ptimer_step s (now, SetCount c) = Some (ptimer_set_count s now c)"
| "ptimer_step s (now, Run oneshot) = Some (ptimer_run s now oneshot)"
| "ptimer_step s (now, Stop) = ptimer_stop s now"
| "ptimer_step s (now, SetPeriod p) = Some (ptimer_set_period s now p)"
| "ptimer_step s (now, SetFreq f) = ptimer_set_freq s now f"
| "ptimer_step s (now, SetLimit l reload) = Some (ptimer_set_limit s now l reload)"
| "ptimer_step s (now, Expire) = Some (ptimer_expire s)"

fun ptimer_op_ok :: "ptimer_state \<Rightarrow> u64 \<times> ptimer_op \<Rightarrow> bool" where
  "ptimer_op_ok s (now, SetFreq f) = (f \<noteq> 0)"
| "ptimer_op_ok s (now, Expire) = (pt_timer s \<noteq> None)"
| "ptimer_op_ok s _ = True"

definition pt_frac_ok :: "ptimer_state \<Rightarrow> bool" where
  "pt_frac_ok s \<longleftrightarrow> pt_period_frac s = 0 \<or> unat (pt_period s) \<le> 1000000000"

definition pt_wf :: "ptimer_state \<Rightarrow> bool" where
  "pt_wf s \<longleftrightarrow> pt_frac_ok s \<and> pt_enabled s \<in> {0, 1, 2} \<and>
     (pt_enabled s \<noteq> 0 \<longrightarrow> pt_timer s = Some (pt_next_event s) \<and> pt_period s \<noteq> 0)"

subsection \<open>The scaled division\<close>

lemma exp_split: "k \<le> n \<Longrightarrow> (2::nat) ^ (n - k) * 2 ^ k = 2 ^ n"
  by (simp add: power_add [symmetric])

lemma exp_split': "k \<le> n \<Longrightarrow> (2::nat) ^ k * 2 ^ (n - k) = 2 ^ n"
  by (simp add: power_add [symmetric])

lemma push_bit_no_overflow:
  assumes "sh \<le> clz_ref (w::u64)"
  shows "unat (push_bit sh w) = unat w * 2 ^ sh"
proof -
  have le: "sh \<le> 64" using assms clz_ref_le [of w] by simp
  with assms clz_ref_unat [of sh w] have "unat w < 2 ^ (64 - sh)" by simp
  then have "unat w * 2 ^ sh < 2 ^ (64 - sh) * 2 ^ sh" by simp
  also note exp_split [OF le]
  finally have "unat w * 2 ^ sh < 2 ^ 64" .
  then show ?thesis
    by (simp only: unsigned_push_bit_eq) (simp add: push_bit_eq_mult take_bit_nat_eq_self_iff)
qed

lemma unat_or_disjoint:
  assumes hi: "unat (a::u64) = x * 2 ^ k" and lo: "unat b < 2 ^ k"
  shows "unat (a OR b) = unat a + unat b"
proof -
  have "unat a AND unat b = 0"
  proof (rule bit_eqI)
    fix n
    show "bit (unat a AND unat b) n = bit 0 n"
    proof (cases "n < k")
      case True
      then show ?thesis by (simp add: hi bit_and_iff flip: push_bit_eq_mult add: bit_push_bit_iff)
    next
      case False
      then have "(2::nat) ^ k \<le> 2 ^ n" by simp
      with lo have "unat b < 2 ^ n" by linarith
      then have "\<not> bit (unat b) n" by (simp add: bit_iff_odd)
      then show ?thesis by (simp add: bit_and_iff)
    qed
  qed
  then show ?thesis by (simp add: unsigned_or_eq disjunctive_add_eq_or)
qed

lemma ptimer_divisor_large:
  assumes sh: "32 \<le> sh" "sh \<le> clz_ref period"
  shows "unat (ptimer_divisor period frac sh) * 2 ^ 32 = (unat period * 2 ^ 32 + unat frac) * 2 ^ sh"
proof -
  have sh64: "sh \<le> 64" using sh clz_ref_le [of period] by simp
  have p: "unat (push_bit sh period) = unat period * 2 ^ sh" using sh push_bit_no_overflow by simp
  have f: "unat frac * 2 ^ (sh - 32) < 2 ^ sh"
  proof -
    have "unat frac * 2 ^ (sh - 32) < 2 ^ 32 * 2 ^ (sh - 32)" using unat_lt2p [of frac] by simp
    also have "\<dots> = 2 ^ sh" by (rule exp_split' [OF sh(1)])
    finally show ?thesis .
  qed
  have "(2::nat) ^ sh \<le> 2 ^ 64" using sh64 by (rule power_increasing) simp
  with f have "unat frac * 2 ^ (sh - 32) < 2 ^ 64" by linarith
  then have fu: "unat (push_bit (sh - 32) (ucast frac :: u64)) = unat frac * 2 ^ (sh - 32)"
    by (simp only: unsigned_push_bit_eq)
       (simp add: push_bit_eq_mult take_bit_nat_eq_self_iff unat_ucast_up)
  have "unat (ptimer_divisor period frac sh) = unat period * 2 ^ sh + unat frac * 2 ^ (sh - 32)"
    using sh f by (simp add: ptimer_divisor_def unat_or_disjoint [OF p] p fu)
  then have "unat (ptimer_divisor period frac sh) * 2 ^ 32
      = unat period * 2 ^ sh * 2 ^ 32 + unat frac * (2 ^ (sh - 32) * 2 ^ 32)"
    by (simp only: distrib_right mult.assoc)
  also note exp_split [OF sh(1)]
  finally show ?thesis by (simp only: distrib_left distrib_right mult.assoc mult.commute mult.left_commute)
qed

lemma round_up_ge: "0 < m \<Longrightarrow> (g::nat) \<le> (g div m + (if g mod m \<noteq> 0 then 1 else 0)) * m"
proof -
  assume "0 < m"
  then have "q * m + r \<le> (q + (if r \<noteq> 0 then 1 else 0)) * m" if "r < m" for q r
    using that by simp
  from this [of "g mod m" "g div m"] \<open>0 < m\<close> show ?thesis by (simp only: div_mult_mod_eq mod_less_divisor)
qed

lemma frac_rounding:
  assumes "sh < 32"
  shows "f * 2 ^ sh \<le> (f div 2 ^ (32 - sh) + (if (f * 2 ^ sh) mod 2 ^ 32 \<noteq> 0 then 1 else 0)) * (2::nat) ^ 32"
proof -
  have "sh \<le> 32" using assms by simp
  have "(f * 2 ^ sh) div 2 ^ 32 = f div 2 ^ (32 - sh)"
    by (simp only: exp_split [OF \<open>sh \<le> 32\<close>, symmetric]) simp
  with round_up_ge [of "2 ^ 32" "f * 2 ^ sh"] show ?thesis by simp
qed

lemma ptimer_divisor_small:
  assumes sh: "sh < 32" "sh \<le> clz_ref period"
    and small: "frac = 0 \<or> unat period \<le> 1000000000"
  shows "(unat period * 2 ^ 32 + unat frac) * 2 ^ sh \<le> unat (ptimer_divisor period frac sh) * 2 ^ 32"
    and "unat period * 2 ^ sh \<le> unat (ptimer_divisor period frac sh)"
proof -
  define hi where "hi = push_bit sh period"
  define lo where "lo = unat frac div 2 ^ (32 - sh)"
  define d :: u64 where "d = (if sh \<noteq> 0 then hi OR ucast (drop_bit (32 - sh) frac) else hi)"
  have p: "unat hi = unat period * 2 ^ sh" using sh push_bit_no_overflow by (simp add: hi_def)
  have "sh \<le> 32" using sh by simp
  have "unat frac < 2 ^ sh * 2 ^ (32 - sh)"
    using unat_lt2p [of frac] by (simp only: exp_split' [OF \<open>sh \<le> 32\<close>]) simp
  then have lo: "lo < 2 ^ sh" by (simp add: lo_def div_less_iff_less_mult)
  have u: "unat (ucast (drop_bit (32 - sh) frac) :: u64) = lo"
    by (simp only: lo_def unat_ucast_up unat_drop_bit_div) (simp add: unat_ucast_up unat_drop_bit_div)
  have d: "unat d = unat period * 2 ^ sh + lo"
    using lo by (cases "sh = 0") (simp_all add: d_def p unat_or_disjoint [OF p] u)
  have fm: "(push_bit sh frac \<noteq> 0) = ((unat frac * 2 ^ sh) mod 2 ^ 32 \<noteq> 0)"
    by (simp only: word_unat_eq_iff unsigned_push_bit_eq) (simp add: push_bit_eq_mult take_bit_eq_mod)
  have dd: "ptimer_divisor period frac sh = (if push_bit sh frac \<noteq> 0 then d + 1 else d)"
    using sh by (simp add: ptimer_divisor_def Let_def d_def hi_def)
  have top: "unat (ptimer_divisor period frac sh)
      = unat period * 2 ^ sh + (lo + (if (unat frac * 2 ^ sh) mod 2 ^ 32 \<noteq> 0 then 1 else 0))"
  proof (cases "(unat frac * 2 ^ sh) mod 2 ^ 32 = 0")
    case True
    then show ?thesis using d fm by (simp add: dd)
  next
    case False
    with small have "unat period \<le> 1000000000" by auto
    moreover have "(2::nat) ^ sh \<le> 2 ^ 31" using sh by (intro power_increasing) simp_all
    ultimately have "unat period * 2 ^ sh \<le> 1000000000 * 2 ^ 31" by (intro mult_le_mono)
    moreover have "lo < 2 ^ 31" using lo \<open>(2::nat) ^ sh \<le> 2 ^ 31\<close> by linarith
    ultimately have "unat d + 1 < 2 ^ 64" using d by simp
    then have "unat (d + 1) = unat d + 1" using unat_word_add [of d 1] by simp
    with False show ?thesis using d fm by (simp add: dd)
  qed
  from top frac_rounding [OF sh(1), of "unat frac"]
  show "(unat period * 2 ^ 32 + unat frac) * 2 ^ sh \<le> unat (ptimer_divisor period frac sh) * 2 ^ 32"
    by (simp only: lo_def top) (simp add: algebra_simps)
  show "unat period * 2 ^ sh \<le> unat (ptimer_divisor period frac sh)" by (simp add: top)
qed

lemma ptimer_divisor_bound:
  assumes "sh \<le> clz_ref period" "frac = 0 \<or> unat period \<le> 1000000000" "period \<noteq> 0"
  shows "(unat period * 2 ^ 32 + unat frac) * 2 ^ sh \<le> unat (ptimer_divisor period frac sh) * 2 ^ 32"
    and "ptimer_divisor period frac sh \<noteq> 0"
proof -
  show le: "(unat period * 2 ^ 32 + unat frac) * 2 ^ sh \<le> unat (ptimer_divisor period frac sh) * 2 ^ 32"
    using assms ptimer_divisor_small(1) [of sh period frac] ptimer_divisor_large [of sh period frac]
    by (cases "sh < 32") auto
  have "0 < unat period" using assms by (simp add: unat_gt_0)
  then have "0 < (unat period * 2 ^ 32 + unat frac) * 2 ^ sh" by simp
  with le show "ptimer_divisor period frac sh \<noteq> 0" by (auto simp del: mult_pos_pos)
qed

lemma scaled_quotient:
  assumes "(t::nat) * 2 ^ sh \<le> d * 2 ^ 32"
  shows "(r * 2 ^ sh div d) * t \<le> r * 2 ^ 32"
proof -
  have "(r * 2 ^ sh div d) * t * 2 ^ sh \<le> (r * 2 ^ sh div d) * d * 2 ^ 32"
    using mult_le_mono2 [OF assms, of "r * 2 ^ sh div d"] by (simp add: algebra_simps)
  also have "\<dots> \<le> r * 2 ^ sh * 2 ^ 32" by simp
  finally have "(r * 2 ^ sh div d) * t * 2 ^ sh \<le> r * 2 ^ 32 * 2 ^ sh" by (simp add: algebra_simps)
  then show ?thesis by simp
qed

lemma ptimer_get_count_quotient:
  assumes "pt_frac_ok s" "pt_enabled s \<noteq> 0" "\<not> 0 < sint (now - pt_next_event s)" "pt_period s \<noteq> 0"
  shows "\<exists>c. ptimer_get_count s now = Some c \<and>
    unat c * (unat (pt_period s) * 2 ^ 32 + unat (pt_period_frac s)) \<le> unat (pt_next_event s - now) * 2 ^ 32"
proof -
  define rem where "rem = pt_next_event s - now"
  define sh where "sh = min (clz64 rem) (clz64 (pt_period s))"
  define d where "d = ptimer_divisor (pt_period s) (pt_period_frac s) sh"
  have min_less: "(if a < b then a else b) = min a b" for a b :: nat by simp
  have sh: "sh \<le> clz_ref rem" "sh \<le> clz_ref (pt_period s)" by (simp_all add: sh_def clz64_ref)
  note b = ptimer_divisor_bound [OF sh(2) _ assms(4), of "pt_period_frac s", folded d_def]
  have ok: "pt_period_frac s = 0 \<or> unat (pt_period s) \<le> 1000000000" using assms(1) by (simp add: pt_frac_ok_def)
  have "ptimer_get_count s now = Some (push_bit sh rem div d)"
    using assms b(2) [OF ok]
    by (simp only: ptimer_get_count_def Let_def d_def sh_def rem_def min_less) simp
  moreover have "unat (push_bit sh rem div d) = unat rem * 2 ^ sh div unat d"
    by (simp add: unat_div push_bit_no_overflow [OF sh(1)])
  ultimately show ?thesis using scaled_quotient [OF b(1) [OF ok], of "unat rem"] by (simp add: rem_def)
qed

subsection \<open>The operations keep the timer well-formed\<close>

definition pt_shape :: "ptimer_state \<Rightarrow> bool" where
  "pt_shape s \<longleftrightarrow> pt_frac_ok s \<and> pt_enabled s \<in> {0, 1, 2}"

lemma ptimer_trigger_fields [simp]:
  "pt_enabled (ptimer_trigger s) = pt_enabled s" "pt_limit (ptimer_trigger s) = pt_limit s"
  "pt_delta (ptimer_trigger s) = pt_delta s" "pt_period_frac (ptimer_trigger s) = pt_period_frac s"
  "pt_period (ptimer_trigger s) = pt_period s" "pt_last_event (ptimer_trigger s) = pt_last_event s"
  "pt_next_event (ptimer_trigger s) = pt_next_event s" "pt_timer (ptimer_trigger s) = pt_timer s"
  "pt_bh (ptimer_trigger s) = map_option (\<lambda>_. True) (pt_bh s)"
  by (simp_all add: ptimer_trigger_def)

lemma ptimer_reload_wf: "pt_shape s \<Longrightarrow> pt_wf (ptimer_reload s)"
  by (auto simp: ptimer_reload_def Let_def pt_shape_def pt_wf_def pt_frac_ok_def)

lemma ptimer_restart_wf:
  "pt_wf s \<or> pt_enabled s \<noteq> 0 \<Longrightarrow> pt_shape s \<Longrightarrow> pt_wf (ptimer_restart s now)"
  using ptimer_reload_wf [of "s\<lparr>pt_next_event := now\<rparr>"]
  by (auto simp: ptimer_restart_def pt_shape_def pt_frac_ok_def)

lemma pt_wf_shape: "pt_wf s \<Longrightarrow> pt_shape s"
  by (simp add: pt_wf_def pt_shape_def)

lemma ptimer_set_count_wf: "pt_wf s \<Longrightarrow> pt_wf (ptimer_set_count s now c)"
  unfolding ptimer_set_count_def
  by (rule ptimer_restart_wf) (auto simp: pt_wf_def pt_shape_def pt_frac_ok_def)

lemma ptimer_run_wf: "pt_wf s \<Longrightarrow> pt_wf (ptimer_run s now oneshot)"
proof -
  assume wf: "pt_wf s"
  then have "pt_shape (s\<lparr>pt_enabled := (if oneshot then 2 else 1), pt_next_event := now\<rparr>)"
    by (simp add: pt_wf_def pt_shape_def pt_frac_ok_def)
  from ptimer_reload_wf [OF this] wf show ?thesis by (simp add: ptimer_run_def)
qed

lemma ptimer_set_period_wf: "pt_wf s \<Longrightarrow> pt_wf (ptimer_set_period s now p)"
  unfolding ptimer_set_period_def
  by (rule ptimer_restart_wf) (auto simp: pt_wf_def pt_shape_def pt_frac_ok_def)

lemma ptimer_set_limit_wf: "pt_wf s \<Longrightarrow> pt_wf (ptimer_set_limit s now l reload)"
proof -
  assume wf: "pt_wf s"
  then have "pt_wf (s\<lparr>pt_limit := a, pt_delta := b\<rparr>)" "pt_wf (s\<lparr>pt_limit := a\<rparr>)" for a b
    by (simp_all add: pt_wf_def pt_frac_ok_def)
  then show ?thesis by (simp add: ptimer_set_limit_def Let_def ptimer_restart_wf pt_wf_shape)
qed

lemma ptimer_expire_wf: "pt_wf s \<Longrightarrow> pt_wf (ptimer_expire s)"
proof -
  assume wf: "pt_wf s"
  let ?t = "(ptimer_trigger (s\<lparr>pt_timer := None\<rparr>))\<lparr>pt_delta := 0\<rparr>"
  from wf have "pt_shape ?t" by (simp add: pt_wf_def pt_shape_def pt_frac_ok_def)
  then have "pt_wf (ptimer_reload ?t)" "pt_wf (?t\<lparr>pt_enabled := 0\<rparr>)"
    by (simp_all add: ptimer_reload_wf) (simp add: pt_shape_def pt_wf_def pt_frac_ok_def)
  then show ?thesis by (simp add: ptimer_expire_def ptimer_tick_def Let_def)
qed

lemma unat_ucast_freq: "unat (ucast (freq::u32) :: u64) = unat freq"
  by (simp add: unat_ucast_up)

lemma freq_period: "unat ((1000000000::u64) div ucast (freq::u32)) = 1000000000 div unat freq"
  by (simp add: unat_div unat_ucast_freq)

lemma freq_period_frac:
  "unat (ucast (push_bit 32 (1000000000::u64) div ucast (freq::u32)) :: u32)
     = (1000000000 * 2 ^ 32 div unat freq) mod 2 ^ 32"
  by (simp only: unat_ucast_down [where 'a = 64 and 'b = 32] unat_div unat_ucast_freq) simp

lemma ptimer_set_freq_wf: "pt_wf s \<Longrightarrow> freq \<noteq> 0 \<Longrightarrow> \<exists>t. ptimer_set_freq s now freq = Some t \<and> pt_wf t"
proof -
  assume wf: "pt_wf s" and "freq \<noteq> 0"
  have "1000000000 div unat freq \<le> 1000000000" by simp
  then have "pt_shape (s\<lparr>pt_period := 1000000000 div ucast freq, pt_period_frac := f\<rparr>)" for f
    using wf by (simp add: freq_period pt_wf_def pt_shape_def pt_frac_ok_def)
  moreover have "pt_wf (s\<lparr>pt_period := p, pt_period_frac := f\<rparr>) \<or> pt_enabled s \<noteq> 0"
    if "pt_shape (s\<lparr>pt_period := p, pt_period_frac := f\<rparr>)" for p f
    using that wf by (simp add: pt_wf_def pt_shape_def)
  ultimately show ?thesis using \<open>freq \<noteq> 0\<close> by (simp add: ptimer_set_freq_def ptimer_restart_wf)
qed

lemma ptimer_get_count_total: "pt_wf s \<Longrightarrow> \<exists>c. ptimer_get_count s now = Some c"
proof -
  assume "pt_wf s"
  then have "pt_frac_ok s" by (simp add: pt_wf_def)
  then show ?thesis
    using ptimer_get_count_quotient [of s now]
    by (cases "pt_enabled s \<noteq> 0 \<and> \<not> 0 < sint (now - pt_next_event s) \<and> pt_period s \<noteq> 0")
       (auto simp: ptimer_get_count_def)
qed

lemma ptimer_stop_wf: "pt_wf s \<Longrightarrow> \<exists>t. ptimer_stop s now = Some t \<and> pt_wf t"
  using ptimer_get_count_total [of s now]
  by (auto simp: ptimer_stop_def pt_wf_def pt_frac_ok_def)

interpretation pt: guarded_machine ptimer_step ptimer_op_ok pt_wf
proof
  fix s e
  assume wf: "pt_wf s" and ok: "ptimer_op_ok s e"
  obtain now op where e: "e = (now, op)" by (cases e)
  show "\<exists>t. ptimer_step s e = Some t \<and> pt_wf t"
    using wf ok
    by (cases op) (auto simp: e ptimer_set_count_wf ptimer_run_wf ptimer_stop_wf
      ptimer_set_period_wf ptimer_set_freq_wf ptimer_set_limit_wf ptimer_expire_wf)
qed

lemma ptimer_init_wf: "pt_wf (ptimer_init b)"
  by (simp add: ptimer_init_def pt_wf_def pt_frac_ok_def)

subsection \<open>Periodic operation\<close>

definition ptimer_interval :: "ptimer_state \<Rightarrow> u64" where
  "ptimer_interval s = pt_limit s * pt_period s + drop_bit 32 (ucast (pt_period_frac s) * pt_limit s)"

lemma ptimer_expire_periodic:
  assumes "pt_enabled s = 1" "pt_limit s \<noteq> 0" "pt_period s \<noteq> 0"
  shows "ptimer_expire s = s\<lparr>pt_bh := map_option (\<lambda>_. True) (pt_bh s), pt_delta := pt_limit s,
     pt_last_event := pt_next_event s, pt_next_event := pt_next_event s + ptimer_interval s,
     pt_timer := Some (pt_next_event s + ptimer_interval s)\<rparr>"
  using assms
  by (cases "pt_bh s")
     (simp_all add: ptimer_expire_def ptimer_tick_def ptimer_reload_def ptimer_trigger_def Let_def
       ptimer_interval_def add.assoc)

definition ptimer_10hz :: "u64 \<Rightarrow> ptimer_state option" where
  "ptimer_10hz now =
    do { t \<leftarrow> ptimer_set_freq (ptimer_init True) now 10;
         Some (ptimer_run (ptimer_set_limit t now 1 True) now False) }"

definition ptimer_10hz_running :: "ptimer_state \<Rightarrow> bool" where
  "ptimer_10hz_running s \<longleftrightarrow> pt_enabled s = 1 \<and> pt_limit s = 1 \<and> pt_period s = 100000000 \<and>
     pt_period_frac s = 0 \<and> pt_bh s \<noteq> None \<and> pt_timer s = Some (pt_next_event s)"

lemma ptimer_10hz_started:
  "\<exists>s. ptimer_10hz now = Some s \<and> ptimer_10hz_running s \<and> pt_next_event s = now + 100000000 \<and>
     pt_bh s = Some False"
  by (auto simp: ptimer_10hz_def ptimer_set_freq_def ptimer_restart_def ptimer_init_def
      ptimer_set_limit_def ptimer_run_def ptimer_reload_def ptimer_10hz_running_def)

lemma ptimer_10hz_expire:
  assumes "ptimer_10hz_running s"
  shows "ptimer_10hz_running (ptimer_expire s)" "pt_bh (ptimer_expire s) = Some True"
    "pt_next_event (ptimer_expire s) = pt_next_event s + 100000000"
  using assms
  by (auto simp: ptimer_10hz_running_def ptimer_expire_periodic ptimer_interval_def)

lemma ptimer_10hz_bh: "ptimer_10hz_running s \<Longrightarrow> ptimer_10hz_running (s\<lparr>pt_bh := Some b\<rparr>)"
  by (simp add: ptimer_10hz_running_def)

lemma ptimer_expire_stale:
  assumes "pt_enabled s = 0" "pt_limit s \<noteq> 0" "pt_period s \<noteq> 0"
  shows "pt_enabled (ptimer_expire s) = 0" "pt_limit (ptimer_expire s) = pt_limit s"
    "pt_period (ptimer_expire s) = pt_period s" "pt_timer (ptimer_expire s) \<noteq> None"
    "pt_bh s \<noteq> None \<Longrightarrow> pt_bh (ptimer_expire s) = Some True"
  using assms
  by (auto simp: ptimer_expire_def ptimer_tick_def ptimer_reload_def ptimer_trigger_def Let_def)

lemma ptimer_stale_run:
  assumes "pt_enabled s = 0" "pt_limit s \<noteq> 0" "pt_period s \<noteq> 0" "pt_timer s \<noteq> None"
  shows "\<exists>t. exec_list ptimer_step s (map (\<lambda>now. (now, Expire)) ts) = Some t \<and> pt_enabled t = 0 \<and>
    pt_timer t \<noteq> None \<and> (ts \<noteq> [] \<and> pt_bh s \<noteq> None \<longrightarrow> pt_bh t = Some True)"
  using assms
proof (induction ts arbitrary: s)
  case (Cons now ts)
  note e = ptimer_expire_stale [OF Cons.prems(1,2,3)]
  from Cons.IH [of "ptimer_expire s"] Cons.prems(2,3) e obtain t where
    t: "exec_list ptimer_step (ptimer_expire s) (map (\<lambda>now. (now, Expire)) ts) = Some t" "pt_enabled t = 0"
      "pt_timer t \<noteq> None" "ts \<noteq> [] \<and> pt_bh (ptimer_expire s) \<noteq> None \<longrightarrow> pt_bh t = Some True" by metis
  with e(5) have "pt_bh s \<noteq> None \<longrightarrow> pt_bh t = Some True" by (cases "ts = []") auto
  with t show ?case by simp
qed simp

lemma ptimer_zero_period:
  assumes "pt_enabled s \<noteq> 0" "p \<noteq> 0"
  shows "exec_list ptimer_step s [(t0, SetPeriod 0), (t1, SetPeriod p)] =
      Some (ptimer_set_period (ptimer_set_period s t0 0) t1 p)"
    "pt_enabled (ptimer_set_period (ptimer_set_period s t0 0) t1 p) = 0"
    "pt_limit (ptimer_set_period (ptimer_set_period s t0 0) t1 p) = pt_limit s"
    "pt_period (ptimer_set_period (ptimer_set_period s t0 0) t1 p) = p"
    "pt_timer (ptimer_set_period (ptimer_set_period s t0 0) t1 p) = pt_timer s"
    "(pt_bh (ptimer_set_period (ptimer_set_period s t0 0) t1 p) = None) = (pt_bh s = None)"
  using assms
  by (simp_all add: ptimer_set_period_def ptimer_restart_def ptimer_reload_def ptimer_trigger_def Let_def)

subsection \<open>Properties\<close>

text \<open>C23: every sequence of calls of the ptimer interface and of expiries of an armed host timer,
  starting from \<open>ptimer_init\<close> and setting only non-zero frequencies, is free of division by zero
  (also in the count that \<open>ptimer_stop\<close> and any later \<open>ptimer_get_count\<close> compute) and keeps an
  enabled timer armed for its \<open>next_event\<close> with a non-zero period.\<close>
theorem ptimer_calls_defined:
  assumes "guarded ptimer_step ptimer_op_ok (ptimer_init has_bh) ops"
  shows "\<exists>s. exec_list ptimer_step (ptimer_init has_bh) ops = Some s \<and>
    (\<exists>c. ptimer_get_count s now = Some c) \<and>
    (pt_enabled s \<noteq> 0 \<longrightarrow> pt_timer s = Some (pt_next_event s) \<and> pt_period s \<noteq> 0)"
proof -
  from pt.run_ok [OF ptimer_init_wf assms] obtain s
    where "exec_list ptimer_step (ptimer_init has_bh) ops = Some s" "pt_wf s" by blast
  with ptimer_get_count_total [of s now] show ?thesis by (auto simp: pt_wf_def)
qed

theorem ptimer_calls_defined_witness:
  "\<exists>s. exec_list ptimer_step (ptimer_init True)
      [(5, SetFreq 10), (5, SetLimit 1 True), (5, Run False), (100000005, Expire)] = Some s \<and>
    (\<exists>c. ptimer_get_count s 100000007 = Some c) \<and>
    (pt_enabled s \<noteq> 0 \<longrightarrow> pt_timer s = Some (pt_next_event s) \<and> pt_period s \<noteq> 0)"
  by (rule ptimer_calls_defined) code_simp

text \<open>C13: the count an enabled timer reports before it expires never exceeds the exact quotient
  of the remaining time by the 64.32 fixed-point period, as the comment in \<open>ptimer_get_count\<close>
  asks ("the result should be rounded down"), in every state that the interface can reach.\<close>
theorem ptimer_count_rounds_down:
  assumes "guarded ptimer_step ptimer_op_ok (ptimer_init has_bh) ops"
    and "exec_list ptimer_step (ptimer_init has_bh) ops = Some s"
    and "pt_enabled s \<noteq> 0" and "\<not> 0 < sint (now - pt_next_event s)"
  shows "\<exists>c. ptimer_get_count s now = Some c \<and>
    unat c * (unat (pt_period s) * 2 ^ 32 + unat (pt_period_frac s)) \<le> unat (pt_next_event s - now) * 2 ^ 32"
proof -
  have "pt_wf s" using pt.run_keeps [OF ptimer_init_wf assms(1,2)] .
  with assms(3) have "pt_frac_ok s" "pt_period s \<noteq> 0" by (simp_all add: pt_wf_def)
  with assms(3,4) show ?thesis by (intro ptimer_get_count_quotient)
qed

definition ptimer_demo :: ptimer_state where
  "ptimer_demo = \<lparr>pt_enabled = 1, pt_limit = 1000, pt_delta = 1000, pt_period_frac = 1431655765,
     pt_period = 333, pt_last_event = 5, pt_next_event = 333338, pt_bh = Some False,
     pt_timer = Some 333338\<rparr>"

theorem ptimer_count_rounds_down_witness:
  "\<exists>c. ptimer_get_count ptimer_demo 105 = Some c \<and>
    unat c * (unat (pt_period ptimer_demo) * 2 ^ 32 + unat (pt_period_frac ptimer_demo))
      \<le> unat (pt_next_event ptimer_demo - 105) * 2 ^ 32"
  by (rule ptimer_count_rounds_down
      [where has_bh = True and ops = "[(0, SetFreq 3000000), (3, SetLimit 1000 True), (5, Run False)]"])
    code_simp+

text \<open>for a non-zero frequency, \<open>ptimer_set_freq\<close> stores exactly the period
  \<open>10\<^sup>9 / freq\<close> nanoseconds in 64.32 fixed point, rounded down.\<close>
theorem ptimer_set_freq_fixed_point:
  assumes "freq \<noteq> 0" and "ptimer_set_freq s now freq = Some t" and "pt_enabled s = 0"
  shows "unat (pt_period t) * 2 ^ 32 + unat (pt_period_frac t) = 1000000000 * 2 ^ 32 div unat freq"
proof -
  have "1000000000 * 2 ^ 32 div unat freq div 2 ^ 32 = 1000000000 div unat freq"
    by (simp only: div_mult2_eq [symmetric] mult.commute [of "unat freq"]) simp
  then have "1000000000 div unat freq * 2 ^ 32 + (1000000000 * 2 ^ 32 div unat freq) mod 2 ^ 32
      = 1000000000 * 2 ^ 32 div unat freq"
    by (metis div_mult_mod_eq)
  moreover have "pt_period t = 1000000000 div ucast freq"
      "pt_period_frac t = ucast (push_bit 32 (1000000000::u64) div ucast freq)"
    using assms by (auto simp: ptimer_set_freq_def ptimer_restart_def)
  ultimately show ?thesis by (simp only: freq_period freq_period_frac)
qed

theorem ptimer_set_freq_fixed_point_witness:
  "unat (333::u64) * 2 ^ 32 + unat (1431655765::u32) = 1000000000 * 2 ^ 32 div unat (3000000::u32)"
  using ptimer_set_freq_fixed_point
    [of 3000000 "ptimer_init True" 0 "(ptimer_init True)\<lparr>pt_period := 333, pt_period_frac := 1431655765\<rparr>"]
  by (simp add: ptimer_set_freq_def ptimer_restart_def ptimer_init_def)

text \<open>the reported count can go backwards. With a 3 MHz timer the rounding of the divisor
  depends on the shift, so that one nanosecond later the timer, which counts down, reports a
  count larger by two.\<close>
theorem ptimer_count_can_increase:
  "\<exists>s now. exec_list ptimer_step (ptimer_init True)
      [(0, SetFreq 3000000), (0, SetCount 7000000000), (0, Run False)] = Some s \<and>
    pt_enabled s = 1 \<and> sint (now + 1 - pt_next_event s) < 0 \<and>
    ptimer_get_count s now = Some 6597069763 \<and> ptimer_get_count s (now + 1) = Some 6597069765"
  by (intro exI [where x = "the (exec_list ptimer_step (ptimer_init True)
        [(0, SetFreq 3000000), (0, SetCount 7000000000), (0, Run False)])"] exI [where x = "134310077780"])
     code_simp

text \<open>C37: a running timer that \<open>ptimer_reload\<close> disables because its period is set to zero stays
  armed. Take any enabled timer with a non-zero limit (as the invariant of the interface has it,
  its host timer is armed), set its period to zero and then to any non-zero value, at any times:
  whatever number of expiries follows, the timer counts as disabled, its host timer is armed again
  after each of them, each schedules the bottom half if there is one, and \<open>ptimer_stop\<close>, which
  returns early for a disabled timer, leaves the host timer armed. (With limit zero the next reload
  does not rearm the timer.)\<close>
theorem ptimer_disabled_keeps_firing:
  assumes "pt_wf s" "pt_enabled s \<noteq> 0" "pt_limit s \<noteq> 0" "p \<noteq> 0"
  shows "\<exists>t. exec_list ptimer_step s ([(t0, SetPeriod 0), (t1, SetPeriod p)] @
      map (\<lambda>now. (now, Expire)) ts @ [(t2, Stop)]) = Some t \<and>
    pt_enabled t = 0 \<and> pt_timer t \<noteq> None \<and>
    (ts \<noteq> [] \<and> pt_bh s \<noteq> None \<longrightarrow> pt_bh t = Some True)"
proof -
  let ?u = "ptimer_set_period (ptimer_set_period s t0 0) t1 p"
  from assms(1,2) have "pt_timer s \<noteq> None" by (simp add: pt_wf_def)
  then obtain t where "exec_list ptimer_step ?u (map (\<lambda>now. (now, Expire)) ts) = Some t" "pt_enabled t = 0"
      "pt_timer t \<noteq> None" "ts \<noteq> [] \<and> pt_bh s \<noteq> None \<longrightarrow> pt_bh t = Some True"
    using ptimer_stale_run [of ?u ts] assms(3,4) ptimer_zero_period [OF assms(2,4)] by auto
  then show ?thesis
    unfolding exec_list_append ptimer_zero_period(1) [OF assms(2,4)]
    by (simp add: exec_list_append ptimer_stop_def)
qed

theorem ptimer_disabled_keeps_firing_witness:
  "\<exists>s t. exec_list ptimer_step (ptimer_init True)
      [(0, SetPeriod 1000), (0, SetLimit 500 True), (0, Run False)] = Some s \<and>
    exec_list ptimer_step s ([(7, SetPeriod 0), (8, SetPeriod 1000)] @
      map (\<lambda>now. (now, Expire)) [500000, 1000000] @ [(1000001, Stop)]) = Some t \<and>
    pt_enabled t = 0 \<and> pt_timer t \<noteq> None \<and> pt_bh t = Some True"
proof -
  let ?s = "\<lparr>pt_enabled = 1, pt_limit = 500, pt_delta = 500, pt_period_frac = 0, pt_period = 1000,
     pt_last_event = 0, pt_next_event = 500000, pt_bh = Some False, pt_timer = Some 500000\<rparr> :: ptimer_state"
  have "exec_list ptimer_step (ptimer_init True)
      [(0, SetPeriod 1000), (0, SetLimit 500 True), (0, Run False)] = Some ?s"
    by code_simp
  moreover have "pt_wf ?s" by (simp add: pt_wf_def pt_frac_ok_def)
  ultimately show ?thesis
    using ptimer_disabled_keeps_firing [of ?s 1000 7 8 "[500000, 1000000]" 1000001] by auto
qed

end
