(* ===== verification/AtmelRtt.thy ===== *)
theory AtmelRtt
  imports Ptimer
begin

text \<open>
  The real-time timer of the SAM3 board, \<^verbatim>\<open>hw/timer/atmel_rtt.c\<close>.

  The device record has the four registers, the ptimer that drives it and the level of its
  interrupt line. Besides the guest accesses, its environment consists of the expiry of the
  host timer (\<open>TimerFires\<close>: the ptimer callback), the main loop running a scheduled bottom half
  (\<open>BhRuns\<close>: \<open>rtt_tick\<close>, \<^verbatim>\<open>async.c\<close>, \<open>aio_bh_poll\<close>) and the device reset.

  The lemmas show that the device cannot get stuck, that its clock runs at 10 Hz, that the
  alarm goes off after exactly the programmed number of ticks, and two places where the
  registers do not behave as their names say.
\<close>

record rtt_state =
  rtt_mr :: u32
  rtt_ar :: u32
  rtt_vr :: u32
  rtt_sr :: u32
  rtt_timer :: ptimer_state
  rtt_irq :: bool

abbreviation MR_RTTRST :: u32 where "MR_RTTRST \<equiv> 0x40000"
abbreviation SR_ALMS :: u32 where "SR_ALMS \<equiv> 0x01"
abbreviation SR_RTTINC :: u32 where "SR_RTTINC \<equiv> 0x02"

definition rtt_id :: "u8 list" where
  "rtt_id = [0x22, 0x10, 0x04, 0x00, 0x0d, 0xf0, 0x05, 0xb1]"

definition rtt_update :: "rtt_state \<Rightarrow> rtt_state" where
  "rtt_update s =
    (let s = s\<lparr>rtt_vr := (if rtt_mr s AND MR_RTTRST \<noteq> 0 then 0 else rtt_vr s)\<rparr>;
         s = s\<lparr>rtt_sr := (if rtt_vr s = rtt_ar s then rtt_sr s OR SR_ALMS else rtt_sr s)\<rparr>
     in s\<lparr>rtt_irq := (rtt_sr s AND SR_ALMS \<noteq> 0 \<or> rtt_sr s AND SR_RTTINC \<noteq> 0)\<rparr>)"

definition rtt_tick :: "rtt_state \<Rightarrow> rtt_state" where
  "rtt_tick s = rtt_update (s\<lparr>rtt_vr := rtt_vr s + 1, rtt_sr := rtt_sr s OR SR_RTTINC\<rparr>)"

definition rtt_read :: "rtt_state \<Rightarrow> hwaddr \<Rightarrow> (u64 \<times> rtt_state) option" where
  "rtt_read s offset =
    (if 0xfe0 \<le> offset \<and> offset < 0x1000 then
       do { b \<leftarrow> arr_get rtt_id (uint (drop_bit 2 (offset - 0xfe0))); Some (ucast b, s) }
     else if offset = 0x00 then Some (ucast (rtt_mr s), s)
     else if offset = 0x04 then Some (ucast (rtt_ar s), s)
     else if offset = 0x08 then Some (ucast (rtt_vr s), s)
     else if offset = 0x0c then Some (scast (rtt_sr s), s\<lparr>rtt_sr := 0\<rparr>)
     else Some (0, s))"

definition rtt_write :: "rtt_state \<Rightarrow> hwaddr \<Rightarrow> u64 \<Rightarrow> rtt_state" where
  "rtt_write s offset value =
    (if offset = 0x00 then rtt_update (s\<lparr>rtt_mr := ucast value\<rparr>)
     else if offset = 0x04 then rtt_update (s\<lparr>rtt_ar := ucast value\<rparr>)
     else s)"

definition rtt_reset :: "rtt_state \<Rightarrow> rtt_state" where
  "rtt_reset s = s\<lparr>rtt_mr := 0x8000, rtt_ar := 0xffffffff, rtt_vr := 0, rtt_sr := 0\<rparr>"

definition rtt_init :: "u64 \<Rightarrow> rtt_state option" where
  "rtt_init now =
    do { t \<leftarrow> ptimer_set_freq (ptimer_init True) now 10;
         let t = ptimer_set_limit t now 1 True;
         Some \<lparr>rtt_mr = 0, rtt_ar = 0, rtt_vr = 0, rtt_sr = 0,
               rtt_timer = ptimer_run t now False, rtt_irq = False\<rparr> }"

datatype rtt_event = RttGuest mmio | RttTimerFires | RttBhRuns | RttReset

fun rtt_step :: "rtt_state \<Rightarrow> rtt_event \<Rightarrow> rtt_state option" where
  "rtt_step s (RttGuest e) = mmio_step rtt_read (\<lambda>s a v. Some (rtt_write s a v)) s e"
| "rtt_step s RttTimerFires = Some (s\<lparr>rtt_timer := ptimer_expire (rtt_timer s)\<rparr>)"
| "rtt_step s RttBhRuns =
     (if pt_bh (rtt_timer s) = Some True
      then Some (rtt_tick (s\<lparr>rtt_timer := (rtt_timer s)\<lparr>pt_bh := Some False\<rparr>\<rparr>))
      else Some s)"
| "rtt_step s RttReset = Some (rtt_reset s)"

definition rtt_sr_ok :: "u32 \<Rightarrow> bool" where
  "rtt_sr_ok x \<longleftrightarrow> x AND NOT (SR_ALMS OR SR_RTTINC) = 0"

definition rtt_inv :: "rtt_state \<Rightarrow> bool" where
  "rtt_inv s \<longleftrightarrow> ptimer_10hz_running (rtt_timer s) \<and> rtt_sr_ok (rtt_sr s)"

subsection \<open>Invariant\<close>

lemma rtt_update_fields [simp]:
  "rtt_mr (rtt_update s) = rtt_mr s" "rtt_ar (rtt_update s) = rtt_ar s"
  "rtt_timer (rtt_update s) = rtt_timer s"
  by (simp_all add: rtt_update_def Let_def)

lemma sr_bits_or [simp]: "rtt_sr_ok x \<Longrightarrow> rtt_sr_ok (x OR SR_ALMS)"
  "rtt_sr_ok x \<Longrightarrow> rtt_sr_ok (x OR SR_RTTINC)" "rtt_sr_ok 0"
  by (simp_all add: rtt_sr_ok_def word_distribs)

lemma rtt_update_sr [simp]: "rtt_sr_ok (rtt_sr s) \<Longrightarrow> rtt_sr_ok (rtt_sr (rtt_update s))"
  by (simp add: rtt_update_def Let_def)

lemma rtt_update_inv: "rtt_inv s \<Longrightarrow> rtt_inv (rtt_update s)"
  by (simp add: rtt_inv_def)

lemma rtt_read_ok: "rtt_inv s \<Longrightarrow> \<exists>v t. rtt_read s a = Some (v, t) \<and> rtt_inv t"
  using id_get [of a rtt_id] by (auto simp: rtt_id_def rtt_read_def rtt_inv_def)

lemma rtt_write_ok: "rtt_inv s \<Longrightarrow> rtt_inv (rtt_write s a v)"
  by (simp add: rtt_write_def rtt_inv_def)

interpretation rtt: mmio_device rtt_read "\<lambda>s a v. Some (rtt_write s a v)" rtt_inv
  by unfold_locales (simp_all add: rtt_read_ok rtt_write_ok)

lemma rtt_tick_inv: "rtt_inv s \<Longrightarrow> rtt_inv (rtt_tick s)"
  by (simp add: rtt_tick_def rtt_inv_def)

lemma rtt_step_inv: "rtt_inv s \<Longrightarrow> \<exists>t. rtt_step s e = Some t \<and> rtt_inv t"
proof (cases e)
  case (RttGuest m)
  assume "rtt_inv s"
  from rtt.access_ok [OF this, of m] RttGuest show ?thesis by simp
qed (auto simp: rtt_inv_def ptimer_10hz_expire ptimer_10hz_bh rtt_reset_def
     intro!: rtt_tick_inv [unfolded rtt_inv_def])

interpretation rttm: guarded_machine rtt_step "\<lambda>_ _. True" rtt_inv
  by unfold_locales (rule rtt_step_inv)

lemma rtt_init_ok: "\<exists>s. rtt_init now = Some s \<and> rtt_inv s \<and>
    pt_next_event (rtt_timer s) = now + 100000000"
  using ptimer_10hz_started [of now]
  by (auto simp: rtt_init_def ptimer_10hz_def rtt_inv_def split: bind_splits)

subsection \<open>The alarm\<close>

lemma rtt_round_effect:
  assumes "rtt_inv s" "rtt_mr s AND MR_RTTRST = 0"
  shows "\<exists>t. exec_list rtt_step s [RttTimerFires, RttBhRuns] = Some t \<and> rtt_inv t \<and>
    rtt_mr t = rtt_mr s \<and> rtt_ar t = rtt_ar s \<and> rtt_vr t = rtt_vr s + 1 \<and>
    pt_next_event (rtt_timer t) = pt_next_event (rtt_timer s) + 100000000 \<and>
    bit (rtt_sr t) 1 \<and> rtt_irq t \<and> (bit (rtt_sr t) 0 \<longleftrightarrow> bit (rtt_sr s) 0 \<or> rtt_vr t = rtt_ar t)"
proof -
  let ?u = "s\<lparr>rtt_timer := (ptimer_expire (rtt_timer s))\<lparr>pt_bh := Some False\<rparr>\<rparr>"
  from assms(1) have t: "ptimer_10hz_running (rtt_timer s)" by (simp add: rtt_inv_def)
  note x = ptimer_10hz_expire [OF t]
  from x(2) have e: "exec_list rtt_step s [RttTimerFires, RttBhRuns] = Some (rtt_tick ?u)" by simp
  have "rtt_inv ?u" using assms(1) x ptimer_10hz_bh [OF x(1)] by (simp add: rtt_inv_def)
  then have i: "rtt_inv (rtt_tick ?u)" by (rule rtt_tick_inv)
  have b: "(y AND SR_ALMS = 0) = (\<not> bit y 0)" "(y AND SR_RTTINC = 0) = (\<not> bit y 1)" for y :: u32
    by (rule word_and_exp_eq_0, simp)+
  have "rtt_mr (rtt_tick ?u) = rtt_mr s \<and> rtt_ar (rtt_tick ?u) = rtt_ar s \<and>
      rtt_vr (rtt_tick ?u) = rtt_vr s + 1 \<and>
      pt_next_event (rtt_timer (rtt_tick ?u)) = pt_next_event (rtt_timer s) + 100000000"
    using assms(2) x(3) by (simp add: rtt_tick_def rtt_update_def Let_def)
  moreover have "bit (rtt_sr (rtt_tick ?u)) 1 \<and> rtt_irq (rtt_tick ?u) \<and>
      (bit (rtt_sr (rtt_tick ?u)) 0 \<longleftrightarrow> bit (rtt_sr s) 0 \<or> rtt_vr (rtt_tick ?u) = rtt_ar (rtt_tick ?u))"
    using assms(2) by (simp add: rtt_tick_def rtt_update_def Let_def b bit_or_iff bit_simps)
  ultimately show ?thesis using e i by blast
qed

lemma rtt_rounds_effect:
  assumes "rtt_inv s" "rtt_mr s AND MR_RTTRST = 0"
  shows "\<exists>t. exec_list rtt_step s (concat (replicate (Suc n) [RttTimerFires, RttBhRuns])) = Some t \<and>
    rtt_vr t = rtt_vr s + word_of_nat (Suc n) \<and> rtt_ar t = rtt_ar s \<and> rtt_irq t \<and> bit (rtt_sr t) 1 \<and>
    pt_next_event (rtt_timer t) = pt_next_event (rtt_timer s) + word_of_nat (Suc n) * 100000000 \<and>
    (bit (rtt_sr t) 0 \<longleftrightarrow> bit (rtt_sr s) 0 \<or> (\<exists>k \<le> n. rtt_vr s + word_of_nat (Suc k) = rtt_ar s))"
  using assms
proof (induction n arbitrary: s)
  case 0
  from rtt_round_effect [OF this] show ?case by (auto simp del: exec_list.simps)
next
  case (Suc n)
  from rtt_round_effect [OF Suc.prems] obtain u where
    u: "exec_list rtt_step s [RttTimerFires, RttBhRuns] = Some u" "rtt_inv u" "rtt_mr u = rtt_mr s"
      "rtt_ar u = rtt_ar s" "rtt_vr u = rtt_vr s + 1"
      "pt_next_event (rtt_timer u) = pt_next_event (rtt_timer s) + 100000000"
      "bit (rtt_sr u) 0 \<longleftrightarrow> bit (rtt_sr s) 0 \<or> rtt_vr u = rtt_ar u" by blast
  have ex: "(\<exists>k \<le> Suc n. P k) \<longleftrightarrow> P 0 \<or> (\<exists>k \<le> n. P (Suc k))" for P
    by (metis Suc_le_mono bot_nat_0.extremum not0_implies_Suc)
  have run: "exec_list rtt_step s (concat (replicate (Suc (Suc n)) [RttTimerFires, RttBhRuns]))
      = exec_list rtt_step u (concat (replicate (Suc n) [RttTimerFires, RttBhRuns]))"
    using u(1) by (simp only: replicate_Suc concat.simps exec_list_append) simp
  from Suc.IH [of u] u(2,3) Suc.prems(2) show ?case
    by (simp only: run) (force simp: u(4-7) ex algebra_simps)
qed

lemma rtt_write_alarm:
  assumes "rtt_mr s AND MR_RTTRST = 0" "\<not> bit (rtt_sr s) 0" "rtt_vr s \<noteq> alarm"
  shows "rtt_ar (rtt_write s 0x04 (ucast alarm)) = alarm"
    "rtt_vr (rtt_write s 0x04 (ucast alarm)) = rtt_vr s"
    "rtt_mr (rtt_write s 0x04 (ucast alarm)) = rtt_mr s"
    "rtt_timer (rtt_write s 0x04 (ucast alarm)) = rtt_timer s"
    "\<not> bit (rtt_sr (rtt_write s 0x04 (ucast alarm))) 0"
proof -
  have "(ucast (ucast alarm :: u64) :: u32) = alarm" by (rule bit_word_eqI) (simp add: bit_simps)
  with assms show "rtt_ar (rtt_write s 0x04 (ucast alarm)) = alarm"
    "rtt_vr (rtt_write s 0x04 (ucast alarm)) = rtt_vr s"
    "rtt_mr (rtt_write s 0x04 (ucast alarm)) = rtt_mr s"
    "rtt_timer (rtt_write s 0x04 (ucast alarm)) = rtt_timer s"
    "\<not> bit (rtt_sr (rtt_write s 0x04 (ucast alarm))) 0"
    by (simp_all add: rtt_write_def rtt_update_def Let_def)
qed

lemma rtt_distance: "(v::u32) + w = a \<longleftrightarrow> w = a - v"
  by (auto simp: algebra_simps)

lemma not_yet_there: "j < unat (d::u32) \<Longrightarrow> word_of_nat j \<noteq> d"
proof
  assume "j < unat d" "word_of_nat j = d"
  then have "j < take_bit 32 j" by (auto simp: unsigned_of_nat)
  with take_bit_nat_less_eq_self [of 32 j] show False by linarith
qed

subsection \<open>Properties\<close>

text \<open>C24: from \<open>rtt_init\<close>, whatever the guest reads and writes and however timer expiries,
  bottom halves and resets interleave with that, the timer never runs into undefined behaviour
  (out-of-range ID index or division by zero) and its 10 Hz clock keeps running.\<close>
theorem rtt_never_stuck:
  "\<exists>s0 s. rtt_init now = Some s0 \<and> exec_list rtt_step s0 es = Some s \<and>
    pt_enabled (rtt_timer s) = 1 \<and> pt_period (rtt_timer s) = 100000000 \<and>
    pt_timer (rtt_timer s) = Some (pt_next_event (rtt_timer s))"
proof -
  from rtt_init_ok [of now] obtain s0 where "rtt_init now = Some s0" "rtt_inv s0" by blast
  then show ?thesis
    using rttm.run_ok [OF _ guarded_True, of s0 es] by (auto simp: rtt_inv_def ptimer_10hz_running_def)
qed

text \<open>C9: the alarm. On a running timer that is not held in reset and whose \<open>ALMS\<close> flag is clear, let
  the guest program an alarm value different from the current counter, and let \<open>n\<close> be the distance
  from the counter to that value modulo \<open>2\<^sup>3\<^sup>2\<close>. After \<open>n\<close> ticks the counter equals the alarm value,
  \<open>ALMS\<close> is set, the interrupt line is up and the host timer has advanced by exactly 100 ms per tick.
  After fewer ticks the counter has counted them but is not at the alarm value and \<open>ALMS\<close> is clear;
  the interrupt line is no sign of the alarm, since it is up from the first tick on because of the
  increment flag \<open>RTTINC\<close>.\<close>
theorem rtt_alarm_on_time:
  assumes "rtt_inv s" and "rtt_mr s AND MR_RTTRST = 0" and "\<not> bit (rtt_sr s) 0"
    and "rtt_vr s \<noteq> alarm" and "n = unat (alarm - rtt_vr s)"
  shows "(\<exists>t. exec_list rtt_step (rtt_write s 0x04 (ucast alarm))
        (concat (replicate n [RttTimerFires, RttBhRuns])) = Some t \<and>
      rtt_vr t = alarm \<and> bit (rtt_sr t) 0 \<and> rtt_irq t \<and>
      pt_next_event (rtt_timer t) = pt_next_event (rtt_timer s) + word_of_nat n * 100000000) \<and>
    (\<forall>k < n. \<exists>t. exec_list rtt_step (rtt_write s 0x04 (ucast alarm))
        (concat (replicate k [RttTimerFires, RttBhRuns])) = Some t \<and>
      rtt_vr t = rtt_vr s + word_of_nat k \<and> rtt_vr t \<noteq> alarm \<and> \<not> bit (rtt_sr t) 0 \<and>
      (0 < k \<longrightarrow> rtt_irq t))"
proof -
  let ?w = "rtt_write s 0x04 (ucast alarm)"
  note w = rtt_write_alarm [OF assms(2,3,4)]
  have i: "rtt_inv ?w" using assms(1) by (rule rtt_write_ok)
  have m: "rtt_mr ?w AND MR_RTTRST = 0" using assms(2) w by simp
  note e = rtt_rounds_effect [OF i m, unfolded w rtt_distance]
  have n: "word_of_nat n = alarm - rtt_vr s" "n \<noteq> 0" using assms(4,5) by (auto simp: unat_eq_0)
  obtain p where p: "n = Suc p" using n(2) by (cases n) auto
  have before: "rtt_vr s + word_of_nat k \<noteq> alarm" if "k < n" for k
    using that assms(5) not_yet_there [of k "alarm - rtt_vr s"] by (simp add: rtt_distance)
  have "\<exists>t. exec_list rtt_step ?w (concat (replicate k [RttTimerFires, RttBhRuns])) = Some t \<and>
      rtt_vr t = rtt_vr s + word_of_nat k \<and> rtt_vr t \<noteq> alarm \<and> \<not> bit (rtt_sr t) 0 \<and>
      (0 < k \<longrightarrow> rtt_irq t)" if k: "k < n" for k
  proof (cases k)
    case 0
    with w assms(4) show ?thesis by simp
  next
    case (Suc q)
    have "word_of_nat (Suc j) \<noteq> alarm - rtt_vr s" if "j \<le> q" for j
      using that k Suc before [of "Suc j"] unfolding rtt_distance by simp
    then show ?thesis using e [of q] w(5) before [OF k] unfolding Suc by (metis (no_types, lifting))
  qed
  moreover have "\<exists>t. exec_list rtt_step ?w (concat (replicate n [RttTimerFires, RttBhRuns])) = Some t \<and>
      rtt_vr t = alarm \<and> bit (rtt_sr t) 0 \<and> rtt_irq t \<and>
      pt_next_event (rtt_timer t) = pt_next_event (rtt_timer s) + word_of_nat n * 100000000"
  proof -
    have "rtt_vr s + word_of_nat (Suc p) = alarm" using n(1) p by (simp only: rtt_distance)
    with e [of p] n(1) show ?thesis unfolding p by (metis le_refl)
  qed
  ultimately show ?thesis by blast
qed

definition rtt_demo :: rtt_state where
  "rtt_demo = \<lparr>rtt_mr = 0x8000, rtt_ar = 0xffffffff, rtt_vr = 0, rtt_sr = 0,
     rtt_timer = the (ptimer_10hz 0), rtt_irq = False\<rparr>"

theorem rtt_alarm_on_time_witness:
  "\<exists>t. exec_list rtt_step (rtt_write rtt_demo 0x04 (ucast (2::u32)))
      (concat (replicate 2 [RttTimerFires, RttBhRuns])) = Some t \<and>
    rtt_vr t = 2 \<and> bit (rtt_sr t) 0 \<and> rtt_irq t \<and>
    pt_next_event (rtt_timer t) = pt_next_event (rtt_timer rtt_demo) + word_of_nat 2 * 100000000"
proof -
  have "rtt_inv rtt_demo" using ptimer_10hz_started [of 0] by (auto simp: rtt_inv_def rtt_demo_def)
  then show ?thesis by (rule conjunct1 [OF rtt_alarm_on_time]) (simp_all add: rtt_demo_def)
qed

text \<open>the counter reset bit does not clear itself. Once \<open>RTTRST\<close> is written to the mode
  register, the counter reads 0 after every later tick.\<close>
theorem rtt_reset_bit_sticks:
  assumes "rtt_mr s AND MR_RTTRST \<noteq> 0"
  shows "rtt_vr (rtt_tick s) = 0 \<and> rtt_mr (rtt_tick s) AND MR_RTTRST \<noteq> 0"
  using assms by (simp add: rtt_tick_def rtt_update_def Let_def)

theorem rtt_reset_bit_sticks_witness:
  "rtt_vr (rtt_tick (rtt_demo\<lparr>rtt_mr := 0x48000\<rparr>)) = 0 \<and>
   rtt_mr (rtt_tick (rtt_demo\<lparr>rtt_mr := 0x48000\<rparr>)) AND MR_RTTRST \<noteq> 0"
  by (rule rtt_reset_bit_sticks) (simp add: rtt_demo_def)

text \<open>reading the status register clears it but leaves the interrupt line as it was: after a
  tick and a read of \<open>SR\<close> the line is still up although no status bit is set.\<close>
theorem rtt_status_read_keeps_irq:
  "\<exists>v t. rtt_read (rtt_tick s) 0x0c = Some (v, t) \<and> bit v 1 \<and> rtt_sr t = 0 \<and> rtt_irq t"
proof -
  have b: "(y AND SR_RTTINC = 0) = (\<not> bit y 1)" for y :: u32 by (rule word_and_exp_eq_0) simp
  have "bit (rtt_sr (rtt_tick s)) 1" "rtt_irq (rtt_tick s)"
    by (simp_all add: rtt_tick_def rtt_update_def Let_def b bit_or_iff bit_simps)
  then show ?thesis by (simp add: rtt_read_def bit_simps)
qed

end
