(* ===== verification/AtmelPmc.thy ===== *)
theory AtmelPmc
  imports Ptimer
begin

text \<open>
  The power management controller of the SAM3 board, \<^verbatim>\<open>hw/pmc/pmc_atmel.c\<close>.

  One record field per register; the arrays \<open>pcer[2]\<close>, \<open>pcdr[2]\<close>, \<open>pcsr[2]\<close> and \<open>pck[3]\<close>, which
  the code indexes with constants only, are one field per element. The environment is that of
  the RTT: guest accesses, expiries of the 10 Hz timer and the bottom half \<open>pmc_tick\<close>.

  The lemmas show the relation of the peripheral clock status to the enable and disable
  registers, the effect of write protection, the start-up of the main oscillator, and what
  the handling of \<open>indice\<close> means for the PLLs.
\<close>

record pmc_state =
  pmc_scer :: u32
  pmc_scdr :: u32
  pmc_scsr :: u32
  pmc_pcer0 :: u32
  pmc_pcer1 :: u32
  pmc_pcdr0 :: u32
  pmc_pcdr1 :: u32
  pmc_pcsr0 :: u32
  pmc_pcsr1 :: u32
  pmc_ckgr_mor :: u32
  pmc_ckgr_mcfr :: u32
  pmc_ckgr_pllar :: u32
  pmc_ckgr_pllbr :: u32
  pmc_mckr :: u32
  pmc_usb :: u32
  pmc_pck0 :: u32
  pmc_pck1 :: u32
  pmc_pck2 :: u32
  pmc_ier :: u32
  pmc_idr :: u32
  pmc_sr :: u32
  pmc_imr :: u32
  pmc_fsmr :: u32
  pmc_fspr :: u32
  pmc_focr :: u32
  pmc_wpmr :: u32
  pmc_wpsr :: u32
  pmc_ocr :: u32
  pmc_indice :: u32
  pmc_startup :: u32
  pmc_plla_count :: u32
  pmc_pllb_count :: u32
  pmc_irq :: bool
  pmc_timer :: ptimer_state

abbreviation PLLA_CHANGE :: u32 where "PLLA_CHANGE \<equiv> 0x1"
abbreviation PLLB_CHANGE :: u32 where "PLLB_CHANGE \<equiv> 0x2"
abbreviation CSS_CHANGE :: u32 where "CSS_CHANGE \<equiv> 0x4"
abbreviation PRES_CHANGE :: u32 where "PRES_CHANGE \<equiv> 0x8"
abbreviation CKGR_MOSCXTEN :: u32 where "CKGR_MOSCXTEN \<equiv> 0x1"
abbreviation CKGR_MOSCXTBY :: u32 where "CKGR_MOSCXTBY \<equiv> 0x2"
abbreviation CKGR_MOSCXTST :: u32 where "CKGR_MOSCXTST \<equiv> 0xff00"
abbreviation CKGR_MAINF :: u32 where "CKGR_MAINF \<equiv> 0xFFFF"
abbreviation CKGR_MAINFRDY :: u32 where "CKGR_MAINFRDY \<equiv> 0x10000"
abbreviation CKGR_PLLACOUNT :: u32 where "CKGR_PLLACOUNT \<equiv> 0x3F00"
abbreviation CKGR_PLLBCOUNT :: u32 where "CKGR_PLLBCOUNT \<equiv> 0x3F00"
abbreviation CKGR_ONE :: u64 where "CKGR_ONE \<equiv> 0x20000000"
abbreviation PMC_CSS :: u32 where "PMC_CSS \<equiv> 0x3"
abbreviation PMC_PRES :: u32 where "PMC_PRES \<equiv> 0x70"
abbreviation PMC_CSS_PLLA_CLK :: u32 where "PMC_CSS_PLLA_CLK \<equiv> 0x2"
abbreviation PMC_CSS_PLLB_CLK :: u32 where "PMC_CSS_PLLB_CLK \<equiv> 0x3"
abbreviation PMC_CSS_SLOW_CLK :: u32 where "PMC_CSS_SLOW_CLK \<equiv> 0x0"
abbreviation PMC_MOSCXTS :: u32 where "PMC_MOSCXTS \<equiv> 0x1"
abbreviation PMC_LOCKA :: u32 where "PMC_LOCKA \<equiv> 0x2"
abbreviation PMC_LOCKB :: u32 where "PMC_LOCKB \<equiv> 0x4"
abbreviation PMC_MCKRDY :: u32 where "PMC_MCKRDY \<equiv> 0x8"
abbreviation PMC_SCPCK0 :: u32 where "PMC_SCPCK0 \<equiv> 0x100"
abbreviation PMC_SCPCK1 :: u32 where "PMC_SCPCK1 \<equiv> 0x200"
abbreviation PMC_SCPCK2 :: u32 where "PMC_SCPCK2 \<equiv> 0x400"
abbreviation PMC_WPKEY_ON :: u32 where "PMC_WPKEY_ON \<equiv> 0x504D4301"

definition pmc_WrProtectTest :: "pmc_state \<Rightarrow> int" where
  "pmc_WrProtectTest s = (if pmc_wpmr s = PMC_WPKEY_ON then 0 else 1)"

definition pmc_update :: "pmc_state \<Rightarrow> pmc_state" where
  "pmc_update s =
    (let pcks = PMC_SCPCK0 OR PMC_SCPCK1 OR PMC_SCPCK2;
         sr = or_if (pmc_ckgr_mor s AND CKGR_MOSCXTBY = CKGR_MOSCXTBY) PMC_MOSCXTS (pmc_sr s);
         mcfr = or_if (pmc_ckgr_mcfr s AND CKGR_MAINF \<noteq> 0) CKGR_MAINFRDY (pmc_ckgr_mcfr s);
         sr = or_if (pmc_indice s AND CSS_CHANGE \<noteq> 0 \<or> pmc_indice s AND PRES_CHANGE \<noteq> 0) PMC_MCKRDY sr;
         sr = (sr AND NOT pcks) OR (pmc_scsr s AND pcks);
         css = pmc_mckr s AND PMC_CSS;
         mckr = (if css = PMC_CSS_PLLA_CLK \<and> sr AND PMC_LOCKA = 0 \<or>
                    css = PMC_CSS_PLLB_CLK \<and> sr AND PMC_LOCKB = 0
                 then (pmc_mckr s AND NOT PMC_CSS) OR PMC_CSS_SLOW_CLK else pmc_mckr s);
         sr = or_if (pmc_startup s = drop_bit 5 (pmc_ckgr_mor s AND CKGR_MOSCXTST)) PMC_MOSCXTS sr;
         sr = or_if (pmc_indice s AND PLLA_CHANGE \<noteq> 0 \<and>
                     pmc_plla_count s = drop_bit 8 (pmc_ckgr_pllar s AND CKGR_PLLACOUNT)) PMC_LOCKA sr;
         sr = or_if (pmc_indice s AND PLLB_CHANGE \<noteq> 0 \<and>
                     pmc_pllb_count s = drop_bit 8 (pmc_ckgr_pllbr s AND CKGR_PLLBCOUNT)) PMC_LOCKB sr
     in s\<lparr>pmc_pcsr0 := NOT (pmc_pcdr0 s) AND pmc_pcer0 s,
          pmc_pcsr1 := NOT (pmc_pcdr1 s) AND pmc_pcer1 s,
          pmc_ckgr_mcfr := mcfr, pmc_mckr := mckr, pmc_sr := sr,
          pmc_irq := (NOT (pmc_idr s) AND pmc_ier s AND pmc_imr s \<noteq> 0)\<rparr>)"

definition pmc_tick :: "pmc_state \<Rightarrow> pmc_state" where
  "pmc_tick s =
    (let s = s\<lparr>pmc_startup :=
              (if pmc_ckgr_mor s AND CKGR_MOSCXTEN = CKGR_MOSCXTEN \<and>
                  pmc_startup s < drop_bit 5 (pmc_ckgr_mor s AND CKGR_MOSCXTST)
               then pmc_startup s + 1 else pmc_startup s)\<rparr>;
         s = s\<lparr>pmc_plla_count :=
              (if pmc_plla_count s < drop_bit 8 (pmc_ckgr_pllar s AND CKGR_PLLACOUNT)
               then pmc_plla_count s + 1 else pmc_plla_count s)\<rparr>
     in s\<lparr>pmc_pllb_count :=
              (if pmc_pllb_count s < drop_bit 8 (pmc_ckgr_pllbr s AND CKGR_PLLBCOUNT)
               then pmc_pllb_count s + 1 else pmc_pllb_count s)\<rparr>)"

definition pmc_read :: "pmc_state \<Rightarrow> hwaddr \<Rightarrow> u64" where
  "pmc_read s offset =
    (if offset = 0x08 then ucast (pmc_scsr s)
     else if offset = 0x18 then ucast (pmc_pcsr0 s)
     else if offset = 0x20 then ucast (pmc_ckgr_mor s)
     else if offset = 0x24 then
       (if pmc_ckgr_mcfr s AND CKGR_MAINFRDY \<noteq> 0 then ucast (pmc_ckgr_mcfr s)
        else ucast (pmc_ckgr_pllar s))
     else if offset = 0x28 then ucast (pmc_ckgr_pllar s)
     else if offset = 0x2c then ucast (pmc_ckgr_pllbr s)
     else if offset = 0x30 then ucast (pmc_mckr s)
     else if offset = 0x38 then ucast (pmc_usb s)
     else if offset = 0x40 then ucast (pmc_pck0 s)
     else if offset = 0x44 then ucast (pmc_pck1 s)
     else if offset = 0x48 then ucast (pmc_pck2 s)
     else if offset = 0x68 then ucast (pmc_sr s)
     else if offset = 0x6c then ucast (pmc_imr s)
     else if offset = 0x70 then ucast (pmc_fsmr s)
     else if offset = 0x74 then ucast (pmc_fspr s)
     else if offset = 0xE4 then ucast (pmc_wpmr s)
     else if offset = 0xE8 then ucast (pmc_wpsr s)
     else if offset = 0x108 then ucast (pmc_pcsr1 s)
     else if offset = 0x110 then ucast (pmc_ocr s)
     else 0)"

definition pmc_write_pllar :: "pmc_state \<Rightarrow> u64 \<Rightarrow> pmc_state" where
  "pmc_write_pllar s value =
    (if pmc_sr s AND PMC_LOCKA = 0 \<and> value AND CKGR_ONE \<noteq> 0
     then s\<lparr>pmc_ckgr_pllar := ucast value, pmc_indice := pmc_indice s OR PLLA_CHANGE,
            pmc_plla_count := 0\<rparr>
     else s)"

definition pmc_write_pllbr :: "pmc_state \<Rightarrow> u64 \<Rightarrow> pmc_state" where
  "pmc_write_pllbr s value =
    (if pmc_sr s AND PMC_LOCKB = 0
     then s\<lparr>pmc_ckgr_pllbr := ucast value, pmc_indice := pmc_indice s OR PLLB_CHANGE,
            pmc_pllb_count := 0\<rparr>
     else s)"

definition pmc_write_mckr :: "pmc_state \<Rightarrow> u64 \<Rightarrow> pmc_state" where
  "pmc_write_mckr s value =
    (let s = s\<lparr>pmc_indice := (if value AND ucast PMC_CSS \<noteq> ucast (pmc_mckr s AND PMC_CSS)
                              then pmc_indice s OR CSS_CHANGE else pmc_indice s)\<rparr>;
         s = s\<lparr>pmc_indice := (if value AND ucast PMC_PRES \<noteq> ucast (pmc_mckr s AND PMC_PRES)
                              then pmc_indice s OR PRES_CHANGE else pmc_indice s)\<rparr>
     in pmc_update (s\<lparr>pmc_mckr := ucast value\<rparr>))"

definition pmc_write :: "pmc_state \<Rightarrow> hwaddr \<Rightarrow> u64 \<Rightarrow> pmc_state" where
  "pmc_write s0 offset value =
    (let s = s0\<lparr>pmc_indice := 0\<rparr>
     in if pmc_WrProtectTest s \<noteq> 1 then s
     else if offset = 0x00 then s\<lparr>pmc_scer := ucast value\<rparr>
     else if offset = 0x04 then s\<lparr>pmc_scdr := ucast value\<rparr>
     else if offset = 0x10 then pmc_update (s\<lparr>pmc_pcer0 := ucast value\<rparr>)
     else if offset = 0x14 then pmc_update (s\<lparr>pmc_pcdr0 := ucast value\<rparr>)
     else if offset = 0x20 then
       pmc_update (s\<lparr>pmc_ckgr_mor := (if value AND 0xff0000 = 0x370000 then ucast value
                                    else pmc_ckgr_mor s)\<rparr>)
     else if offset = 0x28 then pmc_write_pllar s value
     else if offset = 0x2c then pmc_write_pllbr s value
     else if offset = 0x30 then pmc_write_mckr s value
     else if offset = 0x38 then s\<lparr>pmc_usb := ucast value\<rparr>
     else if offset = 0x40 then
       s\<lparr>pmc_pck0 := (if pmc_scsr s AND PMC_SCPCK0 = 0 then ucast value else pmc_pck0 s)\<rparr>
     else if offset = 0x44 then
       s\<lparr>pmc_pck1 := (if pmc_scsr s AND PMC_SCPCK1 = 0 then ucast value else pmc_pck1 s)\<rparr>
     else if offset = 0x48 then
       s\<lparr>pmc_pck2 := (if pmc_scsr s AND PMC_SCPCK2 = 0 then ucast value else pmc_pck2 s)\<rparr>
     else if offset = 0x60 then pmc_update (s\<lparr>pmc_ier := ucast value\<rparr>)
     else if offset = 0x64 then pmc_update (s\<lparr>pmc_idr := ucast value\<rparr>)
     else if offset = 0x70 then s\<lparr>pmc_fsmr := ucast value\<rparr>
     else if offset = 0x74 then s\<lparr>pmc_fspr := ucast value\<rparr>
     else if offset = 0x78 then s\<lparr>pmc_focr := ucast value\<rparr>
     else if offset = 0xE4 then s\<lparr>pmc_wpmr := ucast value\<rparr>
     else if offset = 0x100 then pmc_update (s\<lparr>pmc_pcer1 := ucast value\<rparr>)
     else if offset = 0x104 then pmc_update (s\<lparr>pmc_pcdr1 := ucast value\<rparr>)
     else if offset = 0x110 then s\<lparr>pmc_ocr := ucast value\<rparr>
     else s)"

definition pmc_reset :: "pmc_state \<Rightarrow> pmc_state" where
  "pmc_reset s = s\<lparr>
     pmc_scsr := 0x00000001,
     pmc_pcer0 := 0, pmc_pcer1 := 0, pmc_pcdr0 := 0, pmc_pcdr1 := 0, pmc_pcsr0 := 0, pmc_pcsr1 := 0,
     pmc_ckgr_mor := 0x00000001, pmc_ckgr_mcfr := 0,
     pmc_ckgr_pllar := 0x00003f00, pmc_ckgr_pllbr := 0x00003f00,
     pmc_mckr := 0x00000001, pmc_usb := 0, pmc_pck0 := 0, pmc_pck1 := 0, pmc_pck2 := 0,
     pmc_sr := 0x00010008, pmc_imr := 0, pmc_fsmr := 0, pmc_fspr := 0, pmc_wpmr := 0, pmc_wpsr := 0,
     pmc_ocr := 0x00404040, pmc_indice := 0, pmc_startup := 0, pmc_plla_count := 0,
     pmc_pllb_count := 0\<rparr>"

definition pmc_zero :: "ptimer_state \<Rightarrow> pmc_state" where
  "pmc_zero t = \<lparr>pmc_scer = 0, pmc_scdr = 0, pmc_scsr = 0, pmc_pcer0 = 0, pmc_pcer1 = 0,
     pmc_pcdr0 = 0, pmc_pcdr1 = 0, pmc_pcsr0 = 0, pmc_pcsr1 = 0, pmc_ckgr_mor = 0,
     pmc_ckgr_mcfr = 0, pmc_ckgr_pllar = 0, pmc_ckgr_pllbr = 0, pmc_mckr = 0, pmc_usb = 0,
     pmc_pck0 = 0, pmc_pck1 = 0, pmc_pck2 = 0, pmc_ier = 0, pmc_idr = 0, pmc_sr = 0, pmc_imr = 0,
     pmc_fsmr = 0, pmc_fspr = 0, pmc_focr = 0, pmc_wpmr = 0, pmc_wpsr = 0, pmc_ocr = 0,
     pmc_indice = 0, pmc_startup = 0, pmc_plla_count = 0, pmc_pllb_count = 0, pmc_irq = False,
     pmc_timer = t\<rparr>"

definition pmc_init :: "u64 \<Rightarrow> pmc_state option" where
  "pmc_init now =
    do { t \<leftarrow> ptimer_set_freq (ptimer_init True) now 10;
         let t = ptimer_set_limit t now 1 True;
         Some ((pmc_reset (pmc_zero t))\<lparr>pmc_timer := ptimer_run t now False\<rparr>) }"

datatype pmc_event = PmcGuest mmio | PmcTimerFires | PmcBhRuns

fun pmc_step :: "pmc_state \<Rightarrow> pmc_event \<Rightarrow> pmc_state option" where
  "pmc_step s (PmcGuest e) =
     mmio_step (\<lambda>s a. Some (pmc_read s a, s)) (\<lambda>s a v. Some (pmc_write s a v)) s e"
| "pmc_step s PmcTimerFires = Some (s\<lparr>pmc_timer := ptimer_expire (pmc_timer s)\<rparr>)"
| "pmc_step s PmcBhRuns =
     (if pt_bh (pmc_timer s) = Some True
      then Some (pmc_tick (s\<lparr>pmc_timer := (pmc_timer s)\<lparr>pt_bh := Some False\<rparr>\<rparr>))
      else Some s)"

subsection \<open>Effect of an update\<close>

lemma pmc_update_same [simp]:
  "pmc_scer (pmc_update s) = pmc_scer s" "pmc_scdr (pmc_update s) = pmc_scdr s"
  "pmc_scsr (pmc_update s) = pmc_scsr s" "pmc_pcer0 (pmc_update s) = pmc_pcer0 s"
  "pmc_pcer1 (pmc_update s) = pmc_pcer1 s" "pmc_pcdr0 (pmc_update s) = pmc_pcdr0 s"
  "pmc_pcdr1 (pmc_update s) = pmc_pcdr1 s" "pmc_ckgr_mor (pmc_update s) = pmc_ckgr_mor s"
  "pmc_ckgr_pllar (pmc_update s) = pmc_ckgr_pllar s" "pmc_ckgr_pllbr (pmc_update s) = pmc_ckgr_pllbr s"
  "pmc_usb (pmc_update s) = pmc_usb s" "pmc_pck0 (pmc_update s) = pmc_pck0 s"
  "pmc_pck1 (pmc_update s) = pmc_pck1 s" "pmc_pck2 (pmc_update s) = pmc_pck2 s"
  "pmc_ier (pmc_update s) = pmc_ier s" "pmc_idr (pmc_update s) = pmc_idr s"
  "pmc_imr (pmc_update s) = pmc_imr s" "pmc_fsmr (pmc_update s) = pmc_fsmr s"
  "pmc_fspr (pmc_update s) = pmc_fspr s" "pmc_focr (pmc_update s) = pmc_focr s"
  "pmc_wpmr (pmc_update s) = pmc_wpmr s" "pmc_wpsr (pmc_update s) = pmc_wpsr s"
  "pmc_ocr (pmc_update s) = pmc_ocr s" "pmc_indice (pmc_update s) = pmc_indice s"
  "pmc_startup (pmc_update s) = pmc_startup s" "pmc_plla_count (pmc_update s) = pmc_plla_count s"
  "pmc_pllb_count (pmc_update s) = pmc_pllb_count s" "pmc_timer (pmc_update s) = pmc_timer s"
  by (simp_all add: pmc_update_def Let_def)

lemma pmc_tests:
  "(x AND PMC_LOCKA = 0) = (\<not> bit x 1)" "(x AND PMC_LOCKB = 0) = (\<not> bit x 2)"
  "(x AND PLLA_CHANGE = 0) = (\<not> bit x 0)" "(x AND PLLB_CHANGE = 0) = (\<not> bit x 1)" for x :: u32
  by (rule word_and_exp_eq_0, simp)+

lemma pmc_update_pcsr [simp]:
  "pmc_pcsr0 (pmc_update s) = NOT (pmc_pcdr0 s) AND pmc_pcer0 s"
  "pmc_pcsr1 (pmc_update s) = NOT (pmc_pcdr1 s) AND pmc_pcer1 s"
  by (simp_all add: pmc_update_def Let_def)

lemma pmc_update_irq [simp]: "pmc_irq (pmc_update s) = (NOT (pmc_idr s) AND pmc_ier s AND pmc_imr s \<noteq> 0)"
  by (simp add: pmc_update_def Let_def)

lemma pmc_update_mcfr: "pmc_ckgr_mcfr s = 0 \<Longrightarrow> pmc_ckgr_mcfr (pmc_update s) = 0"
  by (simp add: pmc_update_def Let_def or_if_def)

lemma pmc_update_locks:
  assumes "\<not> bit (pmc_indice s) 0" "\<not> bit (pmc_indice s) 1"
  shows "bit (pmc_sr (pmc_update s)) 1 = bit (pmc_sr s) 1" "bit (pmc_sr (pmc_update s)) 2 = bit (pmc_sr s) 2"
  using assms by (simp_all add: pmc_update_def Let_def pmc_tests bit_or_if bit_or_iff bit_and_iff bit_not_iff bit_simps)

lemma css_pll: "(x AND PMC_CSS = PMC_CSS_PLLA_CLK \<or> x AND PMC_CSS = PMC_CSS_PLLB_CLK) = bit x 1" for x :: u32
proof
  assume "x AND PMC_CSS = PMC_CSS_PLLA_CLK \<or> x AND PMC_CSS = PMC_CSS_PLLB_CLK"
  then have "bit (x AND PMC_CSS) 1" by (elim disjE; simp only:) simp_all
  then show "bit x 1" by (simp add: bit_and_iff)
next
  assume x: "bit x 1"
  have m: "PMC_CSS = mask 2" by (simp add: mask_eq_exp_minus_1)
  have "x AND PMC_CSS = (if bit x 0 then PMC_CSS_PLLB_CLK else PMC_CSS_PLLA_CLK)"
    using x unfolding m by (intro bit_word_eqI) (auto simp: bit_and_iff bit_mask_iff bit_2_iff less_2_cases_iff)
  then show "x AND PMC_CSS = PMC_CSS_PLLA_CLK \<or> x AND PMC_CSS = PMC_CSS_PLLB_CLK" by (simp split: if_splits)
qed

lemma pmc_update_mckr:
  assumes "\<not> bit (pmc_sr s) 1" "\<not> bit (pmc_sr s) 2"
  shows "\<not> bit (pmc_mckr (pmc_update s)) 1"
proof (cases "bit (pmc_mckr s) 1")
  case True
  show ?thesis
    using assms True css_pll [of "pmc_mckr s"]
    by (auto simp: pmc_update_def Let_def pmc_tests bit_or_if bit_or_iff bit_and_iff bit_not_iff bit_simps)
next
  case False
  then show ?thesis using css_pll [of "pmc_mckr s"] by (simp add: pmc_update_def Let_def)
qed

subsection \<open>Invariant\<close>

definition pmc_inv :: "pmc_state \<Rightarrow> bool" where
  "pmc_inv s \<longleftrightarrow>
     pmc_pcsr0 s = NOT (pmc_pcdr0 s) AND pmc_pcer0 s \<and>
     pmc_pcsr1 s = NOT (pmc_pcdr1 s) AND pmc_pcer1 s \<and>
     \<not> bit (pmc_sr s) 1 \<and> \<not> bit (pmc_sr s) 2 \<and> \<not> bit (pmc_mckr s) 1 \<and>
     pmc_scsr s = 1 \<and> pmc_imr s = 0 \<and> \<not> pmc_irq s \<and> pmc_ckgr_mcfr s = 0 \<and>
     ptimer_10hz_running (pmc_timer s)"

definition pmc_pre :: "pmc_state \<Rightarrow> bool" where
  "pmc_pre s \<longleftrightarrow> \<not> bit (pmc_sr s) 1 \<and> \<not> bit (pmc_sr s) 2 \<and>
     \<not> bit (pmc_indice s) 0 \<and> \<not> bit (pmc_indice s) 1 \<and>
     pmc_scsr s = 1 \<and> pmc_imr s = 0 \<and> pmc_ckgr_mcfr s = 0 \<and>
     ptimer_10hz_running (pmc_timer s)"

lemma pmc_update_inv: "pmc_pre s \<Longrightarrow> pmc_inv (pmc_update s)"
  using pmc_update_locks [of s] pmc_update_mckr [of s]
  by (simp add: pmc_pre_def pmc_inv_def pmc_update_mcfr)

lemma pmc_write_mckr_inv: "pmc_inv s \<Longrightarrow> pmc_indice s = 0 \<Longrightarrow> pmc_inv (pmc_write_mckr s v)"
  unfolding pmc_write_mckr_def Let_def
  by (rule pmc_update_inv) (simp add: pmc_pre_def pmc_inv_def bit_or_iff bit_simps)

lemma pmc_write_inv: "pmc_inv s \<Longrightarrow> pmc_inv (pmc_write s a v)"
proof -
  assume inv: "pmc_inv s"
  define t where "t = s\<lparr>pmc_indice := 0\<rparr>"
  have t: "pmc_inv t" "pmc_indice t = 0" using inv by (simp_all add: t_def pmc_inv_def)
  have u: "pmc_inv (pmc_update (t\<lparr>pmc_pcer0 := x\<rparr>))" "pmc_inv (pmc_update (t\<lparr>pmc_pcdr0 := x\<rparr>))"
    "pmc_inv (pmc_update (t\<lparr>pmc_ckgr_mor := x\<rparr>))" "pmc_inv (pmc_update (t\<lparr>pmc_ier := x\<rparr>))"
    "pmc_inv (pmc_update (t\<lparr>pmc_idr := x\<rparr>))" "pmc_inv (pmc_update (t\<lparr>pmc_pcer1 := x\<rparr>))"
    "pmc_inv (pmc_update (t\<lparr>pmc_pcdr1 := x\<rparr>))" for x
    by (rule pmc_update_inv; use t in \<open>simp add: pmc_pre_def pmc_inv_def\<close>)+
  have p: "pmc_inv (t\<lparr>pmc_scer := x\<rparr>)" "pmc_inv (t\<lparr>pmc_scdr := x\<rparr>)" "pmc_inv (t\<lparr>pmc_usb := x\<rparr>)"
    "pmc_inv (t\<lparr>pmc_pck0 := x\<rparr>)" "pmc_inv (t\<lparr>pmc_pck1 := x\<rparr>)" "pmc_inv (t\<lparr>pmc_pck2 := x\<rparr>)"
    "pmc_inv (t\<lparr>pmc_fsmr := x\<rparr>)" "pmc_inv (t\<lparr>pmc_fspr := x\<rparr>)" "pmc_inv (t\<lparr>pmc_focr := x\<rparr>)"
    "pmc_inv (t\<lparr>pmc_wpmr := x\<rparr>)" "pmc_inv (t\<lparr>pmc_ocr := x\<rparr>)"
    "pmc_inv (pmc_write_pllar t v)" "pmc_inv (pmc_write_pllbr t v)" for x
    using t by (simp_all add: pmc_inv_def pmc_write_pllar_def pmc_write_pllbr_def)
  show ?thesis
    unfolding pmc_write_def Let_def t_def [symmetric]
    by (rule if_keeps [of pmc_inv] u p t pmc_write_mckr_inv [OF t])+
qed

lemma pmc_tick_inv: "pmc_inv s \<Longrightarrow> pmc_inv (pmc_tick s)"
  by (simp add: pmc_tick_def Let_def pmc_inv_def)

interpretation pmc: mmio_device "\<lambda>s a. Some (pmc_read s a, s)" "\<lambda>s a v. Some (pmc_write s a v)" pmc_inv
  by unfold_locales (simp_all add: pmc_write_inv)

lemma pmc_step_inv: "pmc_inv s \<Longrightarrow> \<exists>t. pmc_step s e = Some t \<and> pmc_inv t"
proof (cases e)
  case (PmcGuest m)
  assume "pmc_inv s"
  from pmc.access_ok [OF this, of m] PmcGuest show ?thesis by simp
next
  case PmcTimerFires
  assume "pmc_inv s"
  with PmcTimerFires show ?thesis by (simp add: pmc_inv_def ptimer_10hz_expire)
next
  case PmcBhRuns
  assume inv: "pmc_inv s"
  then have "pmc_inv (s\<lparr>pmc_timer := (pmc_timer s)\<lparr>pt_bh := Some False\<rparr>\<rparr>)"
    by (simp add: pmc_inv_def ptimer_10hz_bh)
  with inv PmcBhRuns show ?thesis by (simp add: pmc_tick_inv)
qed

interpretation pmcm: guarded_machine pmc_step "\<lambda>_ _. True" pmc_inv
  by unfold_locales (rule pmc_step_inv)

lemma pmc_init_ok: "\<exists>s. pmc_init now = Some s \<and> pmc_inv s"
  using ptimer_10hz_started [of now]
  by (auto simp: pmc_init_def ptimer_10hz_def pmc_inv_def pmc_reset_def pmc_zero_def bit_simps split: bind_splits)

lemma pmc_reachable:
  assumes "pmc_init now = Some s0" "exec_list pmc_step s0 es = Some s"
  shows "pmc_inv s"
  using assms pmc_init_ok [of now] pmcm.run_keeps [OF _ guarded_True, of s0 es s] by auto

subsection \<open>Start-up of the main oscillator\<close>

abbreviation pmc_start_target :: "pmc_state \<Rightarrow> u32" where
  "pmc_start_target s \<equiv> drop_bit 5 (pmc_ckgr_mor s AND CKGR_MOSCXTST)"

lemma pmc_round_effect:
  assumes "pmc_inv s" "pmc_ckgr_mor s AND CKGR_MOSCXTEN = CKGR_MOSCXTEN" "pmc_startup s \<le> pmc_start_target s"
  shows "\<exists>t. exec_list pmc_step s [PmcTimerFires, PmcBhRuns] = Some t \<and> pmc_inv t \<and>
    pmc_ckgr_mor t = pmc_ckgr_mor s \<and> pmc_wpmr t = pmc_wpmr s \<and>
    unat (pmc_startup t) = min (Suc (unat (pmc_startup s))) (unat (pmc_start_target s))"
proof -
  let ?u = "s\<lparr>pmc_timer := (ptimer_expire (pmc_timer s))\<lparr>pt_bh := Some False\<rparr>\<rparr>"
  from assms(1) have t: "ptimer_10hz_running (pmc_timer s)" by (simp add: pmc_inv_def)
  note x = ptimer_10hz_expire [OF t]
  from x(2) have e: "exec_list pmc_step s [PmcTimerFires, PmcBhRuns] = Some (pmc_tick ?u)" by simp
  have "pmc_inv ?u" using assms(1) x ptimer_10hz_bh [OF x(1)] by (simp add: pmc_inv_def)
  then have i: "pmc_inv (pmc_tick ?u)" by (rule pmc_tick_inv)
  have "unat (pmc_startup (pmc_tick ?u)) = min (Suc (unat (pmc_startup s))) (unat (pmc_start_target s))"
  proof (cases "pmc_startup s < pmc_start_target s")
    case True
    then have "pmc_startup (pmc_tick ?u) = pmc_startup s + 1"
      using assms(2) by (simp add: pmc_tick_def Let_def)
    moreover have lt: "unat (pmc_startup s) < unat (pmc_start_target s)"
      using True by (simp add: word_less_nat_alt)
    moreover have "unat (pmc_startup s + 1) = unat (pmc_startup s) + 1"
      using lt unat_lt2p [of "pmc_start_target s"] unat_word_add [of "pmc_startup s" 1]
      by (simp del: drop_bit_and)
    ultimately show ?thesis by simp
  next
    case False
    then have "pmc_startup (pmc_tick ?u) = pmc_startup s" by (simp add: pmc_tick_def Let_def)
    moreover have "pmc_startup s = pmc_start_target s" using False assms(3) by (simp only: not_less order_antisym)
    ultimately show ?thesis by simp
  qed
  moreover have "pmc_ckgr_mor (pmc_tick ?u) = pmc_ckgr_mor s" "pmc_wpmr (pmc_tick ?u) = pmc_wpmr s"
    by (simp_all add: pmc_tick_def Let_def)
  ultimately show ?thesis using e i by blast
qed

lemma min_step: "min (n + min (Suc a) b) b = min (Suc n + a) (b::nat)"
  by (simp add: min_def)

lemma pmc_rounds_effect:
  assumes "pmc_inv s" "pmc_ckgr_mor s AND CKGR_MOSCXTEN = CKGR_MOSCXTEN" "pmc_startup s \<le> pmc_start_target s"
  shows "\<exists>t. exec_list pmc_step s (concat (replicate n [PmcTimerFires, PmcBhRuns])) = Some t \<and> pmc_inv t \<and>
    pmc_ckgr_mor t = pmc_ckgr_mor s \<and> pmc_wpmr t = pmc_wpmr s \<and>
    unat (pmc_startup t) = min (n + unat (pmc_startup s)) (unat (pmc_start_target s))"
  using assms
proof (induction n arbitrary: s)
  case 0
  then show ?case by (simp add: word_le_nat_alt min_def)
next
  case (Suc n)
  from pmc_round_effect [OF Suc.prems] obtain u where
    u: "exec_list pmc_step s [PmcTimerFires, PmcBhRuns] = Some u" "pmc_inv u"
      "pmc_ckgr_mor u = pmc_ckgr_mor s" "pmc_wpmr u = pmc_wpmr s"
      "unat (pmc_startup u) = min (Suc (unat (pmc_startup s))) (unat (pmc_start_target s))" by blast
  have le: "pmc_startup u \<le> pmc_start_target u" using u(3,5) by (simp add: word_le_nat_alt)
  have run: "exec_list pmc_step s (concat (replicate (Suc n) [PmcTimerFires, PmcBhRuns]))
      = exec_list pmc_step u (concat (replicate n [PmcTimerFires, PmcBhRuns]))"
    using u(1) by (simp only: replicate_Suc concat.simps exec_list_append) simp
  have "pmc_ckgr_mor u AND CKGR_MOSCXTEN = CKGR_MOSCXTEN" using Suc.prems(2) u(3) by simp
  from Suc.IH [OF u(2) this le] show ?case
    unfolding run u(3,4,5) min_step .
qed

definition pmc_polls :: "pmc_event \<Rightarrow> bool" where
  "pmc_polls e = (case e of PmcGuest (MWrite a v) \<Rightarrow> False | _ \<Rightarrow> True)"

lemma pmc_poll_sr: "pmc_polls e \<Longrightarrow> pmc_step s e = Some t \<Longrightarrow> pmc_sr t = pmc_sr s"
  by (cases "(s, e)" rule: pmc_step.cases)
     (auto simp: pmc_polls_def pmc_tick_def Let_def split: mmio.splits if_splits)

lemma pmc_polls_sr: "list_all pmc_polls es \<Longrightarrow> exec_list pmc_step s es = Some t \<Longrightarrow> pmc_sr t = pmc_sr s"
  by (induction es arbitrary: s) (auto split: bind_splits dest: pmc_poll_sr)

definition pmc_config :: "pmc_state \<Rightarrow> pmc_state" where
  "pmc_config s = s\<lparr>pmc_indice := 0, pmc_startup := 0, pmc_plla_count := 0, pmc_pllb_count := 0,
     pmc_timer := ptimer_init True\<rparr>"

lemma pmc_protected_step:
  "pmc_wpmr s = PMC_WPKEY_ON \<Longrightarrow> pmc_step s e = Some t \<Longrightarrow>
   pmc_config t = pmc_config s \<and> pmc_wpmr t = PMC_WPKEY_ON"
  by (cases "(s, e)" rule: pmc_step.cases; cases "\<exists>a v. e = PmcGuest (MWrite a v)")
     (auto simp: pmc_config_def pmc_write_def pmc_WrProtectTest_def pmc_tick_def Let_def
       elim!: mmio_step.elims split: if_splits)

lemma pmc_step_total: "\<exists>t. pmc_step s e = Some t"
proof (cases e)
  case (PmcGuest m)
  then show ?thesis by (cases m) simp_all
qed simp_all

lemma pmc_protected_run:
  "pmc_wpmr s = PMC_WPKEY_ON \<Longrightarrow>
   \<exists>t. exec_list pmc_step s es = Some t \<and> pmc_config t = pmc_config s \<and> pmc_wpmr t = PMC_WPKEY_ON"
proof (induction es arbitrary: s)
  case (Cons e es)
  obtain u where u: "pmc_step s e = Some u" using pmc_step_total by blast
  from pmc_protected_step [OF Cons.prems u] Cons.IH [of u] u show ?case by auto
qed simp

lemma pmc_boot_mor:
  "\<exists>s0. pmc_init now = Some s0 \<and> \<not> bit (pmc_sr (pmc_write s0 0x20 0x373F09)) 0"
  using ptimer_10hz_started [of now]
  by (auto simp: pmc_init_def ptimer_10hz_def pmc_reset_def pmc_zero_def pmc_write_def
      pmc_WrProtectTest_def pmc_update_def Let_def or_if_def bit_simps split: bind_splits)

lemma pmc_update_ready:
  "pmc_startup s = pmc_start_target s \<Longrightarrow> bit (pmc_sr (pmc_update s)) 0"
  by (simp add: pmc_update_def Let_def bit_or_if)

lemma pmc_write_ready:
  assumes "pmc_startup s = pmc_start_target s" "pmc_wpmr s \<noteq> PMC_WPKEY_ON"
    and "off \<in> {0x10, 0x14, 0x30, 0x60, 0x64, 0x100, 0x104}"
  shows "bit (pmc_sr (pmc_write s off v)) 0"
  using assms(3)
  by (elim insertE emptyE)
     (simp_all add: pmc_write_def pmc_write_mckr_def Let_def pmc_WrProtectTest_def assms pmc_update_ready)

subsection \<open>Properties\<close>

text \<open>C21: in every state reachable from \<open>pmc_init\<close> through guest accesses and timer ticks, which
  are always defined, the peripheral clock status registers hold exactly the enabled and not
  disabled peripherals, and the master clock register selects a PLL only if that PLL is
  locked.\<close>
theorem pmc_clock_status:
  "\<exists>s0 s. pmc_init now = Some s0 \<and> exec_list pmc_step s0 es = Some s \<and>
     pmc_pcsr0 s = NOT (pmc_pcdr0 s) AND pmc_pcer0 s \<and> pmc_pcsr1 s = NOT (pmc_pcdr1 s) AND pmc_pcer1 s \<and>
     (pmc_mckr s AND PMC_CSS = PMC_CSS_PLLA_CLK \<longrightarrow> pmc_sr s AND PMC_LOCKA \<noteq> 0) \<and>
     (pmc_mckr s AND PMC_CSS = PMC_CSS_PLLB_CLK \<longrightarrow> pmc_sr s AND PMC_LOCKB \<noteq> 0)"
proof -
  from pmc_init_ok [of now] obtain s0 where s0: "pmc_init now = Some s0" "pmc_inv s0" by blast
  from pmcm.run_ok [OF s0(2) guarded_True, of es] obtain s
    where "exec_list pmc_step s0 es = Some s" "pmc_inv s" by blast
  with s0(1) css_pll [of "pmc_mckr s"] show ?thesis by (auto simp: pmc_inv_def)
qed

theorem pmc_clock_status_witness:
  "\<exists>s0 s. pmc_init 0 = Some s0 \<and> exec_list pmc_step s0 [PmcGuest (MWrite 0x10 0xff), PmcGuest (MWrite 0x14 0x0f)] = Some s \<and>
     pmc_pcsr0 s = NOT (pmc_pcdr0 s) AND pmc_pcer0 s \<and> pmc_pcsr1 s = NOT (pmc_pcdr1 s) AND pmc_pcer1 s \<and>
     (pmc_mckr s AND PMC_CSS = PMC_CSS_PLLA_CLK \<longrightarrow> pmc_sr s AND PMC_LOCKA \<noteq> 0) \<and>
     (pmc_mckr s AND PMC_CSS = PMC_CSS_PLLB_CLK \<longrightarrow> pmc_sr s AND PMC_LOCKB \<noteq> 0)"
  by (rule pmc_clock_status)

text \<open>C22: write protection. Once \<open>WPMR\<close> holds the key with the enable bit, no sequence of guest
  accesses and timer ticks changes any register of the controller except its internal
  counters; \<open>WPMR\<close> itself included, so that the protection can only be lifted by a reset.\<close>
theorem pmc_write_protection:
  assumes "pmc_wpmr s = PMC_WPKEY_ON"
  shows "\<exists>t. exec_list pmc_step s es = Some t \<and> pmc_config t = pmc_config s"
  using pmc_protected_run [OF assms] by blast

theorem pmc_write_protection_witness:
  "\<exists>t. exec_list pmc_step (pmc_write (pmc_zero (ptimer_init True)) 0xE4 0x504D4301)
      [PmcGuest (MWrite 0x30 0x11), PmcGuest (MWrite 0xE4 0x504D4300), PmcBhRuns] = Some t \<and>
    pmc_config t = pmc_config (pmc_write (pmc_zero (ptimer_init True)) 0xE4 0x504D4301)"
  by (rule pmc_write_protection)
     (simp add: pmc_write_def pmc_WrProtectTest_def pmc_zero_def)

text \<open>C34: start-up of the main oscillator. In a state of the invariant whose registers are not
  write-protected, with the oscillator enabled and the start-up counter not beyond the programmed
  time, any number of ticks that is at least the missing part brings the counter exactly to the
  programmed time, and the next write, of any value, to one of the registers whose write recomputes
  the status (\<open>PCER0\<close>, \<open>PCDR0\<close>, \<open>MCKR\<close>, \<open>IER\<close>, \<open>IDR\<close>, \<open>PCER1\<close>, \<open>PCDR1\<close>; \<open>CKGR_MOR\<close>, which can
  change the programmed time itself, apart) sets \<open>MOSCXTS\<close>.\<close>
theorem pmc_oscillator_ready:
  assumes "pmc_inv s" and "pmc_ckgr_mor s AND CKGR_MOSCXTEN = CKGR_MOSCXTEN"
    and "pmc_startup s \<le> pmc_start_target s" and "pmc_wpmr s \<noteq> PMC_WPKEY_ON"
    and "unat (pmc_start_target s) \<le> n + unat (pmc_startup s)"
    and "off \<in> {0x10, 0x14, 0x30, 0x60, 0x64, 0x100, 0x104}"
  shows "\<exists>u t. exec_list pmc_step s (concat (replicate n [PmcTimerFires, PmcBhRuns])) = Some u \<and>
    pmc_startup u = pmc_start_target s \<and>
    pmc_step u (PmcGuest (MWrite off v)) = Some t \<and> bit (pmc_sr t) 0"
proof -
  from pmc_rounds_effect [OF assms(1,2,3), of n] assms(5) obtain u where
    u: "exec_list pmc_step s (concat (replicate n [PmcTimerFires, PmcBhRuns])) = Some u"
      "pmc_ckgr_mor u = pmc_ckgr_mor s" "pmc_wpmr u = pmc_wpmr s"
      "unat (pmc_startup u) = unat (pmc_start_target s)" by (auto simp: min_absorb2)
  have "pmc_startup u = pmc_start_target s"
    using u(4) by (simp only: word_unat_eq_iff)
  moreover from this have "bit (pmc_sr (pmc_write u off v)) 0"
    using pmc_write_ready [OF _ _ assms(6), where s = u and v = v] assms(4) u(2,3) by simp
  ultimately show ?thesis using u(1) by simp
qed

theorem pmc_oscillator_ready_witness:
  "\<exists>s0 u t. pmc_init 0 = Some s0 \<and> exec_list pmc_step (pmc_write s0 0x20 0x370101)
      (concat (replicate 8 [PmcTimerFires, PmcBhRuns])) = Some u \<and> pmc_startup u = 8 \<and>
    pmc_step u (PmcGuest (MWrite 0x60 5)) = Some t \<and> bit (pmc_sr t) 0"
proof -
  from ptimer_10hz_started [of 0] obtain p where p: "ptimer_10hz 0 = Some p" by blast
  let ?s0 = "(pmc_reset (pmc_zero p))"
  have i: "pmc_init 0 = Some ?s0"
    using p by (auto simp: pmc_init_def ptimer_10hz_def pmc_reset_def pmc_zero_def split: bind_splits)
  then have inv: "pmc_inv (pmc_write ?s0 0x20 0x370101)"
    using pmc_init_ok [of 0] by (simp add: pmc_write_inv)
  have "pmc_ckgr_mor (pmc_write ?s0 0x20 0x370101) = 0x370101" "pmc_startup (pmc_write ?s0 0x20 0x370101) = 0"
      "pmc_wpmr (pmc_write ?s0 0x20 0x370101) = 0"
    by (simp_all add: pmc_write_def Let_def pmc_WrProtectTest_def pmc_reset_def)
  then show ?thesis using i pmc_oscillator_ready [OF inv, of 8 "0x60" 5] by simp
qed

text \<open>the status register is only recomputed by register writes. A guest that enables the
  crystal oscillator with the usual start-up time right after reset and then polls the status
  register, with any number of ticks in between, never sees \<open>MOSCXTS\<close>.\<close>
theorem pmc_polling_never_ready:
  assumes "list_all pmc_polls es"
  shows "\<exists>s0 t. pmc_init now = Some s0 \<and>
    exec_list pmc_step s0 (PmcGuest (MWrite 0x20 0x373F09) # es) = Some t \<and> \<not> bit (pmc_sr t) 0"
proof -
  from pmc_boot_mor [of now] obtain s0 where
    s0: "pmc_init now = Some s0" "\<not> bit (pmc_sr (pmc_write s0 0x20 0x373F09)) 0" by blast
  from pmc_init_ok [of now] s0(1) have "pmc_inv (pmc_write s0 0x20 0x373F09)" by (simp add: pmc_write_inv)
  from pmcm.run_ok [OF this guarded_True, of es] obtain t
    where "exec_list pmc_step (pmc_write s0 0x20 0x373F09) es = Some t" by blast
  with s0 pmc_polls_sr [OF assms, of _ t] show ?thesis by auto
qed

theorem pmc_polling_never_ready_witness:
  "\<exists>s0 t. pmc_init 0 = Some s0 \<and> exec_list pmc_step s0
      (PmcGuest (MWrite 0x20 0x373F09) # [PmcTimerFires, PmcBhRuns, PmcGuest (MRead 0x68)]) = Some t \<and>
    \<not> bit (pmc_sr t) 0"
  by (rule pmc_polling_never_ready) (simp add: pmc_polls_def)

text \<open>C36: the PLLs never lock. Every register write clears the pending-change flags before the
  status is recomputed, and a write of a PLL register does not recompute it, so in every
  reachable state \<open>LOCKA\<close> and \<open>LOCKB\<close> are clear, the master clock runs from the slow or the main
  clock, the main clock frequency register reads as the PLLA register and the interrupt line
  is down.\<close>
theorem pmc_pll_never_locks:
  "\<exists>s0 s. pmc_init now = Some s0 \<and> exec_list pmc_step s0 es = Some s \<and>
     \<not> bit (pmc_sr s) 1 \<and> \<not> bit (pmc_sr s) 2 \<and> \<not> bit (pmc_mckr s) 1 \<and>
     pmc_read s 0x24 = pmc_read s 0x28 \<and> \<not> pmc_irq s"
proof -
  from pmc_init_ok [of now] obtain s0 where s0: "pmc_init now = Some s0" "pmc_inv s0" by blast
  from pmcm.run_ok [OF s0(2) guarded_True, of es] obtain s
    where "exec_list pmc_step s0 es = Some s" "pmc_inv s" by blast
  with s0(1) show ?thesis by (auto simp: pmc_inv_def pmc_read_def)
qed

end
