(* ===== verification/Pl011.thy ===== *)
theory Pl011
  imports Interfaces
begin

text \<open>
  The PrimeCell UART of the board, \<^verbatim>\<open>hw/char/pl011.c\<close>.

  The character backend is the list of bytes sent to it, if one is attached. Its callbacks
  \<open>pl011_can_receive\<close>, \<open>pl011_receive\<close> and \<open>pl011_event\<close> are environment events: a byte is
  delivered only when \<open>pl011_can_receive\<close> allows it (\<^verbatim>\<open>qemu-char.c\<close> asks before it calls
  \<open>chr_read\<close>), a break is delivered at any time.

  The lemmas show that the receive FIFO is a queue of 16 entries, that the interrupt line and
  the flags follow it, and that a break, which is not subject to the check, can run over the
  end of the array.
\<close>

record pl011_state =
  pl_flags :: u32
  pl_lcr :: u32
  pl_cr :: u32
  pl_dmacr :: u32
  int_enabled :: u32
  int_level :: u32
  read_fifo :: "u32 list"
  pl_ilpr :: u32
  pl_ibrd :: u32
  pl_fbrd :: u32
  pl_ifl :: u32
  read_pos :: int
  read_count :: int
  read_trigger :: int
  pl_chr :: "u8 list option"
  pl_irq :: bool
  pl_id :: "u8 list"

abbreviation PL011_INT_TX :: u32 where "PL011_INT_TX \<equiv> 0x20"
abbreviation PL011_INT_RX :: u32 where "PL011_INT_RX \<equiv> 0x10"
abbreviation PL011_FLAG_RXFF :: u32 where "PL011_FLAG_RXFF \<equiv> 0x40"
abbreviation PL011_FLAG_RXFE :: u32 where "PL011_FLAG_RXFE \<equiv> 0x10"

definition pl011_id_arm :: "u8 list" where
  "pl011_id_arm = [0x11, 0x10, 0x14, 0x00, 0x0d, 0xf0, 0x05, 0xb1]"

definition pl011_id_luminary :: "u8 list" where
  "pl011_id_luminary = [0x11, 0x00, 0x18, 0x01, 0x0d, 0xf0, 0x05, 0xb1]"

definition pl011_update :: "pl011_state \<Rightarrow> pl011_state" where
  "pl011_update s = s\<lparr>pl_irq := (int_level s AND int_enabled s \<noteq> 0)\<rparr>"

definition pl011_read_dr :: "pl011_state \<Rightarrow> (u32 \<times> pl011_state) option" where
  "pl011_read_dr s =
    do { c \<leftarrow> arr_get (read_fifo s) (read_pos s);
         let count = (if read_count s > 0 then read_count s - 1 else read_count s);
         let pos = (if read_count s > 0
                    then (if read_pos s + 1 = 16 then 0 else read_pos s + 1) else read_pos s);
         Some (c, pl011_update (s\<lparr>
           pl_flags := or_if (count = 0) PL011_FLAG_RXFE (pl_flags s AND NOT PL011_FLAG_RXFF),
           read_count := count, read_pos := pos,
           int_level := clear_if (count = read_trigger s - 1) PL011_INT_RX (int_level s)\<rparr>)) }"

definition pl011_read :: "pl011_state \<Rightarrow> hwaddr \<Rightarrow> (u64 \<times> pl011_state) option" where
  "pl011_read s offset =
    (let r = drop_bit 2 offset in
     if 0xfe0 \<le> offset \<and> offset < 0x1000 then
       map_option (\<lambda>b. (ucast b, s)) (arr_get (pl_id s) (uint (drop_bit 2 (offset - 0xfe0))))
     else if r = 0 then map_option (\<lambda>(c, t). (ucast c, t)) (pl011_read_dr s)
     else if r = 1 then Some (0, s)
     else if r = 6 then Some (ucast (pl_flags s), s)
     else if r = 8 then Some (ucast (pl_ilpr s), s)
     else if r = 9 then Some (ucast (pl_ibrd s), s)
     else if r = 10 then Some (ucast (pl_fbrd s), s)
     else if r = 11 then Some (ucast (pl_lcr s), s)
     else if r = 12 then Some (ucast (pl_cr s), s)
     else if r = 13 then Some (ucast (pl_ifl s), s)
     else if r = 14 then Some (ucast (int_enabled s), s)
     else if r = 15 then Some (ucast (int_level s), s)
     else if r = 16 then Some (ucast (int_level s AND int_enabled s), s)
     else if r = 18 then Some (ucast (pl_dmacr s), s)
     else Some (0, s))"

definition pl011_set_read_trigger :: "pl011_state \<Rightarrow> pl011_state" where
  "pl011_set_read_trigger s = s\<lparr>read_trigger := 1\<rparr>"

definition pl011_write :: "pl011_state \<Rightarrow> hwaddr \<Rightarrow> u64 \<Rightarrow> pl011_state" where
  "pl011_write s offset value =
    (let r = drop_bit 2 offset in
     if r = 0 then
       pl011_update (s\<lparr>pl_chr := map_option (\<lambda>out. out @ [ucast value]) (pl_chr s),
                       int_level := int_level s OR PL011_INT_TX\<rparr>)
     else if r = 1 then s\<lparr>pl_cr := ucast value\<rparr>
     else if r = 6 then s
     else if r = 8 then s\<lparr>pl_ilpr := ucast value\<rparr>
     else if r = 9 then s\<lparr>pl_ibrd := ucast value\<rparr>
     else if r = 10 then s\<lparr>pl_fbrd := ucast value\<rparr>
     else if r = 11 then pl011_set_read_trigger (s\<lparr>pl_lcr := ucast value\<rparr>)
     else if r = 12 then s\<lparr>pl_cr := ucast value\<rparr>
     else if r = 13 then pl011_set_read_trigger (s\<lparr>pl_ifl := ucast value\<rparr>)
     else if r = 14 then pl011_update (s\<lparr>int_enabled := ucast value\<rparr>)
     else if r = 17 then pl011_update (s\<lparr>int_level := int_level s AND NOT (ucast value)\<rparr>)
     else if r = 18 then s\<lparr>pl_dmacr := ucast value\<rparr>
     else s)"

definition pl011_can_receive :: "pl011_state \<Rightarrow> bool" where
  "pl011_can_receive s = (if pl_lcr s AND 0x10 \<noteq> 0 then read_count s < 16 else read_count s < 1)"

definition pl011_put_fifo :: "pl011_state \<Rightarrow> u32 \<Rightarrow> pl011_state option" where
  "pl011_put_fifo s value =
    (let slot = read_pos s + read_count s;
         slot = (if slot \<ge> 16 then slot - 16 else slot)
     in do { fifo \<leftarrow> arr_set (read_fifo s) slot value;
             let s = s\<lparr>read_fifo := fifo, read_count := read_count s + 1\<rparr>;
             let s = s\<lparr>pl_flags := or_if (pl_cr s AND 0x10 \<noteq> 0 \<or> read_count s = 16) PL011_FLAG_RXFF
                                   (pl_flags s AND NOT PL011_FLAG_RXFE)\<rparr>;
             Some (if read_count s = read_trigger s
                   then pl011_update (s\<lparr>int_level := int_level s OR PL011_INT_RX\<rparr>) else s) })"

definition pl011_receive :: "pl011_state \<Rightarrow> u8 \<Rightarrow> pl011_state option" where
  "pl011_receive s b = pl011_put_fifo s (ucast b)"

definition pl011_event_break :: "pl011_state \<Rightarrow> pl011_state option" where
  "pl011_event_break s = pl011_put_fifo s 0x400"

definition pl011_init :: "bool \<Rightarrow> pl011_state" where
  "pl011_init has_chr =
    \<lparr>pl_flags = 0x90, pl_lcr = 0, pl_cr = 0x300, pl_dmacr = 0, int_enabled = 0, int_level = 0,
     read_fifo = replicate 16 0, pl_ilpr = 0, pl_ibrd = 0, pl_fbrd = 0, pl_ifl = 0x12,
     read_pos = 0, read_count = 0, read_trigger = 1,
     pl_chr = (if has_chr then Some [] else None), pl_irq = False, pl_id = pl011_id_arm\<rparr>"

definition pl011_luminary_init :: "bool \<Rightarrow> pl011_state" where
  "pl011_luminary_init has_chr = (pl011_init has_chr)\<lparr>pl_id := pl011_id_luminary\<rparr>"

datatype uart_event = UartGuest mmio | UartReceive u8 | UartBreak

fun pl011_step :: "pl011_state \<Rightarrow> uart_event \<Rightarrow> pl011_state option" where
  "pl011_step s (UartGuest e) = mmio_step pl011_read (\<lambda>s a v. Some (pl011_write s a v)) s e"
| "pl011_step s (UartReceive b) = pl011_receive s b"
| "pl011_step s UartBreak = pl011_event_break s"

fun uart_ok :: "pl011_state \<Rightarrow> uart_event \<Rightarrow> bool" where
  "uart_ok s (UartGuest e) = True"
| "uart_ok s (UartReceive b) = pl011_can_receive s"
| "uart_ok s UartBreak = (read_count s < 16)"

definition pl011_inv :: "pl011_state \<Rightarrow> bool" where
  "pl011_inv s \<longleftrightarrow> 0 \<le> read_pos s \<and> read_pos s < 16 \<and> 0 \<le> read_count s \<and> read_count s \<le> 16 \<and>
     length (read_fifo s) = 16 \<and> length (pl_id s) = 8 \<and> read_trigger s = 1 \<and>
     pl_irq s = (int_level s AND int_enabled s \<noteq> 0) \<and>
     (bit (pl_flags s) 4 \<longleftrightarrow> read_count s = 0) \<and> (read_count s = 16 \<longrightarrow> bit (pl_flags s) 6) \<and>
     (bit (int_level s) 4 \<longrightarrow> 0 < read_count s)"

definition rx_items :: "pl011_state \<Rightarrow> u32 list" where
  "rx_items s = ring_list (read_fifo s) (nat (read_pos s)) (nat (read_count s))"

subsection \<open>The receive FIFO is a queue\<close>

lemma rx_slot:
  assumes "0 \<le> p" "p < 16" "0 \<le> n" "n < (16::int)"
  shows "nat (if p + n \<ge> 16 then p + n - 16 else p + n) = (nat p + nat n) mod 16"
proof -
  have "nat p + nat n < 32" using assms by linarith
  then have "(nat p + nat n) mod 16 = (if nat p + nat n \<ge> 16 then nat p + nat n - 16 else nat p + nat n)"
    by (simp add: mod_if)
  moreover have "(16 \<le> p + n) = (16 \<le> nat p + nat n)" using assms by linarith
  ultimately show ?thesis using assms by (simp add: nat_diff_distrib nat_add_distrib)
qed

lemma pl011_put_fifo_ok:
  assumes "pl011_inv s" "read_count s < 16"
  shows "\<exists>t. pl011_put_fifo s v = Some t \<and> pl011_inv t \<and> rx_items t = rx_items s @ [v]"
proof -
  let ?p = "read_pos s" and ?n = "read_count s"
  let ?slot = "if ?p + ?n \<ge> 16 then ?p + ?n - 16 else ?p + ?n"
  have i: "0 \<le> ?p" "?p < 16" "0 \<le> ?n" "?n < 16" "length (read_fifo s) = 16"
    using assms by (simp_all add: pl011_inv_def)
  have slot: "0 \<le> ?slot" "?slot < 16" using i by auto
  have "ring_list ((read_fifo s)[nat ?slot := v]) (nat ?p) (Suc (nat ?n))
      = ring_list (read_fifo s) (nat ?p) (nat ?n) @ [v]"
    using ring_list_enq [of "nat ?n" "read_fifo s" "nat ?p" v] i rx_slot [OF i(1-4)] by simp
  moreover have "nat (?n + 1) = Suc (nat ?n)" using i by simp
  moreover have "arr_set (read_fifo s) ?slot v = Some ((read_fifo s)[nat ?slot := v])"
    using slot i(5) by (simp add: arr_set_Some)
  ultimately show ?thesis
    using assms i slot
    by (auto simp: pl011_put_fifo_def Let_def pl011_inv_def pl011_update_def rx_items_def bit_or_if
        bit_or_iff bit_and_iff bit_not_iff bit_simps)
qed

lemma pl011_read_dr_ok:
  assumes "pl011_inv s"
  shows "\<exists>c t. pl011_read_dr s = Some (c, t) \<and> pl011_inv t \<and>
    (if read_count s = 0 then rx_items t = [] else rx_items s = c # rx_items t)"
proof -
  let ?p = "read_pos s" and ?n = "read_count s"
  have i: "0 \<le> ?p" "?p < 16" "0 \<le> ?n" "?n \<le> 16" "length (read_fifo s) = 16"
    using assms by (simp_all add: pl011_inv_def)
  let ?q = "if ?p + 1 = 16 then 0 else ?p + 1"
  have q: "nat ?q = Suc (nat ?p) mod 16"
    using i by (auto simp: nat_add_distrib mod_Suc)
  have "rx_items s = read_fifo s ! nat ?p # ring_list (read_fifo s) (nat ?q) (nat (?n - 1))" if "?n \<noteq> 0"
  proof -
    have "nat ?n = Suc (nat (?n - 1))" using that i by simp
    then show ?thesis
      using i q ring_list_mod [of "read_fifo s" "Suc (nat ?p)"] by (simp add: rx_items_def ring_list_Cons)
  qed
  then show ?thesis
    using assms i
    by (auto simp: pl011_read_dr_def Let_def arr_get_Some pl011_inv_def pl011_update_def rx_items_def
        bit_or_if bit_clear_if bit_and_iff bit_not_iff bit_simps)
qed

lemma pl011_write_inv: "pl011_inv s \<Longrightarrow> pl011_inv (pl011_write s a v)"
  unfolding pl011_write_def Let_def
  by (intro if_keeps [of pl011_inv])
     (auto simp: pl011_inv_def pl011_update_def pl011_set_read_trigger_def bit_or_iff bit_and_iff bit_simps)

lemma pl011_read_ok: "pl011_inv s \<Longrightarrow> \<exists>v t. pl011_read s a = Some (v, t) \<and> pl011_inv t"
proof -
  assume inv: "pl011_inv s"
  then have "length (pl_id s) = 8" by (simp add: pl011_inv_def)
  with id_get [of a "pl_id s"] pl011_read_dr_ok [OF inv] inv show ?thesis
    by (auto simp: pl011_read_def Let_def)
qed

interpretation uart: mmio_device pl011_read "\<lambda>s a v. Some (pl011_write s a v)" pl011_inv
  by unfold_locales (simp_all add: pl011_read_ok pl011_write_inv)

lemma pl011_step_inv: "pl011_inv s \<Longrightarrow> uart_ok s e \<Longrightarrow> \<exists>t. pl011_step s e = Some t \<and> pl011_inv t"
proof (cases e)
  case (UartGuest m)
  assume "pl011_inv s"
  from uart.access_ok [OF this, of m] UartGuest show ?thesis by simp
next
  case (UartReceive b)
  assume "pl011_inv s" "uart_ok s e"
  then have "read_count s < 16" by (simp add: UartReceive pl011_can_receive_def split: if_splits)
  with \<open>pl011_inv s\<close> UartReceive show ?thesis using pl011_put_fifo_ok [of s "ucast b"] by (auto simp: pl011_receive_def)
next
  case UartBreak
  assume "pl011_inv s" "uart_ok s e"
  with UartBreak show ?thesis using pl011_put_fifo_ok [of s "0x400"] by (auto simp: pl011_event_break_def)
qed

interpretation uartm: guarded_machine pl011_step uart_ok pl011_inv
  by unfold_locales (rule pl011_step_inv)

definition pl011_pop :: "pl011_state \<Rightarrow> (u32 \<times> pl011_state) option" where
  "pl011_pop s = map_option (\<lambda>(v, t). (ucast v, t)) (pl011_read s 0)"

lemma ucast_32_64: "ucast (ucast (c::u32) :: u64) = c"
  by (rule bit_word_eqI) (simp add: bit_simps)

lemma length_rx_items: "length (rx_items s) = nat (read_count s)"
  by (simp add: rx_items_def)

interpretation rxq: bounded_queue pl011_put_fifo pl011_pop rx_items pl011_inv 16
proof
  fix s x
  assume s: "pl011_inv s" and "length (rx_items s) < 16"
  then have "read_count s < 16" by (simp add: length_rx_items)
  with pl011_put_fifo_ok [OF s, of x]
  show "\<exists>t. pl011_put_fifo s x = Some t \<and> pl011_inv t \<and> rx_items t = rx_items s @ [x]" by blast
next
  fix s x xs
  assume s: "pl011_inv s" and i: "rx_items s = x # xs"
  then have "read_count s \<noteq> 0" using length_rx_items [of s] by auto
  with pl011_read_dr_ok [OF s] i
  show "\<exists>t. pl011_pop s = Some (x, t) \<and> pl011_inv t \<and> rx_items t = xs"
    by (auto simp: pl011_pop_def pl011_read_def ucast_32_64)
next
  fix s
  assume "pl011_inv s"
  then show "length (rx_items s) \<le> 16" by (simp add: length_rx_items pl011_inv_def nat_le_iff)
qed

lemma pl011_init_inv: "pl011_inv (pl011_init c)" "pl011_inv (pl011_luminary_init c)"
  by (simp_all add: pl011_init_def pl011_luminary_init_def pl011_inv_def pl011_id_arm_def
      pl011_id_luminary_def bit_simps)

subsection \<open>Properties\<close>

text \<open>C29: the receive path of the UART. In every state the device can reach, for every sequence of
  characters put into the receive FIFO and reads of the data register that respects the
  capacity of 16, no access leaves the FIFO array and the characters the guest reads are the
  characters received, in order, without loss or duplication.\<close>
theorem pl011_receive_in_order:
  assumes "guarded pl011_step uart_ok (pl011_luminary_init c) es"
    and "exec_list pl011_step (pl011_luminary_init c) es = Some s"
    and "queue_admits 16 (length (rx_items s)) ops"
  shows "\<exists>out t. queue_run pl011_put_fifo pl011_pop s ops = Some (out, t) \<and>
    rx_items s @ pushed ops = out @ rx_items t"
  using rxq.run_fifo [OF uartm.run_keeps [OF pl011_init_inv(2) assms(1,2)] assms(3)] by blast

theorem pl011_receive_in_order_witness:
  "\<exists>out t. queue_run pl011_put_fifo pl011_pop
      (pl011_write (pl011_luminary_init True) 0x2c 0x10) [Push 65, Push 66, Pop] = Some (out, t) \<and>
    rx_items (pl011_write (pl011_luminary_init True) 0x2c 0x10) @ pushed [Push 65, Push 66, Pop]
      = out @ rx_items t"
  by (rule pl011_receive_in_order [where c = True and es = "[UartGuest (MWrite 0x2c 0x10)]"])
     (simp_all add: length_rx_items pl011_write_def pl011_set_read_trigger_def
        pl011_luminary_init_def pl011_init_def)

text \<open>C30: in every state the device can reach from its initialisation through guest accesses,
  characters delivered when \<open>pl011_can_receive\<close> allows it and breaks delivered while the FIFO
  has room, the interrupt line is the masked interrupt level, the receive-empty flag tells
  whether the FIFO is empty, a full FIFO shows the receive-full flag, and the receive
  interrupt is never pending on an empty FIFO.\<close>
theorem pl011_status_follows_fifo:
  assumes "guarded pl011_step uart_ok (pl011_luminary_init c) es"
  shows "\<exists>s. exec_list pl011_step (pl011_luminary_init c) es = Some s \<and>
    pl_irq s = (int_level s AND int_enabled s \<noteq> 0) \<and>
    (bit (pl_flags s) 4 \<longleftrightarrow> rx_items s = []) \<and>
    (length (rx_items s) = 16 \<longrightarrow> bit (pl_flags s) 6) \<and> (bit (int_level s) 4 \<longrightarrow> rx_items s \<noteq> [])"
proof -
  from uartm.run_ok [OF pl011_init_inv(2) assms] obtain s where
    s: "exec_list pl011_step (pl011_luminary_init c) es = Some s" "pl011_inv s" by blast
  have "(rx_items s = []) = (read_count s \<le> 0)" using length_rx_items [of s] by (metis length_0_conv nat_0_iff)
  with s length_rx_items [of s] show ?thesis by (auto simp: pl011_inv_def)
qed

theorem pl011_status_follows_fifo_witness:
  "\<exists>s. exec_list pl011_step (pl011_luminary_init True) [UartReceive 65, UartGuest (MRead 0)] = Some s \<and>
    pl_irq s = (int_level s AND int_enabled s \<noteq> 0) \<and>
    (bit (pl_flags s) 4 \<longleftrightarrow> rx_items s = []) \<and>
    (length (rx_items s) = 16 \<longrightarrow> bit (pl_flags s) 6) \<and> (bit (int_level s) 4 \<longrightarrow> rx_items s \<noteq> [])"
  by (rule pl011_status_follows_fifo) code_simp

text \<open>a break runs over the end of the receive FIFO. \<open>pl011_event\<close> stores the break character
  without asking \<open>pl011_can_receive\<close>. With the FIFO enabled, 15 characters received and read, 16
  more received and two breaks, the second break writes to slot 16 of the 16-entry array.\<close>
theorem pl011_break_overruns_fifo:
  "guarded pl011_step (\<lambda>s e. e = UartBreak \<or> uart_ok s e) (pl011_luminary_init True)
     (UartGuest (MWrite 0x2c 0x10) # concat (replicate 15 [UartReceive 65, UartGuest (MRead 0)])
      @ replicate 16 (UartReceive 66) @ [UartBreak, UartBreak]) \<and>
   exec_list pl011_step (pl011_luminary_init True)
     (UartGuest (MWrite 0x2c 0x10) # concat (replicate 15 [UartReceive 65, UartGuest (MRead 0)])
      @ replicate 16 (UartReceive 66) @ [UartBreak, UartBreak]) = None"
  by code_simp

text \<open>in character mode (FIFO disabled) the receive-full flag is not raised. After one
  character \<open>pl011_can_receive\<close> refuses more, but the flag register, which tests bit 4 of the
  control register instead of the line control register, shows the receiver as not full.\<close>
theorem pl011_character_mode_not_full:
  "\<exists>s. exec_list pl011_step (pl011_luminary_init True) [UartReceive b] = Some s \<and>
    \<not> pl011_can_receive s \<and> \<not> bit (pl_flags s) 6"
  by (simp add: pl011_receive_def pl011_put_fifo_def pl011_luminary_init_def pl011_init_def
      arr_set_Some Let_def pl011_update_def pl011_can_receive_def bit_or_if bit_and_iff bit_simps)

end
