(* ===== verification/Pl061.thy ===== *)
theory Pl061
  imports Interfaces
begin

text \<open>
  The PrimeCell GPIO port, \<^verbatim>\<open>hw/gpio/pl061.c\<close>: 8 pins, each an input or an output.

  The eight output lines are a list of levels. Registers are 32-bit fields as in the code, with
  the 8-bit locals \<open>mask\<close>, \<open>out\<close> and \<open>changed\<close> truncated where the code truncates them.

  The lemmas show that the incremental update of the changed lines keeps the output lines
  equal to the data of the output pins, which pins a masked data write reaches, and what the
  commit lock protects.
\<close>

record pl061_state =
  g_locked :: u32
  g_data :: u32
  g_old_data :: u32
  g_dir :: u32
  g_isense :: u32
  g_ibe :: u32
  g_iev :: u32
  g_im :: u32
  g_istate :: u32
  g_afsel :: u32
  g_dr2r :: u32
  g_dr4r :: u32
  g_dr8r :: u32
  g_odr :: u32
  g_pur :: u32
  g_pdr :: u32
  g_slr :: u32
  g_den :: u32
  g_cr :: u32
  g_amsel :: u32
  g_out :: "bool list"
  g_id :: "u8 list"

definition pl061_id :: "u8 list" where
  "pl061_id = [0x00, 0x00, 0x00, 0x00, 0x61, 0x10, 0x04, 0x00, 0x0d, 0xf0, 0x05, 0xb1]"

definition pl061_id_luminary :: "u8 list" where
  "pl061_id_luminary = [0x00, 0x00, 0x00, 0x00, 0x61, 0x00, 0x18, 0x01, 0x0d, 0xf0, 0x05, 0xb1]"

primrec pl061_drive :: "nat \<Rightarrow> u8 \<Rightarrow> u8 \<Rightarrow> bool list \<Rightarrow> bool list" where
  "pl061_drive 0 changed out lines = lines"
| "pl061_drive (Suc i) changed out lines =
     (let lines = pl061_drive i changed out lines; mask = push_bit i 1 :: u8
      in if changed AND mask \<noteq> 0 then lines[i := (out AND mask \<noteq> 0)] else lines)"

definition pl061_update :: "pl061_state \<Rightarrow> pl061_state" where
  "pl061_update s =
    (let out = ucast ((g_data s AND g_dir s) OR NOT (g_dir s)) :: u8;
         changed = ucast (g_old_data s XOR ucast out) :: u8
     in if changed = 0 then s
        else s\<lparr>g_old_data := ucast out, g_out := pl061_drive 8 changed out (g_out s)\<rparr>)"

definition pl061_read :: "pl061_state \<Rightarrow> hwaddr \<Rightarrow> u64 option" where
  "pl061_read s offset =
    (if 0xfd0 \<le> offset \<and> offset < 0x1000 then
       map_option ucast (arr_get (g_id s) (uint (drop_bit 2 (offset - 0xfd0))))
     else if offset < 0x400 then Some (ucast (g_data s) AND drop_bit 2 offset)
     else if offset = 0x400 then Some (ucast (g_dir s))
     else if offset = 0x404 then Some (ucast (g_isense s))
     else if offset = 0x408 then Some (ucast (g_ibe s))
     else if offset = 0x40c then Some (ucast (g_iev s))
     else if offset = 0x410 then Some (ucast (g_im s))
     else if offset = 0x414 then Some (ucast (g_istate s))
     else if offset = 0x418 then Some (ucast (g_istate s OR g_im s))
     else if offset = 0x420 then Some (ucast (g_afsel s))
     else if offset = 0x500 then Some (ucast (g_dr2r s))
     else if offset = 0x504 then Some (ucast (g_dr4r s))
     else if offset = 0x508 then Some (ucast (g_dr8r s))
     else if offset = 0x50c then Some (ucast (g_odr s))
     else if offset = 0x510 then Some (ucast (g_pur s))
     else if offset = 0x514 then Some (ucast (g_pdr s))
     else if offset = 0x518 then Some (ucast (g_slr s))
     else if offset = 0x51c then Some (ucast (g_den s))
     else if offset = 0x520 then Some (ucast (g_locked s))
     else if offset = 0x524 then Some (ucast (g_cr s))
     else if offset = 0x528 then Some (ucast (g_amsel s))
     else Some 0)"

definition merge_masked :: "u32 \<Rightarrow> u8 \<Rightarrow> u64 \<Rightarrow> u32" where
  "merge_masked old msk value = (old AND NOT (ucast msk)) OR ucast (value AND ucast msk)"

definition pl061_write_data :: "pl061_state \<Rightarrow> hwaddr \<Rightarrow> u64 \<Rightarrow> pl061_state" where
  "pl061_write_data s offset value =
    (let mask = ucast (drop_bit 2 offset AND ucast (g_dir s)) :: u8
     in pl061_update (s\<lparr>g_data := merge_masked (g_data s) mask value\<rparr>))"

definition pl061_write_reg :: "pl061_state \<Rightarrow> hwaddr \<Rightarrow> u64 \<Rightarrow> pl061_state" where
  "pl061_write_reg s offset value =
    (let v = ucast (value AND 0xff) :: u32 in
     if offset = 0x400 then s\<lparr>g_dir := v\<rparr>
     else if offset = 0x404 then s\<lparr>g_isense := v\<rparr>
     else if offset = 0x408 then s\<lparr>g_ibe := v\<rparr>
     else if offset = 0x40c then s\<lparr>g_iev := v\<rparr>
     else if offset = 0x410 then s\<lparr>g_im := v\<rparr>
     else if offset = 0x41c then s\<lparr>g_istate := g_istate s AND NOT (ucast value)\<rparr>
     else if offset = 0x420 then s\<lparr>g_afsel := merge_masked (g_afsel s) (ucast (g_cr s)) value\<rparr>
     else if offset = 0x500 then s\<lparr>g_dr2r := v\<rparr>
     else if offset = 0x504 then s\<lparr>g_dr4r := v\<rparr>
     else if offset = 0x508 then s\<lparr>g_dr8r := v\<rparr>
     else if offset = 0x50c then s\<lparr>g_odr := v\<rparr>
     else if offset = 0x510 then s\<lparr>g_pur := v\<rparr>
     else if offset = 0x514 then s\<lparr>g_pdr := v\<rparr>
     else if offset = 0x518 then s\<lparr>g_slr := v\<rparr>
     else if offset = 0x51c then s\<lparr>g_den := v\<rparr>
     else if offset = 0x520 then s\<lparr>g_locked := (if value \<noteq> 0xacce551 then 1 else 0)\<rparr>
     else if offset = 0x524 then s\<lparr>g_cr := (if g_locked s = 0 then v else g_cr s)\<rparr>
     else if offset = 0x528 then s\<lparr>g_amsel := v\<rparr>
     else s)"

definition pl061_write :: "pl061_state \<Rightarrow> hwaddr \<Rightarrow> u64 \<Rightarrow> pl061_state" where
  "pl061_write s offset value =
    (if offset < 0x400 then pl061_write_data s offset value
     else pl061_update (pl061_write_reg s offset value))"

definition pl061_reset :: "pl061_state \<Rightarrow> pl061_state" where
  "pl061_reset s = s\<lparr>g_locked := 1, g_cr := 0xff\<rparr>"

definition pl061_set_irq :: "pl061_state \<Rightarrow> nat \<Rightarrow> bool \<Rightarrow> pl061_state" where
  "pl061_set_irq s irq level =
    (let mask = push_bit irq 1 :: u8
     in if g_dir s AND ucast mask = 0
        then pl061_update (s\<lparr>g_data := or_if level (ucast mask) (g_data s AND NOT (ucast mask))\<rparr>)
        else s)"

definition pl061_initfn :: "u8 list \<Rightarrow> pl061_state" where
  "pl061_initfn idr = pl061_reset
    \<lparr>g_locked = 0, g_data = 0, g_old_data = 0, g_dir = 0, g_isense = 0, g_ibe = 0, g_iev = 0,
     g_im = 0, g_istate = 0, g_afsel = 0, g_dr2r = 0, g_dr4r = 0, g_dr8r = 0, g_odr = 0, g_pur = 0,
     g_pdr = 0, g_slr = 0, g_den = 0, g_cr = 0, g_amsel = 0, g_out = replicate 8 False, g_id = idr\<rparr>"

definition pl061_luminary_init :: pl061_state where
  "pl061_luminary_init = pl061_initfn pl061_id_luminary"

datatype gpio_event = GpioGuest mmio | GpioPin nat bool

fun pl061_step :: "pl061_state \<Rightarrow> gpio_event \<Rightarrow> pl061_state option" where
  "pl061_step s (GpioGuest e) =
     mmio_step (\<lambda>s a. map_option (\<lambda>v. (v, s)) (pl061_read s a)) (\<lambda>s a v. Some (pl061_write s a v)) s e"
| "pl061_step s (GpioPin i level) = Some (pl061_set_irq s i level)"

fun gpio_ok :: "pl061_state \<Rightarrow> gpio_event \<Rightarrow> bool" where
  "gpio_ok s (GpioGuest e) = True"
| "gpio_ok s (GpioPin i level) = (i < 8)"

definition pl061_inv :: "pl061_state \<Rightarrow> bool" where
  "pl061_inv s \<longleftrightarrow> length (g_out s) = 8 \<and> length (g_id s) = 12 \<and>
     (\<forall>i<8. g_out s ! i = bit (g_old_data s) i)"

definition pl061_synced :: "pl061_state \<Rightarrow> bool" where
  "pl061_synced s \<longleftrightarrow> (\<forall>i<8. g_out s ! i = (bit (g_dir s) i \<longrightarrow> bit (g_data s) i))"

subsection \<open>The output lines\<close>

lemma mask_test: "i < 8 \<Longrightarrow> (w::u8) AND push_bit i 1 \<noteq> 0 \<longleftrightarrow> bit w i"
  using word_and_exp_eq_0 [of "2 ^ i" i w] by (simp add: push_bit_eq_mult)

lemma length_pl061_drive [simp]: "length (pl061_drive n changed out lines) = length lines"
  by (induction n) (simp_all add: Let_def)

lemma pl061_drive_nth:
  "n \<le> 8 \<Longrightarrow> length lines = 8 \<Longrightarrow> i < 8 \<Longrightarrow>
   pl061_drive n changed out lines ! i = (if i < n \<and> bit changed i then bit out i else lines ! i)"
proof (induction n)
  case (Suc n)
  then have n: "n < 8" by simp
  with Suc show ?case
    by (auto simp: Let_def mask_test [OF n] nth_list_update less_Suc_eq simp del: push_bit_of_1)
qed simp

lemma pl061_update_ok:
  assumes "pl061_inv s"
  shows "pl061_inv (pl061_update s)" "pl061_synced (pl061_update s)"
proof -
  define out where "out = (ucast ((g_data s AND g_dir s) OR NOT (g_dir s)) :: u8)"
  define ch where "ch = (ucast (g_old_data s XOR ucast out) :: u8)"
  have o: "bit out i = (bit (g_dir s) i \<longrightarrow> bit (g_data s) i)" if "i < 8" for i
    using that by (auto simp: out_def bit_simps)
  have c: "bit ch i = (bit (g_old_data s) i \<noteq> bit out i)" if "i < 8" for i
    using that by (auto simp: ch_def bit_simps)
  have l: "length (g_out s) = 8" "length (g_id s) = 12" "\<forall>i<8. g_out s ! i = bit (g_old_data s) i"
    using assms by (simp_all add: pl061_inv_def)
  have u: "pl061_update s = (if ch = 0 then s
      else s\<lparr>g_old_data := ucast out, g_out := pl061_drive 8 ch out (g_out s)\<rparr>)"
    by (simp add: pl061_update_def Let_def out_def ch_def)
  have "pl061_drive 8 ch out (g_out s) ! i = bit out i" if "i < 8" for i
    using pl061_drive_nth [of 8 "g_out s" i ch out] that l c [OF that] by auto
  moreover have "g_out s ! i = bit out i" if "ch = 0" "i < 8" for i
    using c [OF that(2)] that l by simp
  moreover have "bit (ucast out :: u32) i = bit out i" if "i < 8" for i
    using that by (simp add: bit_simps)
  ultimately show "pl061_inv (pl061_update s)" "pl061_synced (pl061_update s)"
    using l o by (auto simp: u pl061_inv_def pl061_synced_def)
qed

lemma pl061_data_inv: "pl061_inv (s\<lparr>g_data := d\<rparr>) = pl061_inv s"
  by (simp add: pl061_inv_def)

lemma pl061_write_reg_inv: "pl061_inv s \<Longrightarrow> pl061_inv (pl061_write_reg s a v)"
  unfolding pl061_write_reg_def Let_def
  by (intro if_keeps [of pl061_inv]) (simp_all add: pl061_inv_def)

lemma pl061_write_ok:
  assumes "pl061_inv s"
  shows "pl061_inv (pl061_write s a v)" "pl061_synced (pl061_write s a v)"
  using assms by (simp_all add: pl061_write_def pl061_write_data_def Let_def pl061_update_ok
      pl061_data_inv pl061_write_reg_inv)

lemma pl061_set_irq_ok:
  assumes "pl061_inv s"
  shows "pl061_inv (pl061_set_irq s i b)" "pl061_synced s \<Longrightarrow> pl061_synced (pl061_set_irq s i b)"
  using assms by (simp_all add: pl061_set_irq_def Let_def pl061_update_ok pl061_data_inv)

lemma pl061_read_ok: "pl061_inv s \<Longrightarrow> \<exists>v. pl061_read s a = Some v"
proof -
  assume "pl061_inv s"
  then have l: "length (g_id s) = 12" by (simp add: pl061_inv_def)
  have "unat (drop_bit 2 (a - 0xfd0)) < 12" if "0xfd0 \<le> a" "a < 0x1000"
  proof -
    have "unat (a - 0xfd0) = unat a - 0xfd0" using that by (simp add: unat_sub)
    moreover have "unat a < 0x1000" using that by (simp add: word_less_nat_alt)
    ultimately have "unat (a - 0xfd0) div 4 < 12" by linarith
    then show ?thesis by (simp add: unat_drop_bit_div)
  qed
  then have "arr_get (g_id s) (uint (drop_bit 2 (a - 0xfd0))) \<noteq> None" if "0xfd0 \<le> a" "a < 0x1000"
    using that l by (simp only: arr_get_uint option.simps simp_thms)
  then show ?thesis by (auto simp: pl061_read_def)
qed

interpretation gpio: mmio_device "\<lambda>s a. map_option (\<lambda>v. (v, s)) (pl061_read s a)"
    "\<lambda>s a v. Some (pl061_write s a v)" pl061_inv
  by unfold_locales (use pl061_read_ok in \<open>force simp: pl061_write_ok\<close>)+

lemma pl061_step_inv: "pl061_inv s \<Longrightarrow> \<exists>t. pl061_step s e = Some t \<and> pl061_inv t"
proof (cases e)
  case (GpioGuest m)
  assume "pl061_inv s"
  from gpio.access_ok [OF this, of m] GpioGuest show ?thesis by simp
qed (simp add: pl061_set_irq_ok)

interpretation gpiom: guarded_machine pl061_step gpio_ok "\<lambda>s. pl061_inv s \<and> pl061_synced s"
proof
  fix s e
  assume s: "pl061_inv s \<and> pl061_synced s"
  then obtain t where t: "pl061_step s e = Some t" "pl061_inv t" using pl061_step_inv by blast
  have "pl061_synced t"
  proof (cases e)
    case (GpioGuest m)
    with s t(1) show ?thesis by (cases m) (auto simp: pl061_write_ok)
  next
    case (GpioPin i b)
    with s t(1) show ?thesis by (auto simp: pl061_set_irq_ok)
  qed
  with t show "\<exists>t. pl061_step s e = Some t \<and> pl061_inv t \<and> pl061_synced t" by blast
qed

lemma pl061_init_inv: "pl061_inv pl061_luminary_init"
  by (simp add: pl061_luminary_init_def pl061_initfn_def pl061_reset_def pl061_inv_def pl061_id_luminary_def)

lemma bit_merge_masked:
  "bit (merge_masked old msk v) i \<longleftrightarrow> (if i < 8 \<and> bit msk i then bit v i else bit old i)"
  by (auto simp: merge_masked_def bit_simps dest: bit_imp_le_length)

lemma pl061_update_same [simp]:
  "g_data (pl061_update s) = g_data s" "g_dir (pl061_update s) = g_dir s" "g_cr (pl061_update s) = g_cr s"
  "g_afsel (pl061_update s) = g_afsel s" "g_locked (pl061_update s) = g_locked s"
  by (simp_all add: pl061_update_def Let_def)

definition unlock_write :: "gpio_event \<Rightarrow> bool" where
  "unlock_write e \<longleftrightarrow> (\<exists>v. e = GpioGuest (MWrite 0x520 v))"

lemma pl061_locked_step:
  assumes "g_locked s \<noteq> 0" "\<not> unlock_write e" "pl061_step s e = Some t"
  shows "g_locked t \<noteq> 0 \<and> g_cr t = g_cr s \<and> (\<forall>i. bit (g_cr s) i \<or> bit (g_afsel t) i = bit (g_afsel s) i)"
proof (cases e)
  case (GpioPin i b)
  with assms show ?thesis by (auto simp: pl061_set_irq_def Let_def split: if_splits)
next
  case (GpioGuest m)
  show ?thesis
  proof (cases m)
    case (MRead a)
    with GpioGuest assms show ?thesis by auto
  next
    case (MWrite a v)
    with GpioGuest assms have "a \<noteq> 0x520" "t = pl061_write s a v" by (auto simp: unlock_write_def)
    moreover have "g_locked (pl061_write_reg s a v) \<noteq> 0 \<and> g_cr (pl061_write_reg s a v) = g_cr s \<and>
        (\<forall>i. bit (g_cr s) i \<or> bit (g_afsel (pl061_write_reg s a v)) i = bit (g_afsel s) i)"
      if "a \<noteq> 0x520"
      using that assms(1) by (simp add: pl061_write_reg_def Let_def bit_merge_masked bit_ucast_iff)
    ultimately show ?thesis
      using assms(1) by (simp add: pl061_write_def pl061_write_data_def Let_def)
  qed
qed

lemma pl061_locked_run:
  assumes "g_locked s \<noteq> 0" "list_all (\<lambda>e. \<not> unlock_write e) es" "exec_list pl061_step s es = Some t"
  shows "g_cr t = g_cr s \<and> (\<forall>i. bit (g_cr s) i \<or> bit (g_afsel t) i = bit (g_afsel s) i)"
  using assms
proof (induction es arbitrary: s)
  case (Cons e es)
  then obtain u where u: "pl061_step s e = Some u" "exec_list pl061_step u es = Some t"
    by (auto split: bind_splits)
  have "\<not> unlock_write e" using Cons.prems(2) by simp
  note k = pl061_locked_step [OF Cons.prems(1) this u(1)]
  have "g_cr t = g_cr u \<and> (\<forall>i. bit (g_cr u) i \<or> bit (g_afsel t) i = bit (g_afsel u) i)"
    using Cons.IH [of u] Cons.prems(2) u(2) k by simp
  with k show ?case by auto
qed simp

subsection \<open>Properties\<close>

text \<open>C31: the output lines. After the first guest write, and whatever the guest and the input pins do
  afterwards, every access is defined and each of the eight output lines carries the data bit
  of its pin if the pin is an output and floats high if it is an input, although the update
  only drives lines whose value changed.\<close>
theorem pl061_outputs_follow_data:
  assumes "guarded pl061_step gpio_ok (pl061_write pl061_luminary_init a v) es"
  shows "\<exists>s. exec_list pl061_step pl061_luminary_init (GpioGuest (MWrite a v) # es) = Some s \<and>
    (\<forall>i<8. g_out s ! i = (if bit (g_dir s) i then bit (g_data s) i else True))"
proof -
  from gpiom.run_ok [OF _ assms] pl061_write_ok [OF pl061_init_inv] obtain s
    where "exec_list pl061_step (pl061_write pl061_luminary_init a v) es = Some s" "pl061_synced s" by blast
  then show ?thesis by (auto simp: pl061_synced_def)
qed

theorem pl061_outputs_follow_data_witness:
  "\<exists>s. exec_list pl061_step pl061_luminary_init
      (GpioGuest (MWrite 0x400 0x0f) # [GpioGuest (MWrite 0x3fc 0x05), GpioPin 7 True]) = Some s \<and>
    (\<forall>i<8. g_out s ! i = (if bit (g_dir s) i then bit (g_data s) i else True))"
  by (rule pl061_outputs_follow_data) simp

text \<open>a write in the data window changes exactly the pins selected by address bits 9 to 2 that
  are outputs, and gives them the bits of the written value.\<close>
theorem pl061_masked_write:
  assumes "a < 0x400"
  shows "bit (g_data (pl061_write s a v)) i =
    (if i < 8 \<and> bit a (i + 2) \<and> bit (g_dir s) i then bit v i else bit (g_data s) i)"
proof -
  have "bit (ucast (drop_bit 2 a AND ucast (g_dir s)) :: u8) i = (bit a (i + 2) \<and> bit (g_dir s) i)" if "i < 8"
    using that by (simp only: bit_ucast_iff bit_and_iff bit_drop_bit_eq) (auto simp: add.commute)
  moreover have "g_data (pl061_write s a v)
      = merge_masked (g_data s) (ucast (drop_bit 2 a AND ucast (g_dir s))) v"
    using assms by (simp add: pl061_write_def pl061_write_data_def Let_def)
  ultimately show ?thesis by (auto simp: bit_merge_masked)
qed

theorem pl061_masked_write_witness:
  "bit (g_data (pl061_write (pl061_luminary_init\<lparr>g_dir := 0xff\<rparr>) 0x10 0xff)) 2 =
    (if 2 < (8::nat) \<and> bit (0x10::hwaddr) (2 + 2) \<and> bit (g_dir (pl061_luminary_init\<lparr>g_dir := 0xff\<rparr>)) 2
     then bit (0xff::u64) 2 else bit (g_data (pl061_luminary_init\<lparr>g_dir := 0xff\<rparr>)) 2)"
  by (rule pl061_masked_write) simp

text \<open>C32: the commit lock. While the port is locked and the guest does not write the lock register,
  no sequence of accesses and pin changes alters the commit register or the alternate
  function bits it does not release.\<close>
theorem pl061_commit_lock:
  assumes "g_locked s \<noteq> 0" and "list_all (\<lambda>e. \<not> unlock_write e) es"
    and "exec_list pl061_step s es = Some t"
  shows "g_cr t = g_cr s \<and> (\<forall>i. bit (g_cr s) i \<or> bit (g_afsel t) i = bit (g_afsel s) i)"
  using assms by (rule pl061_locked_run)

theorem pl061_commit_lock_witness:
  "\<exists>t. exec_list pl061_step (pl061_luminary_init\<lparr>g_cr := 0x0f\<rparr>)
      [GpioGuest (MWrite 0x524 0xff), GpioGuest (MWrite 0x420 0xff)] = Some t \<and>
    g_cr t = 0x0f \<and> (\<forall>i. bit (0x0f::u32) i \<or> bit (g_afsel t) i = bit (0::u32) i)"
proof -
  let ?s = "pl061_luminary_init\<lparr>g_cr := 0x0f\<rparr>"
  let ?es = "[GpioGuest (MWrite 0x524 0xff), GpioGuest (MWrite 0x420 0xff)]"
  obtain t where t: "exec_list pl061_step ?s ?es = Some t" by simp
  have "g_locked ?s \<noteq> 0" "g_cr ?s = 0x0f" "g_afsel ?s = 0"
    by (simp_all add: pl061_luminary_init_def pl061_initfn_def pl061_reset_def)
  moreover have "list_all (\<lambda>e. \<not> unlock_write e) ?es" by (simp add: unlock_write_def)
  ultimately show ?thesis using pl061_commit_lock [OF _ _ t] t by (metis (no_types, lifting))
qed

text \<open>the masked interrupt status register is not masked: it reads as the disjunction of the raw
  status and the mask, so enabling all interrupts makes all of them appear pending.\<close>
theorem pl061_masked_status_wrong:
  "pl061_read (pl061_write pl061_luminary_init 0x410 0xff) 0x414 = Some 0 \<and>
   pl061_read (pl061_write pl061_luminary_init 0x410 0xff) 0x418 = Some 0xff"
  by code_simp

end
