(* ===== verification/Fifo8.thy ===== *)
theory Fifo8
  imports Interfaces HostUtils
begin

text \<open>
  The byte FIFO of \<^verbatim>\<open>util/fifo8.c\<close>: a circular buffer whose indices are 32-bit unsigned
  integers. \<open>abort()\<close> on overflow or underflow, an index outside the buffer and a remainder by
  zero are \<open>None\<close>. The lemmas show that a FIFO of a capacity up to \<open>2\<^sup>3\<^sup>1\<close> is a queue of
  that capacity: beyond that, \<open>head + num\<close> can wrap.
\<close>

record Fifo8 =
  f8_data :: "u8 list"
  f8_capacity :: u32
  f8_head :: u32
  f8_num :: u32

definition fifo8_create :: "u8 list \<Rightarrow> u32 \<Rightarrow> Fifo8" where
  "fifo8_create mem capacity = \<lparr>f8_data = mem, f8_capacity = capacity, f8_head = 0, f8_num = 0\<rparr>"

definition fifo8_push :: "Fifo8 \<Rightarrow> u8 \<Rightarrow> Fifo8 option" where
  "fifo8_push fifo b =
    (if f8_num fifo = f8_capacity fifo \<or> f8_capacity fifo = 0 then None
     else do { mem \<leftarrow> arr_set (f8_data fifo) (uint ((f8_head fifo + f8_num fifo) mod f8_capacity fifo)) b;
               Some (fifo\<lparr>f8_data := mem, f8_num := f8_num fifo + 1\<rparr>) })"

definition fifo8_pop :: "Fifo8 \<Rightarrow> (u8 \<times> Fifo8) option" where
  "fifo8_pop fifo =
    (if f8_num fifo = 0 \<or> f8_capacity fifo = 0 then None
     else do { ret \<leftarrow> arr_get (f8_data fifo) (uint (f8_head fifo));
               Some (ret, fifo\<lparr>f8_head := (f8_head fifo + 1) mod f8_capacity fifo,
                              f8_num := f8_num fifo - 1\<rparr>) })"

definition fifo8_reset :: "Fifo8 \<Rightarrow> Fifo8" where
  "fifo8_reset fifo = fifo\<lparr>f8_num := 0\<rparr>"

definition fifo8_is_empty :: "Fifo8 \<Rightarrow> bool" where
  "fifo8_is_empty fifo = (f8_num fifo = 0)"

definition fifo8_is_full :: "Fifo8 \<Rightarrow> bool" where
  "fifo8_is_full fifo = (f8_num fifo = f8_capacity fifo)"

definition fifo8_items :: "Fifo8 \<Rightarrow> u8 list" where
  "fifo8_items fifo = ring_list (f8_data fifo) (unat (f8_head fifo)) (unat (f8_num fifo))"

definition fifo8_inv :: "nat \<Rightarrow> Fifo8 \<Rightarrow> bool" where
  "fifo8_inv c fifo \<longleftrightarrow> 0 < c \<and> c \<le> 2 ^ 31 \<and> length (f8_data fifo) = c \<and> unat (f8_capacity fifo) = c \<and>
     unat (f8_head fifo) < c \<and> unat (f8_num fifo) \<le> c"

lemma fifo8_push_ok:
  assumes "fifo8_inv c fifo" "unat (f8_num fifo) < c"
  shows "\<exists>t. fifo8_push fifo b = Some t \<and> fifo8_inv c t \<and> fifo8_items t = fifo8_items fifo @ [b]"
proof -
  let ?h = "unat (f8_head fifo)" and ?n = "unat (f8_num fifo)"
  have i: "0 < c" "c \<le> 2 ^ 31" "length (f8_data fifo) = c" "unat (f8_capacity fifo) = c" "?h < c"
    using assms(1) by (simp_all add: fifo8_inv_def)
  have "?h + ?n < 2 ^ LENGTH(32)" "?n + unat (1::u32) < 2 ^ LENGTH(32)" using i assms(2) by simp_all
  note u = unat_word_add [OF this(1)] unat_word_add [OF this(2)]
  have idx: "unat ((f8_head fifo + f8_num fifo) mod f8_capacity fifo) = (?h + ?n) mod c"
    by (simp only: unat_mod u i(4))
  then have uidx: "uint ((f8_head fifo + f8_num fifo) mod f8_capacity fifo) = int ((?h + ?n) mod c)"
    by (simp only: uint_nat)
  have ne: "f8_num fifo \<noteq> f8_capacity fifo" "f8_capacity fifo \<noteq> 0" using assms(2) i by auto
  have "fifo8_push fifo b = Some (fifo\<lparr>f8_data := (f8_data fifo)[(?h + ?n) mod c := b],
      f8_num := f8_num fifo + 1\<rparr>)"
    using ne i by (simp add: fifo8_push_def uidx arr_set_Some)
  then show ?thesis
    using i assms u(2) ring_list_enq [of ?n "f8_data fifo" ?h b] by (simp add: fifo8_inv_def fifo8_items_def)
qed

lemma fifo8_pop_ok:
  assumes "fifo8_inv c fifo" "fifo8_items fifo = x # xs"
  shows "\<exists>t. fifo8_pop fifo = Some (x, t) \<and> fifo8_inv c t \<and> fifo8_items t = xs"
proof -
  let ?h = "unat (f8_head fifo)" and ?n = "unat (f8_num fifo)"
  have i: "0 < c" "c \<le> 2 ^ 31" "length (f8_data fifo) = c" "unat (f8_capacity fifo) = c" "?h < c" "?n \<le> c"
    using assms(1) by (simp_all add: fifo8_inv_def)
  have "length (fifo8_items fifo) = ?n" by (simp add: fifo8_items_def)
  then have "?n \<noteq> 0" unfolding assms(2) by simp
  then have n: "?n = Suc (unat (f8_num fifo - 1))"
    by (metis Suc_pred' neq0_conv unat_0 unat_minus_one)
  have "unat (f8_head fifo) + unat (1::u32) < 2 ^ LENGTH(32)" using i by simp
  note u = unat_word_add [OF this]
  have h: "unat ((f8_head fifo + 1) mod f8_capacity fifo) = Suc ?h mod c"
    using u by (simp only: unat_mod i(4)) simp
  have x: "x = f8_data fifo ! ?h" "xs = ring_list (f8_data fifo) (Suc ?h mod c) (unat (f8_num fifo - 1))"
    using assms(2) i ring_list_mod [of "f8_data fifo" "Suc ?h"]
    by (simp_all only: fifo8_items_def n ring_list_Cons list.inject) simp_all
  have z: "f8_num fifo \<noteq> 0" "f8_capacity fifo \<noteq> 0" using \<open>?n \<noteq> 0\<close> i by auto
  have "fifo8_pop fifo = Some (x, fifo\<lparr>f8_head := (f8_head fifo + 1) mod f8_capacity fifo,
      f8_num := f8_num fifo - 1\<rparr>)"
    using z i(3,5) x(1) by (simp add: fifo8_pop_def arr_get_uint)
  moreover have "Suc ?h mod c < c" using i by simp
  ultimately show ?thesis
    using i n x(2) h by (simp add: fifo8_inv_def fifo8_items_def)
qed

interpretation f8q: bounded_queue fifo8_push fifo8_pop fifo8_items "fifo8_inv c" c for c
proof
  fix s x
  assume "fifo8_inv c s" "length (fifo8_items s) < c"
  then show "\<exists>t. fifo8_push s x = Some t \<and> fifo8_inv c t \<and> fifo8_items t = fifo8_items s @ [x]"
    by (intro fifo8_push_ok) (simp_all add: fifo8_items_def)
next
  fix s x xs
  assume "fifo8_inv c s" "fifo8_items s = x # xs"
  then show "\<exists>t. fifo8_pop s = Some (x, t) \<and> fifo8_inv c t \<and> fifo8_items t = xs" by (rule fifo8_pop_ok)
next
  fix s
  assume "fifo8_inv c s"
  then show "length (fifo8_items s) \<le> c" by (simp add: fifo8_items_def fifo8_inv_def)
qed

lemma fifo8_tests:
  assumes "fifo8_inv c fifo"
  shows "fifo8_is_empty fifo \<longleftrightarrow> fifo8_items fifo = []" "fifo8_is_full fifo \<longleftrightarrow> length (fifo8_items fifo) = c"
proof -
  have "length (fifo8_items fifo) = unat (f8_num fifo)" by (simp add: fifo8_items_def)
  then have "(fifo8_items fifo = []) = (unat (f8_num fifo) = 0)" by (metis length_0_conv)
  then show "fifo8_is_empty fifo \<longleftrightarrow> fifo8_items fifo = []" by (simp add: fifo8_is_empty_def unat_eq_0)
  show "fifo8_is_full fifo \<longleftrightarrow> length (fifo8_items fifo) = c"
    using assms by (simp add: fifo8_is_full_def fifo8_items_def fifo8_inv_def word_unat_eq_iff)
qed

lemma fifo8_create_inv:
  "length mem = unat c \<Longrightarrow> 0 < c \<Longrightarrow> unat c \<le> 2 ^ 31 \<Longrightarrow>
   fifo8_inv (unat c) (fifo8_create mem c) \<and> fifo8_items (fifo8_create mem c) = []"
  by (simp add: fifo8_inv_def fifo8_create_def fifo8_items_def word_less_nat_alt)

lemma fifo8_reset_ok: "fifo8_inv c fifo \<Longrightarrow> fifo8_inv c (fifo8_reset fifo) \<and> fifo8_items (fifo8_reset fifo) = []"
  by (simp add: fifo8_inv_def fifo8_reset_def fifo8_items_def)

text \<open>C19: a FIFO of a capacity between 1 and \<open>2\<^sup>3\<^sup>1\<close> is a queue: every sequence of pushes and pops
  that neither overflows nor underflows it runs without abort and without leaving the buffer,
  and pops the bytes in the order in which they were pushed; afterwards the empty and full
  tests tell the number of bytes in it.\<close>
theorem fifo8_is_queue:
  assumes "length mem = unat c" and "0 < c" and "unat c \<le> 2 ^ 31" and "queue_admits (unat c) 0 ops"
  shows "\<exists>out t. queue_run fifo8_push fifo8_pop (fifo8_create mem c) ops = Some (out, t) \<and>
    pushed ops = out @ fifo8_items t \<and> fifo8_is_empty t = (fifo8_items t = []) \<and>
    fifo8_is_full t = (length (fifo8_items t) = unat c)"
proof -
  from fifo8_create_inv [OF assms(1-3)] have i: "fifo8_inv (unat c) (fifo8_create mem c)"
    "fifo8_items (fifo8_create mem c) = []" by blast+
  with f8q.run_fifo [OF i(1)] assms(4) fifo8_tests show ?thesis by fastforce
qed

theorem fifo8_is_queue_witness:
  "\<exists>out t. queue_run fifo8_push fifo8_pop (fifo8_create [0, 0] 2) [Push 7, Push 8, Pop, Push 9] = Some (out, t) \<and>
    pushed [Push 7, Push 8, Pop, Push 9] = out @ fifo8_items t \<and> fifo8_is_empty t = (fifo8_items t = []) \<and>
    fifo8_is_full t = (length (fifo8_items t) = unat (2::u32))"
  by (rule fifo8_is_queue) simp_all

end
