(* ===== verification/Gic.thy ===== *)
theory Gic
  imports Interfaces
begin

text \<open>
  The interrupt controller of \<^verbatim>\<open>hw/intc/arm_gic.c\<close>, \<^verbatim>\<open>hw/intc/arm_gic_common.c\<close> and
  \<^verbatim>\<open>hw/intc/gic_internal.h\<close>, on which the NVIC of the board is built.

  The record has the fields of \<open>GICState\<close>; every array is a list that is read and written with
  bounds checks, so \<open>None\<close> is an access outside an array. The number of the accessing CPU
  (\<open>current_cpu->cpu_index\<close>) is an argument. The macros of \<^verbatim>\<open>gic_internal.h\<close> keep their names.
  The loop of \<open>gic_complete_irq\<close> that walks the list of active interrupts may not end; it is a
  partial function whose value is then \<open>None\<close>.
\<close>

record gic_irq_state =
  gi_enabled :: u8
  gi_pending :: u8
  gi_active :: u8
  gi_level :: u8
  gi_model :: bool
  gi_trigger :: bool

record GICState =
  gic_parent_irq :: "bool list"
  gic_enabled :: bool
  gic_cpu_enabled :: "bool list"
  gic_irqs :: "gic_irq_state list"
  gic_irq_target :: "u8 list"
  gic_priority1 :: "u8 list list"
  gic_priority2 :: "u8 list"
  gic_last_active :: "u16 list list"
  gic_priority_mask :: "u16 list"
  gic_running_irq :: "u16 list"
  gic_running_priority :: "u16 list"
  gic_current_pending :: "u16 list"
  gic_num_cpu :: nat
  gic_num_irq :: nat
  gic_revision :: u32

abbreviation GIC_MAXIRQ :: nat where "GIC_MAXIRQ \<equiv> 1020"
abbreviation GIC_INTERNAL :: nat where "GIC_INTERNAL \<equiv> 32"
abbreviation NCPU :: nat where "NCPU \<equiv> 8"
abbreviation ALL_CPU_MASK :: u8 where "ALL_CPU_MASK \<equiv> 0xff"
abbreviation REV_11MPCORE :: u32 where "REV_11MPCORE \<equiv> 0"
abbreviation REV_NVIC :: u32 where "REV_NVIC \<equiv> 0xffffffff"
abbreviation NO_IRQ :: nat where "NO_IRQ \<equiv> 1023"

definition cpu_bit :: "nat \<Rightarrow> u8" where
  "cpu_bit cpu = push_bit cpu 1"

definition GIC_BASE_IRQ :: "GICState \<Rightarrow> nat" where
  "GIC_BASE_IRQ s = (if gic_revision s = REV_NVIC then 32 else 0)"

definition gic_mod :: "GICState \<Rightarrow> nat \<Rightarrow> (gic_irq_state \<Rightarrow> gic_irq_state) \<Rightarrow> GICState option" where
  "gic_mod s irq f =
    do { i \<leftarrow> nth_opt (gic_irqs s) irq; Some (s\<lparr>gic_irqs := (gic_irqs s)[irq := f i]\<rparr>) }"

definition gic_test :: "GICState \<Rightarrow> nat \<Rightarrow> (gic_irq_state \<Rightarrow> bool) \<Rightarrow> bool option" where
  "gic_test s irq P = map_option P (nth_opt (gic_irqs s) irq)"

definition GIC_SET_ENABLED :: "GICState \<Rightarrow> nat \<Rightarrow> u8 \<Rightarrow> GICState option" where
  "GIC_SET_ENABLED s irq cm = gic_mod s irq (\<lambda>i. i\<lparr>gi_enabled := gi_enabled i OR cm\<rparr>)"

definition GIC_CLEAR_ENABLED :: "GICState \<Rightarrow> nat \<Rightarrow> u8 \<Rightarrow> GICState option" where
  "GIC_CLEAR_ENABLED s irq cm = gic_mod s irq (\<lambda>i. i\<lparr>gi_enabled := gi_enabled i AND NOT cm\<rparr>)"

definition GIC_TEST_ENABLED :: "GICState \<Rightarrow> nat \<Rightarrow> u8 \<Rightarrow> bool option" where
  "GIC_TEST_ENABLED s irq cm = gic_test s irq (\<lambda>i. gi_enabled i AND cm \<noteq> 0)"

definition GIC_SET_PENDING :: "GICState \<Rightarrow> nat \<Rightarrow> u8 \<Rightarrow> GICState option" where
  "GIC_SET_PENDING s irq cm = gic_mod s irq (\<lambda>i. i\<lparr>gi_pending := gi_pending i OR cm\<rparr>)"

definition GIC_CLEAR_PENDING :: "GICState \<Rightarrow> nat \<Rightarrow> u8 \<Rightarrow> GICState option" where
  "GIC_CLEAR_PENDING s irq cm = gic_mod s irq (\<lambda>i. i\<lparr>gi_pending := gi_pending i AND NOT cm\<rparr>)"

definition GIC_TEST_PENDING :: "GICState \<Rightarrow> nat \<Rightarrow> u8 \<Rightarrow> bool option" where
  "GIC_TEST_PENDING s irq cm = gic_test s irq (\<lambda>i. gi_pending i AND cm \<noteq> 0)"

definition GIC_TEST_ACTIVE :: "GICState \<Rightarrow> nat \<Rightarrow> u8 \<Rightarrow> bool option" where
  "GIC_TEST_ACTIVE s irq cm = gic_test s irq (\<lambda>i. gi_active i AND cm \<noteq> 0)"

definition GIC_PUT_MODEL :: "GICState \<Rightarrow> nat \<Rightarrow> bool \<Rightarrow> GICState option" where
  "GIC_PUT_MODEL s irq b = gic_mod s irq (\<lambda>i. i\<lparr>gi_model := b\<rparr>)"

definition GIC_TEST_MODEL :: "GICState \<Rightarrow> nat \<Rightarrow> bool option" where
  "GIC_TEST_MODEL s irq = gic_test s irq gi_model"

definition GIC_SET_LEVEL :: "GICState \<Rightarrow> nat \<Rightarrow> u8 \<Rightarrow> GICState option" where
  "GIC_SET_LEVEL s irq cm = gic_mod s irq (\<lambda>i. i\<lparr>gi_level := cm\<rparr>)"

definition GIC_CLEAR_LEVEL :: "GICState \<Rightarrow> nat \<Rightarrow> u8 \<Rightarrow> GICState option" where
  "GIC_CLEAR_LEVEL s irq cm = gic_mod s irq (\<lambda>i. i\<lparr>gi_level := gi_level i AND NOT cm\<rparr>)"

definition GIC_TEST_LEVEL :: "GICState \<Rightarrow> nat \<Rightarrow> u8 \<Rightarrow> bool option" where
  "GIC_TEST_LEVEL s irq cm = gic_test s irq (\<lambda>i. gi_level i AND cm \<noteq> 0)"

definition GIC_PUT_TRIGGER :: "GICState \<Rightarrow> nat \<Rightarrow> bool \<Rightarrow> GICState option" where
  "GIC_PUT_TRIGGER s irq b = gic_mod s irq (\<lambda>i. i\<lparr>gi_trigger := b\<rparr>)"

definition GIC_TEST_TRIGGER :: "GICState \<Rightarrow> nat \<Rightarrow> bool option" where
  "GIC_TEST_TRIGGER s irq = gic_test s irq gi_trigger"

definition GIC_GET_PRIORITY :: "GICState \<Rightarrow> nat \<Rightarrow> nat \<Rightarrow> nat option" where
  "GIC_GET_PRIORITY s irq cpu =
    (if irq < GIC_INTERNAL then do { row \<leftarrow> nth_opt (gic_priority1 s) irq; p \<leftarrow> nth_opt row cpu; Some (unat p) }
     else map_option unat (nth_opt (gic_priority2 s) (irq - GIC_INTERNAL)))"

definition GIC_TARGET :: "GICState \<Rightarrow> nat \<Rightarrow> u8 option" where
  "GIC_TARGET s irq = nth_opt (gic_irq_target s) irq"

definition gic_get_current_cpu :: "GICState \<Rightarrow> nat \<Rightarrow> nat" where
  "gic_get_current_cpu s cur = (if gic_num_cpu s > 1 then cur else 0)"

subsection \<open>Choice of the interrupt to signal\<close>

primrec gic_best :: "GICState \<Rightarrow> nat \<Rightarrow> nat \<Rightarrow> (nat \<times> nat) option" where
  "gic_best s cpu 0 = Some (0x100, NO_IRQ)"
| "gic_best s cpu (Suc irq) =
    do { (best_prio, best_irq) \<leftarrow> gic_best s cpu irq;
         e \<leftarrow> GIC_TEST_ENABLED s irq (cpu_bit cpu);
         p \<leftarrow> GIC_TEST_PENDING s irq (cpu_bit cpu);
         if e \<and> p then
           do { prio \<leftarrow> GIC_GET_PRIORITY s irq cpu;
                Some (if prio < best_prio then (prio, irq) else (best_prio, best_irq)) }
         else Some (best_prio, best_irq) }"

definition gic_put_pending :: "GICState \<Rightarrow> nat \<Rightarrow> nat \<Rightarrow> GICState option" where
  "gic_put_pending s cpu irq =
    do { xs \<leftarrow> set_opt (gic_current_pending s) cpu (word_of_nat irq); Some (s\<lparr>gic_current_pending := xs\<rparr>) }"

definition gic_put_parent_irq :: "GICState \<Rightarrow> nat \<Rightarrow> bool \<Rightarrow> GICState option" where
  "gic_put_parent_irq s cpu level =
    do { xs \<leftarrow> set_opt (gic_parent_irq s) cpu level; Some (s\<lparr>gic_parent_irq := xs\<rparr>) }"

fun gic_update_loop :: "GICState \<Rightarrow> nat list \<Rightarrow> GICState option" where
  "gic_update_loop s [] = Some s"
| "gic_update_loop s (cpu # cpus) =
    do { s \<leftarrow> gic_put_pending s cpu NO_IRQ;
         ce \<leftarrow> nth_opt (gic_cpu_enabled s) cpu;
         if \<not> gic_enabled s \<or> \<not> ce then gic_put_parent_irq s cpu False
         else do {
           (best_prio, best_irq) \<leftarrow> gic_best s cpu (gic_num_irq s);
           pm \<leftarrow> nth_opt (gic_priority_mask s) cpu;
           rp \<leftarrow> nth_opt (gic_running_priority s) cpu;
           s \<leftarrow> (if best_prio < unat pm then gic_put_pending s cpu best_irq else Some s);
           s \<leftarrow> gic_put_parent_irq s cpu (best_prio < unat pm \<and> best_prio < unat rp);
           gic_update_loop s cpus } }"

definition gic_update :: "GICState \<Rightarrow> GICState option" where
  "gic_update s = gic_update_loop s [0..<gic_num_cpu s]"

definition gic_set_pending_private :: "GICState \<Rightarrow> nat \<Rightarrow> nat \<Rightarrow> GICState option" where
  "gic_set_pending_private s cpu irq =
    do { p \<leftarrow> GIC_TEST_PENDING s irq (cpu_bit cpu);
         if p then Some s
         else do { s \<leftarrow> GIC_SET_PENDING s irq (cpu_bit cpu); gic_update s } }"

definition gic_set_irq :: "GICState \<Rightarrow> nat \<Rightarrow> bool \<Rightarrow> GICState option" where
  "gic_set_irq s n level =
    do { (irq, cm, target) \<leftarrow>
           (if n < gic_num_irq s - GIC_INTERNAL then
              do { t \<leftarrow> GIC_TARGET s (n + GIC_INTERNAL); Some (n + GIC_INTERNAL, ALL_CPU_MASK, t) }
            else let m = n - (gic_num_irq s - GIC_INTERNAL); cm = cpu_bit (m div GIC_INTERNAL)
                 in Some (m mod GIC_INTERNAL, cm, cm));
         l \<leftarrow> GIC_TEST_LEVEL s irq cm;
         if level = l then Some s
         else do {
           s \<leftarrow> (if level then
                   do { s \<leftarrow> GIC_SET_LEVEL s irq cm;
                        t \<leftarrow> GIC_TEST_TRIGGER s irq;
                        e \<leftarrow> GIC_TEST_ENABLED s irq cm;
                        if t \<or> e then GIC_SET_PENDING s irq target else Some s }
                 else GIC_CLEAR_LEVEL s irq cm);
           gic_update s } }"

definition gic_set_running_irq :: "GICState \<Rightarrow> nat \<Rightarrow> nat \<Rightarrow> GICState option" where
  "gic_set_running_irq s cpu irq =
    do { ri \<leftarrow> set_opt (gic_running_irq s) cpu (word_of_nat irq);
         p \<leftarrow> (if irq = NO_IRQ then Some 0x100 else GIC_GET_PRIORITY s irq cpu);
         rp \<leftarrow> set_opt (gic_running_priority s) cpu (word_of_nat p);
         gic_update (s\<lparr>gic_running_irq := ri, gic_running_priority := rp\<rparr>) }"

definition gic_get_last_active :: "GICState \<Rightarrow> nat \<Rightarrow> nat \<Rightarrow> nat option" where
  "gic_get_last_active s irq cpu =
    do { row \<leftarrow> nth_opt (gic_last_active s) irq; l \<leftarrow> nth_opt row cpu; Some (unat l) }"

definition gic_put_last_active :: "GICState \<Rightarrow> nat \<Rightarrow> nat \<Rightarrow> nat \<Rightarrow> GICState option" where
  "gic_put_last_active s irq cpu v =
    do { row \<leftarrow> nth_opt (gic_last_active s) irq;
         row \<leftarrow> set_opt row cpu (word_of_nat v);
         Some (s\<lparr>gic_last_active := (gic_last_active s)[irq := row]\<rparr>) }"

definition gic_acknowledge_irq :: "GICState \<Rightarrow> nat \<Rightarrow> (nat \<times> GICState) option" where
  "gic_acknowledge_irq s cpu =
    do { cp \<leftarrow> nth_opt (gic_current_pending s) cpu;
         rp \<leftarrow> nth_opt (gic_running_priority s) cpu;
         let new_irq = unat cp;
         if new_irq = NO_IRQ then Some (NO_IRQ, s)
         else do {
           p \<leftarrow> GIC_GET_PRIORITY s new_irq cpu;
           if p \<ge> unat rp then Some (NO_IRQ, s)
           else do {
             ri \<leftarrow> nth_opt (gic_running_irq s) cpu;
             s \<leftarrow> gic_put_last_active s new_irq cpu (unat ri);
             m \<leftarrow> GIC_TEST_MODEL s new_irq;
             s \<leftarrow> GIC_CLEAR_PENDING s new_irq (if m then ALL_CPU_MASK else cpu_bit cpu);
             s \<leftarrow> gic_set_running_irq s cpu new_irq;
             Some (new_irq, s) } } }"

partial_function (option) gic_unlink :: "GICState \<Rightarrow> nat \<Rightarrow> nat \<Rightarrow> nat \<Rightarrow> GICState option" where
  "gic_unlink s cpu irq tmp =
    do { l \<leftarrow> gic_get_last_active s tmp cpu;
         if l = NO_IRQ then Some s
         else if l = irq then do { k \<leftarrow> gic_get_last_active s irq cpu; gic_put_last_active s tmp cpu k }
         else gic_unlink s cpu irq l }"

declare gic_unlink.simps [code]

definition gic_complete_irq :: "GICState \<Rightarrow> nat \<Rightarrow> nat \<Rightarrow> GICState option" where
  "gic_complete_irq s cpu irq =
    (if irq \<ge> gic_num_irq s then Some s
     else do {
       r \<leftarrow> nth_opt (gic_running_irq s) cpu;
       let running = unat r;
       if running = NO_IRQ then Some s
       else do {
         t \<leftarrow> GIC_TEST_TRIGGER s irq;
         e \<leftarrow> GIC_TEST_ENABLED s irq (cpu_bit cpu);
         l \<leftarrow> GIC_TEST_LEVEL s irq (cpu_bit cpu);
         g \<leftarrow> GIC_TARGET s irq;
         let upd = (\<not> t \<and> e \<and> l \<and> g AND cpu_bit cpu \<noteq> 0);
         s \<leftarrow> (if upd then GIC_SET_PENDING s irq (cpu_bit cpu) else Some s);
         if irq \<noteq> running then
           do { s \<leftarrow> gic_unlink s cpu irq running; if upd then gic_update s else Some s }
         else do { k \<leftarrow> gic_get_last_active s running cpu; gic_set_running_irq s cpu k } } })"

subsection \<open>The distributor registers\<close>

definition gic_id :: "u8 list" where
  "gic_id = [0x90, 0x13, 0x04, 0x00, 0x0d, 0xf0, 0x05, 0xb1]"

fun gic_collect :: "(nat \<Rightarrow> bool option) \<Rightarrow> (nat \<times> nat) list \<Rightarrow> u32 option" where
  "gic_collect f [] = Some 0"
| "gic_collect f ((i, pos) # is) = do { b \<leftarrow> f i; r \<leftarrow> gic_collect f is; Some (or_if b (push_bit pos 1) r) }"

definition bit_positions :: "nat \<Rightarrow> (nat \<times> nat) list" where
  "bit_positions irq = map (\<lambda>i. (irq + i, i)) [0..<8]"

definition gic_dist_readb :: "GICState \<Rightarrow> nat \<Rightarrow> nat \<Rightarrow> u32 option" where
  "gic_dist_readb s cur offset =
    (let cpu = gic_get_current_cpu s cur; cm = cpu_bit cpu; base = GIC_BASE_IRQ s in
     if offset < 0x100 then
       Some (if offset = 0 then of_bool (gic_enabled s)
             else if offset = 4 then (word_of_nat (gic_num_irq s div 32) - 1) OR
                                     push_bit 5 (word_of_nat (gic_num_cpu s) - 1)
             else 0)
     else if offset < 0x200 then
       let irq = (if offset < 0x180 then (offset - 0x100) * 8 else (offset - 0x180) * 8) + base in
       if irq \<ge> gic_num_irq s then Some 0
       else gic_collect (\<lambda>i. GIC_TEST_ENABLED s i cm) (bit_positions irq)
     else if offset < 0x300 then
       let irq = (if offset < 0x280 then (offset - 0x200) * 8 else (offset - 0x280) * 8) + base in
       if irq \<ge> gic_num_irq s then Some 0
       else gic_collect (\<lambda>i. GIC_TEST_PENDING s i (if irq < GIC_INTERNAL then cm else ALL_CPU_MASK))
              (bit_positions irq)
     else if offset < 0x400 then
       let irq = (offset - 0x300) * 8 + base in
       if irq \<ge> gic_num_irq s then Some 0
       else gic_collect (\<lambda>i. GIC_TEST_ACTIVE s i (if irq < GIC_INTERNAL then cm else ALL_CPU_MASK))
              (bit_positions irq)
     else if offset < 0x800 then
       let irq = (offset - 0x400) + base in
       if irq \<ge> gic_num_irq s then Some 0
       else map_option word_of_nat (GIC_GET_PRIORITY s irq cpu)
     else if offset < 0xc00 then
       if gic_num_cpu s = 1 \<and> gic_revision s \<noteq> REV_11MPCORE then Some 0
       else let irq = (offset - 0x800) + base in
         if irq \<ge> gic_num_irq s then Some 0
         else if 29 \<le> irq \<and> irq \<le> 31 then Some (ucast cm)
         else map_option ucast (GIC_TARGET s irq)
     else if offset < 0xf00 then
       let irq = (offset - 0xc00) * 2 + base in
       if irq \<ge> gic_num_irq s then Some 0
       else do { m \<leftarrow> gic_collect (GIC_TEST_MODEL s) (map (\<lambda>i. (irq + i, i * 2)) [0..<4]);
                 t \<leftarrow> gic_collect (GIC_TEST_TRIGGER s) (map (\<lambda>i. (irq + i, i * 2 + 1)) [0..<4]);
                 Some (m OR t) }
     else if offset < 0xfe0 then Some 0
     else if offset mod 4 \<noteq> 0 then Some 0
     else map_option ucast (nth_opt gic_id ((offset - 0xfe0) div 4)))"

definition gic_dist_readw :: "GICState \<Rightarrow> nat \<Rightarrow> nat \<Rightarrow> u32 option" where
  "gic_dist_readw s cur offset =
    do { a \<leftarrow> gic_dist_readb s cur offset; b \<leftarrow> gic_dist_readb s cur (offset + 1); Some (a OR push_bit 8 b) }"

definition gic_dist_readl :: "GICState \<Rightarrow> nat \<Rightarrow> nat \<Rightarrow> u32 option" where
  "gic_dist_readl s cur offset =
    do { a \<leftarrow> gic_dist_readw s cur offset; b \<leftarrow> gic_dist_readw s cur (offset + 2); Some (a OR push_bit 16 b) }"

definition gic_set_enable_bit :: "nat \<Rightarrow> nat \<Rightarrow> u32 \<Rightarrow> GICState \<Rightarrow> nat \<Rightarrow> GICState option" where
  "gic_set_enable_bit cpu irq v s i =
    (if bit v i then
       do { msk \<leftarrow> (if irq < GIC_INTERNAL then Some (cpu_bit cpu) else GIC_TARGET s (irq + i));
            let cm = (if irq < GIC_INTERNAL then cpu_bit cpu else ALL_CPU_MASK);
            s \<leftarrow> GIC_SET_ENABLED s (irq + i) cm;
            l \<leftarrow> GIC_TEST_LEVEL s (irq + i) msk;
            t \<leftarrow> GIC_TEST_TRIGGER s (irq + i);
            if l \<and> \<not> t then GIC_SET_PENDING s (irq + i) msk else Some s }
     else Some s)"

definition gic_clear_enable_bit :: "nat \<Rightarrow> nat \<Rightarrow> u32 \<Rightarrow> GICState \<Rightarrow> nat \<Rightarrow> GICState option" where
  "gic_clear_enable_bit cpu irq v s i =
    (if bit v i then GIC_CLEAR_ENABLED s (irq + i) (if irq < GIC_INTERNAL then cpu_bit cpu else ALL_CPU_MASK)
     else Some s)"

definition gic_set_pending_bit :: "nat \<Rightarrow> u32 \<Rightarrow> GICState \<Rightarrow> nat \<Rightarrow> GICState option" where
  "gic_set_pending_bit irq v s i =
    (if bit v i then do { t \<leftarrow> GIC_TARGET s (irq + i); GIC_SET_PENDING s (irq + i) t } else Some s)"

definition gic_clear_pending_bit :: "nat \<Rightarrow> u32 \<Rightarrow> GICState \<Rightarrow> nat \<Rightarrow> GICState option" where
  "gic_clear_pending_bit irq v s i =
    (if bit v i then GIC_CLEAR_PENDING s (irq + i) ALL_CPU_MASK else Some s)"

definition gic_set_config :: "nat \<Rightarrow> u32 \<Rightarrow> GICState \<Rightarrow> nat \<Rightarrow> GICState option" where
  "gic_set_config irq v s i =
    do { s \<leftarrow> GIC_PUT_MODEL s (irq + i) (bit v (i * 2)); GIC_PUT_TRIGGER s (irq + i) (bit v (i * 2 + 1)) }"

definition gic_put_priority :: "GICState \<Rightarrow> nat \<Rightarrow> nat \<Rightarrow> u8 \<Rightarrow> GICState option" where
  "gic_put_priority s irq cpu v =
    (if irq < GIC_INTERNAL then
       do { row \<leftarrow> nth_opt (gic_priority1 s) irq; row \<leftarrow> set_opt row cpu v;
            Some (s\<lparr>gic_priority1 := (gic_priority1 s)[irq := row]\<rparr>) }
     else do { xs \<leftarrow> set_opt (gic_priority2 s) (irq - GIC_INTERNAL) v; Some (s\<lparr>gic_priority2 := xs\<rparr>) })"

definition gic_dist_writeb :: "GICState \<Rightarrow> nat \<Rightarrow> nat \<Rightarrow> u32 \<Rightarrow> GICState option" where
  "gic_dist_writeb s cur offset v =
    (let cpu = gic_get_current_cpu s cur; base = GIC_BASE_IRQ s in
     if offset < 0x100 then
       if offset = 0 then gic_update (s\<lparr>gic_enabled := bit v 0\<rparr>)
       else if offset < 4 \<or> offset \<ge> 0x80 then gic_update s
       else Some s
     else if offset < 0x180 then
       let irq = (offset - 0x100) * 8 + base in
       if irq \<ge> gic_num_irq s then Some s
       else do { s \<leftarrow> exec_list (gic_set_enable_bit cpu irq (if irq < 16 then 0xff else v)) s [0..<8];
                 gic_update s }
     else if offset < 0x200 then
       let irq = (offset - 0x180) * 8 + base in
       if irq \<ge> gic_num_irq s then Some s
       else do { s \<leftarrow> exec_list (gic_clear_enable_bit cpu irq (if irq < 16 then 0 else v)) s [0..<8];
                 gic_update s }
     else if offset < 0x280 then
       let irq = (offset - 0x200) * 8 + base in
       if irq \<ge> gic_num_irq s then Some s
       else do { s \<leftarrow> exec_list (gic_set_pending_bit (if irq < 16 then 0 else irq) v) s [0..<8];
                 gic_update s }
     else if offset < 0x300 then
       let irq = (offset - 0x280) * 8 + base in
       if irq \<ge> gic_num_irq s then Some s
       else do { s \<leftarrow> exec_list (gic_clear_pending_bit irq v) s [0..<8]; gic_update s }
     else if offset < 0x400 then Some s
     else if offset < 0x800 then
       let irq = (offset - 0x400) + base in
       if irq \<ge> gic_num_irq s then Some s
       else do { s \<leftarrow> gic_put_priority s irq cpu (ucast v); gic_update s }
     else if offset < 0xc00 then
       if gic_num_cpu s \<noteq> 1 \<or> gic_revision s = REV_11MPCORE then
         let irq = (offset - 0x800) + base in
         if irq \<ge> gic_num_irq s then Some s
         else do { xs \<leftarrow> set_opt (gic_irq_target s) irq
                     (if irq < 29 then 0 else if irq < GIC_INTERNAL then ALL_CPU_MASK else ucast v);
                   gic_update (s\<lparr>gic_irq_target := xs\<rparr>) }
       else gic_update s
     else if offset < 0xf00 then
       let irq = (offset - 0xc00) * 4 + base in
       if irq \<ge> gic_num_irq s then Some s
       else do { s \<leftarrow> exec_list (gic_set_config irq (if irq < GIC_INTERNAL then v OR 0xaa else v)) s [0..<4];
                 gic_update s }
     else Some s)"

definition gic_dist_writew :: "GICState \<Rightarrow> nat \<Rightarrow> nat \<Rightarrow> u32 \<Rightarrow> GICState option" where
  "gic_dist_writew s cur offset v =
    do { s \<leftarrow> gic_dist_writeb s cur offset (v AND 0xff); gic_dist_writeb s cur (offset + 1) (drop_bit 8 v) }"

definition gic_dist_writel :: "GICState \<Rightarrow> nat \<Rightarrow> nat \<Rightarrow> u32 \<Rightarrow> GICState option" where
  "gic_dist_writel s cur offset v =
    (if offset = 0xf00 then
       let cpu = gic_get_current_cpu s cur;
           irq = unat (v AND 0x3ff);
           flt = drop_bit 24 v AND 3;
           msk = (if flt = 0 then ucast (drop_bit 16 v)
                  else if flt = 1 then ALL_CPU_MASK XOR cpu_bit cpu
                  else if flt = 2 then cpu_bit cpu
                  else ALL_CPU_MASK)
       in do { s \<leftarrow> GIC_SET_PENDING s irq msk; gic_update s }
     else do { s \<leftarrow> gic_dist_writew s cur offset (v AND 0xffff);
               gic_dist_writew s cur (offset + 2) (drop_bit 16 v) })"

subsection \<open>The CPU interface\<close>

definition gic_cpu_read :: "GICState \<Rightarrow> nat \<Rightarrow> nat \<Rightarrow> (u32 \<times> GICState) option" where
  "gic_cpu_read s cpu offset =
    (if offset = 0x00 then map_option (\<lambda>b. (of_bool b, s)) (nth_opt (gic_cpu_enabled s) cpu)
     else if offset = 0x04 then map_option (\<lambda>w. (ucast w, s)) (nth_opt (gic_priority_mask s) cpu)
     else if offset = 0x08 then Some (0, s)
     else if offset = 0x0c then map_option (\<lambda>(irq, t). (word_of_nat irq, t)) (gic_acknowledge_irq s cpu)
     else if offset = 0x14 then map_option (\<lambda>w. (ucast w, s)) (nth_opt (gic_running_priority s) cpu)
     else if offset = 0x18 then map_option (\<lambda>w. (ucast w, s)) (nth_opt (gic_current_pending s) cpu)
     else Some (0, s))"

definition gic_cpu_write :: "GICState \<Rightarrow> nat \<Rightarrow> nat \<Rightarrow> u32 \<Rightarrow> GICState option" where
  "gic_cpu_write s cpu offset v =
    (if offset = 0x00 then
       do { xs \<leftarrow> set_opt (gic_cpu_enabled s) cpu (bit v 0); gic_update (s\<lparr>gic_cpu_enabled := xs\<rparr>) }
     else if offset = 0x04 then
       do { xs \<leftarrow> set_opt (gic_priority_mask s) cpu (ucast (v AND 0xff)); gic_update (s\<lparr>gic_priority_mask := xs\<rparr>) }
     else if offset = 0x08 then gic_update s
     else if offset = 0x10 then gic_complete_irq s cpu (unat (v AND 0x3ff))
     else Some s)"

definition gic_thiscpu_read :: "GICState \<Rightarrow> nat \<Rightarrow> nat \<Rightarrow> (u32 \<times> GICState) option" where
  "gic_thiscpu_read s cur addr = gic_cpu_read s (gic_get_current_cpu s cur) addr"

definition gic_thiscpu_write :: "GICState \<Rightarrow> nat \<Rightarrow> nat \<Rightarrow> u32 \<Rightarrow> GICState option" where
  "gic_thiscpu_write s cur addr v = gic_cpu_write s (gic_get_current_cpu s cur) addr v"

subsection \<open>Creation and reset\<close>

definition gic_zero :: "nat \<Rightarrow> nat \<Rightarrow> u32 \<Rightarrow> GICState" where
  "gic_zero ncpu nirq revn =
    \<lparr>gic_parent_irq = replicate NCPU False, gic_enabled = False, gic_cpu_enabled = replicate NCPU False,
     gic_irqs = replicate GIC_MAXIRQ \<lparr>gi_enabled = 0, gi_pending = 0, gi_active = 0, gi_level = 0,
                                      gi_model = False, gi_trigger = False\<rparr>,
     gic_irq_target = replicate GIC_MAXIRQ 0,
     gic_priority1 = replicate GIC_INTERNAL (replicate NCPU 0),
     gic_priority2 = replicate (GIC_MAXIRQ - GIC_INTERNAL) 0,
     gic_last_active = replicate GIC_MAXIRQ (replicate NCPU 0),
     gic_priority_mask = replicate NCPU 0, gic_running_irq = replicate NCPU 0,
     gic_running_priority = replicate NCPU 0, gic_current_pending = replicate NCPU 0,
     gic_num_cpu = ncpu, gic_num_irq = nirq, gic_revision = revn\<rparr>"

definition arm_gic_common_realize :: "GICState \<Rightarrow> GICState option" where
  "arm_gic_common_realize s =
    (if gic_num_cpu s > NCPU then None
     else let s = s\<lparr>gic_num_irq := gic_num_irq s + GIC_BASE_IRQ s\<rparr>
          in if gic_num_irq s > GIC_MAXIRQ then None
             else if gic_num_irq s < 32 \<or> gic_num_irq s mod 32 \<noteq> 0 then None
             else Some s)"

definition set_upto :: "nat \<Rightarrow> 'a \<Rightarrow> 'a list \<Rightarrow> 'a list" where
  "set_upto n x xs = replicate n x @ drop n xs"

definition arm_gic_common_reset :: "GICState \<Rightarrow> GICState" where
  "arm_gic_common_reset s =
    (let n = gic_num_cpu s;
         off = \<lparr>gi_enabled = 0, gi_pending = 0, gi_active = 0, gi_level = 0, gi_model = False, gi_trigger = False\<rparr>
     in s\<lparr>gic_irqs := replicate 16 (off\<lparr>gi_enabled := ALL_CPU_MASK, gi_trigger := True\<rparr>)
                      @ replicate (GIC_MAXIRQ - 16) off,
          gic_priority_mask := set_upto n (if gic_revision s = REV_11MPCORE then 0xf0 else 0) (gic_priority_mask s),
          gic_current_pending := set_upto n 1023 (gic_current_pending s),
          gic_running_irq := set_upto n 1023 (gic_running_irq s),
          gic_running_priority := set_upto n 0x100 (gic_running_priority s),
          gic_cpu_enabled := set_upto n False (gic_cpu_enabled s),
          gic_irq_target := (if n = 1 then replicate GIC_MAXIRQ 1 else gic_irq_target s),
          gic_enabled := False\<rparr>)"

subsection \<open>Shape of the state\<close>

definition gic_shape :: "GICState \<Rightarrow> bool" where
  "gic_shape s \<longleftrightarrow> length (gic_parent_irq s) = NCPU \<and> length (gic_cpu_enabled s) = NCPU \<and>
     length (gic_irqs s) = GIC_MAXIRQ \<and> length (gic_irq_target s) = GIC_MAXIRQ \<and>
     length (gic_priority1 s) = GIC_INTERNAL \<and> (\<forall>row \<in> set (gic_priority1 s). length row = NCPU) \<and>
     length (gic_priority2 s) = GIC_MAXIRQ - GIC_INTERNAL \<and>
     length (gic_last_active s) = GIC_MAXIRQ \<and> (\<forall>row \<in> set (gic_last_active s). length row = NCPU) \<and>
     length (gic_priority_mask s) = NCPU \<and> length (gic_running_irq s) = NCPU \<and>
     length (gic_running_priority s) = NCPU \<and> length (gic_current_pending s) = NCPU \<and>
     0 < gic_num_cpu s \<and> gic_num_cpu s \<le> NCPU \<and> 32 \<le> gic_num_irq s \<and> gic_num_irq s \<le> GIC_MAXIRQ \<and>
     gic_num_irq s mod 32 = 0"

definition gic_prio :: "GICState \<Rightarrow> nat \<Rightarrow> nat \<Rightarrow> nat" where
  "gic_prio s cpu irq =
    unat (if irq < GIC_INTERNAL then gic_priority1 s ! irq ! cpu else gic_priority2 s ! (irq - GIC_INTERNAL))"

definition gic_ready :: "GICState \<Rightarrow> nat \<Rightarrow> nat \<Rightarrow> bool" where
  "gic_ready s cpu irq \<longleftrightarrow> gi_enabled (gic_irqs s ! irq) AND cpu_bit cpu \<noteq> 0 \<and>
     gi_pending (gic_irqs s ! irq) AND cpu_bit cpu \<noteq> 0"

definition gic_la :: "GICState \<Rightarrow> nat \<Rightarrow> nat \<Rightarrow> nat" where
  "gic_la s cpu irq = unat (gic_last_active s ! irq ! cpu)"

lemma gic_shape_lengths:
  assumes "gic_shape s"
  shows "length (gic_irqs s) = GIC_MAXIRQ" "length (gic_irq_target s) = GIC_MAXIRQ"
    "length (gic_parent_irq s) = NCPU" "length (gic_cpu_enabled s) = NCPU"
    "length (gic_priority_mask s) = NCPU" "length (gic_running_irq s) = NCPU"
    "length (gic_running_priority s) = NCPU" "length (gic_current_pending s) = NCPU"
    "length (gic_priority1 s) = GIC_INTERNAL" "length (gic_priority2 s) = GIC_MAXIRQ - GIC_INTERNAL"
    "length (gic_last_active s) = GIC_MAXIRQ" "gic_num_irq s \<le> GIC_MAXIRQ" "gic_num_cpu s \<le> NCPU"
  using assms by (simp_all add: gic_shape_def)

lemma gic_rows:
  assumes "gic_shape s"
  shows "i < GIC_INTERNAL \<Longrightarrow> length (gic_priority1 s ! i) = NCPU"
    "i < GIC_MAXIRQ \<Longrightarrow> length (gic_last_active s ! i) = NCPU"
  using assms by (simp_all add: gic_shape_def)

lemma gic_accessors:
  assumes "gic_shape s" "irq < GIC_MAXIRQ" "cpu < NCPU"
  shows "GIC_GET_PRIORITY s irq cpu = Some (gic_prio s cpu irq)"
    "gic_test s irq P = Some (P (gic_irqs s ! irq))"
    "gic_mod s irq f = Some (s\<lparr>gic_irqs := (gic_irqs s)[irq := f (gic_irqs s ! irq)]\<rparr>)"
    "GIC_TARGET s irq = Some (gic_irq_target s ! irq)"
    "gic_get_last_active s irq cpu = Some (gic_la s cpu irq)"
  using assms gic_shape_lengths [OF assms(1)] gic_rows [OF assms(1), of irq]
  by (auto simp: GIC_GET_PRIORITY_def gic_prio_def gic_test_def gic_mod_def GIC_TARGET_def
      gic_get_last_active_def gic_la_def nth_opt_def)

lemma gic_prio_lt: "gic_prio s cpu irq < 0x100"
  using unat_lt2p [of "if irq < GIC_INTERNAL then gic_priority1 s ! irq ! cpu else gic_priority2 s ! (irq - GIC_INTERNAL)"]
  by (simp add: gic_prio_def)

lemmas gic_macros = GIC_SET_ENABLED_def GIC_CLEAR_ENABLED_def GIC_TEST_ENABLED_def GIC_SET_PENDING_def
  GIC_CLEAR_PENDING_def GIC_TEST_PENDING_def GIC_TEST_ACTIVE_def GIC_PUT_MODEL_def GIC_TEST_MODEL_def
  GIC_SET_LEVEL_def GIC_CLEAR_LEVEL_def GIC_TEST_LEVEL_def GIC_PUT_TRIGGER_def GIC_TEST_TRIGGER_def

subsection \<open>The best pending interrupt\<close>

definition gic_is_best :: "GICState \<Rightarrow> nat \<Rightarrow> nat \<Rightarrow> nat \<Rightarrow> bool" where
  "gic_is_best s cpu n irq \<longleftrightarrow> irq < n \<and> gic_ready s cpu irq \<and>
     (\<forall>j<n. gic_ready s cpu j \<longrightarrow> gic_prio s cpu irq < gic_prio s cpu j \<or>
        gic_prio s cpu irq = gic_prio s cpu j \<and> irq \<le> j)"

lemma gic_best_spec:
  assumes "gic_shape s" "cpu < NCPU" "n \<le> GIC_MAXIRQ"
  shows "\<exists>prio irq. gic_best s cpu n = Some (prio, irq) \<and>
    (if \<exists>j<n. gic_ready s cpu j then prio = gic_prio s cpu irq \<and> gic_is_best s cpu n irq
     else prio = 0x100 \<and> irq = NO_IRQ)"
  using assms(3)
proof (induction n)
  case 0
  then show ?case by simp
next
  case (Suc n)
  then obtain prio irq where p: "gic_best s cpu n = Some (prio, irq)"
    "if \<exists>j<n. gic_ready s cpu j then prio = gic_prio s cpu irq \<and> gic_is_best s cpu n irq
     else prio = 0x100 \<and> irq = NO_IRQ" by auto
  have n: "n < GIC_MAXIRQ" using Suc.prems by simp
  note a = gic_accessors [OF assms(1) n assms(2)]
  have b: "gic_best s cpu (Suc n) = Some (if gic_ready s cpu n \<and> gic_prio s cpu n < prio
      then (gic_prio s cpu n, n) else (prio, irq))"
    using p(1) a by (simp add: gic_macros gic_ready_def)
  show ?case
  proof (cases "gic_ready s cpu n \<and> gic_prio s cpu n < prio")
    case True
    then have "gic_is_best s cpu (Suc n) n"
      using p(2) gic_prio_lt [of s cpu] by (fastforce simp: gic_is_best_def less_Suc_eq split: if_splits)
    moreover have "\<exists>j<Suc n. gic_ready s cpu j" using True by blast
    ultimately show ?thesis using b True by simp
  next
    case False
    show ?thesis
    proof (cases "\<exists>j<n. gic_ready s cpu j")
      case True
      with p(2) have q: "prio = gic_prio s cpu irq" "gic_is_best s cpu n irq" by simp_all
      with False have "gic_is_best s cpu (Suc n) irq" by (auto simp: gic_is_best_def less_Suc_eq not_less)
      moreover have "\<exists>j<Suc n. gic_ready s cpu j" using True less_SucI by blast
      ultimately show ?thesis using b False q by auto
    next
      case None: False
      with p(2) have q: "prio = 0x100" "irq = NO_IRQ" by simp_all
      with False gic_prio_lt [of s cpu n] have "\<not> gic_ready s cpu n" by simp
      with None have "\<not> (\<exists>j<Suc n. gic_ready s cpu j)" by (auto simp: less_Suc_eq)
      with b q False show ?thesis by auto
    qed
  qed
qed

end
