(* ===== verification/GicActive.thy ===== *)
theory GicActive
  imports Gic
begin

text \<open>
  Correctness of the interrupt controller: what an update signals to the CPU, and the nesting of
  active interrupts.

  The code threads the active interrupts of a CPU through \<open>running_irq\<close> and \<open>last_active\<close>. The
  abstraction \<open>gic_chain\<close> reads this linked list as a list of interrupt numbers, the running one
  first. The lemmas show that acknowledging an interrupt pushes it, that completing one removes
  it wherever it is in the list, that the priorities on the list are strictly decreasing in
  urgency, and that the walk over the list ends. The last part needs that the priority of an
  active interrupt is not changed; without that the list can become cyclic and the walk
  endless, which is shown on a concrete run.
\<close>

definition gic_ok :: "GICState \<Rightarrow> bool" where
  "gic_ok s \<longleftrightarrow> gic_shape s \<and> (\<forall>c<NCPU. unat (gic_priority_mask s ! c) \<le> 0x100) \<and>
     (\<forall>c<NCPU. unat (gic_current_pending s ! c) = NO_IRQ \<or> unat (gic_current_pending s ! c) < gic_num_irq s)"

definition gic_same :: "GICState \<Rightarrow> GICState \<Rightarrow> bool" where
  "gic_same s t \<longleftrightarrow> gic_enabled t = gic_enabled s \<and> gic_cpu_enabled t = gic_cpu_enabled s \<and>
     gic_irqs t = gic_irqs s \<and> gic_irq_target t = gic_irq_target s \<and> gic_priority1 t = gic_priority1 s \<and>
     gic_priority2 t = gic_priority2 s \<and> gic_last_active t = gic_last_active s \<and>
     gic_priority_mask t = gic_priority_mask s \<and> gic_running_irq t = gic_running_irq s \<and>
     gic_running_priority t = gic_running_priority s \<and> gic_num_cpu t = gic_num_cpu s \<and>
     gic_num_irq t = gic_num_irq s \<and> gic_revision t = gic_revision s"

subsection \<open>Updates\<close>

lemma gic_same_refl [simp]: "gic_same s s"
  by (simp add: gic_same_def)

lemma gic_same_trans: "gic_same s t \<Longrightarrow> gic_same t u \<Longrightarrow> gic_same s u"
  by (simp add: gic_same_def)

lemma gic_same_prio: "gic_same s t \<Longrightarrow> gic_prio t cpu irq = gic_prio s cpu irq"
  by (simp add: gic_same_def gic_prio_def)

lemma gic_same_ready: "gic_same s t \<Longrightarrow> gic_ready t cpu irq = gic_ready s cpu irq"
  by (simp add: gic_same_def gic_ready_def)

lemma unat_irq: "irq \<le> NO_IRQ \<Longrightarrow> unat (word_of_nat irq :: u16) = irq"
  by (simp add: unsigned_of_nat take_bit_nat_eq_self_iff)

text \<open>What the handling of one CPU in \<open>gic_update\<close> does, and that it only touches the pending
  number and the line of that CPU.\<close>

definition gic_signalled :: "GICState \<Rightarrow> nat \<Rightarrow> nat \<Rightarrow> bool \<Rightarrow> bool" where
  "gic_signalled s cpu irq level \<longleftrightarrow>
    (if gic_enabled s \<and> gic_cpu_enabled s ! cpu \<and>
        (\<exists>j<gic_num_irq s. gic_ready s cpu j \<and> gic_prio s cpu j < unat (gic_priority_mask s ! cpu))
     then gic_is_best s cpu (gic_num_irq s) irq \<and>
          level = (gic_prio s cpu irq < unat (gic_running_priority s ! cpu))
     else irq = NO_IRQ \<and> \<not> level)"

definition gic_put :: "GICState \<Rightarrow> nat \<Rightarrow> nat \<Rightarrow> bool \<Rightarrow> GICState" where
  "gic_put s cpu irq level =
     s\<lparr>gic_current_pending := (gic_current_pending s)[cpu := word_of_nat irq],
       gic_parent_irq := (gic_parent_irq s)[cpu := level]\<rparr>"

lemma gic_put_same: "gic_same s (gic_put s cpu irq level)"
  by (simp add: gic_same_def gic_put_def)

lemma gic_put_shape: "gic_shape (gic_put s cpu irq level) = gic_shape s"
  by (simp add: gic_shape_def gic_put_def)

lemma gic_put_ok:
  assumes "gic_ok s" "irq = NO_IRQ \<or> irq < gic_num_irq s"
  shows "gic_ok (gic_put s cpu irq level)"
proof -
  have "irq \<le> NO_IRQ" using assms by (auto simp: gic_ok_def gic_shape_def)
  note u = unat_irq [OF this]
  have "length (gic_current_pending s) = NCPU" using assms(1) by (simp add: gic_ok_def gic_shape_def)
  then have n: "(gic_current_pending s)[cpu := w] ! c = (if c = cpu then w else gic_current_pending s ! c)"
    if "c < NCPU" for c w
    using that by (simp add: nth_list_update)
  have "gic_shape (gic_put s cpu irq level)" using assms(1) by (simp add: gic_ok_def gic_put_shape)
  then show ?thesis
    using assms by (simp add: gic_ok_def) (simp add: gic_put_def n u)
qed

lemma gic_update_step:
  assumes "gic_ok s" "cpu < NCPU"
  shows "\<exists>irq level. gic_signalled s cpu irq level \<and> (irq = NO_IRQ \<or> irq < gic_num_irq s) \<and>
    gic_update_loop s (cpu # cpus) =
      (if gic_enabled s \<and> gic_cpu_enabled s ! cpu then gic_update_loop (gic_put s cpu irq level) cpus
       else Some (gic_put s cpu irq level))"
proof -
  have sh: "gic_shape s" using assms(1) by (simp add: gic_ok_def)
  note l = gic_shape_lengths [OF sh]
  let ?u = "s\<lparr>gic_current_pending := (gic_current_pending s)[cpu := word_of_nat NO_IRQ]\<rparr>"
  have u: "gic_shape ?u" using sh by (simp add: gic_shape_def)
  have up: "gic_put_pending s cpu NO_IRQ = Some ?u" using l assms(2) by (simp add: gic_put_pending_def)
  have rd: "gic_ready ?u = gic_ready s" "gic_prio ?u = gic_prio s"
    by (simp_all add: gic_ready_def gic_prio_def fun_eq_iff)
  then have be: "gic_is_best ?u = gic_is_best s" by (simp add: gic_is_best_def fun_eq_iff)
  show ?thesis
  proof (cases "gic_enabled s \<and> gic_cpu_enabled s ! cpu")
    case False
    then have "gic_signalled s cpu NO_IRQ False" by (auto simp: gic_signalled_def)
    moreover have "gic_update_loop s (cpu # cpus) = Some (gic_put s cpu NO_IRQ False)"
      using False l assms(2) up by (auto simp: gic_put_parent_irq_def gic_put_def)
    ultimately show ?thesis using False by auto
  next
    case True
    obtain prio irq where b: "gic_best ?u cpu (gic_num_irq s) = Some (prio, irq)"
      "if \<exists>j<gic_num_irq s. gic_ready s cpu j then prio = gic_prio s cpu irq \<and> gic_is_best s cpu (gic_num_irq s) irq
       else prio = 0x100 \<and> irq = NO_IRQ"
      using gic_best_spec [OF u assms(2) l(12), unfolded rd be] by blast
    have m: "unat (gic_priority_mask s ! cpu) \<le> 0x100" using assms by (simp add: gic_ok_def)
    define irq' where "irq' = (if prio < unat (gic_priority_mask s ! cpu) then irq else NO_IRQ)"
    define level where "level = (prio < unat (gic_priority_mask s ! cpu) \<and> prio < unat (gic_running_priority s ! cpu))"
    have "gic_update_loop s (cpu # cpus) = gic_update_loop (gic_put s cpu irq' level) cpus"
      using True l assms(2) b(1) up
      by (simp add: gic_put_parent_irq_def gic_put_pending_def gic_put_def irq'_def level_def)
    moreover have "gic_signalled s cpu irq' level"
      using True b(2) m
      by (fastforce simp: gic_signalled_def irq'_def level_def gic_is_best_def split: if_splits)
    moreover have "irq' = NO_IRQ \<or> irq' < gic_num_irq s"
      using b(2) m by (auto simp: irq'_def gic_is_best_def split: if_splits)
    ultimately show ?thesis using True by auto
  qed
qed

lemma gic_update_loop_ok:
  assumes "gic_ok s" "\<forall>c\<in>set cpus. c < NCPU"
  shows "\<exists>t. gic_update_loop s cpus = Some t \<and> gic_ok t \<and> gic_same s t"
  using assms
proof (induction cpus arbitrary: s)
  case (Cons c cs)
  then have "c < NCPU" by simp
  from gic_update_step [OF Cons.prems(1) this, of cs] obtain irq level where
    u: "irq = NO_IRQ \<or> irq < gic_num_irq s" "gic_update_loop s (c # cs) =
      (if gic_enabled s \<and> gic_cpu_enabled s ! c then gic_update_loop (gic_put s c irq level) cs
       else Some (gic_put s c irq level))" by blast
  have k: "gic_ok (gic_put s c irq level)" using Cons.prems(1) u(1) by (rule gic_put_ok)
  from Cons.IH [OF k] Cons.prems(2) obtain t where
    "gic_update_loop (gic_put s c irq level) cs = Some t" "gic_ok t" "gic_same (gic_put s c irq level) t" by auto
  then show ?case using u(2) k gic_same_trans [OF gic_put_same] gic_put_same by auto
qed simp

lemma gic_update_ok: "gic_ok s \<Longrightarrow> \<exists>t. gic_update s = Some t \<and> gic_ok t \<and> gic_same s t"
  unfolding gic_update_def
  by (rule gic_update_loop_ok) (auto simp: gic_ok_def gic_shape_def)

lemma gic_update_single:
  assumes "gic_ok s" "gic_num_cpu s = 1"
  shows "\<exists>irq level. gic_signalled s 0 irq level \<and> (irq = NO_IRQ \<or> irq < gic_num_irq s) \<and>
    gic_update s = Some (gic_put s 0 irq level)"
proof -
  from gic_update_step [OF assms(1), of 0 "[]"] obtain irq level where
    u: "gic_signalled s 0 irq level" "irq = NO_IRQ \<or> irq < gic_num_irq s"
      "gic_update_loop s [0] = Some (gic_put s 0 irq level)" by (auto split: if_splits simp del: gic_update_loop.simps(2))
  have "gic_update s = Some (gic_put s 0 irq level)"
    using u(3) by (simp add: gic_update_def assms(2) del: gic_update_loop.simps(2))
  with u(1,2) show ?thesis by blast
qed

subsection \<open>The list of active interrupts\<close>

fun gic_linked :: "GICState \<Rightarrow> nat \<Rightarrow> nat list \<Rightarrow> bool" where
  "gic_linked s cpu [] = True"
| "gic_linked s cpu [x] = (gic_la s cpu x = NO_IRQ)"
| "gic_linked s cpu (x # y # xs) = (gic_la s cpu x = y \<and> gic_linked s cpu (y # xs))"

definition gic_chain :: "GICState \<Rightarrow> nat \<Rightarrow> nat list \<Rightarrow> bool" where
  "gic_chain s cpu xs \<longleftrightarrow>
     unat (gic_running_irq s ! cpu) = (case xs of [] \<Rightarrow> NO_IRQ | x # _ \<Rightarrow> x) \<and>
     unat (gic_running_priority s ! cpu) = (case xs of [] \<Rightarrow> 0x100 | x # _ \<Rightarrow> gic_prio s cpu x) \<and>
     gic_linked s cpu xs \<and> (\<forall>x\<in>set xs. x < gic_num_irq s) \<and>
     sorted_wrt (<) (map (gic_prio s cpu) xs)"

lemma gic_linked_cong:
  "(\<And>x. x \<in> set xs \<Longrightarrow> gic_la s cpu x = gic_la t cpu x) \<Longrightarrow> gic_linked s cpu xs = gic_linked t cpu xs"
  by (induction xs rule: gic_linked.induct) auto

lemma gic_chain_distinct: "gic_chain s cpu xs \<Longrightarrow> distinct xs"
proof -
  assume "gic_chain s cpu xs"
  then have "sorted_wrt (<) (map (gic_prio s cpu) xs)" by (simp add: gic_chain_def)
  then have "distinct (map (gic_prio s cpu) xs)" by (simp add: strict_sorted_iff)
  then show ?thesis by (simp add: distinct_map)
qed

lemma gic_chain_cong:
  assumes "gic_chain s cpu xs" "gic_running_irq t ! cpu = gic_running_irq s ! cpu"
    "gic_running_priority t ! cpu = gic_running_priority s ! cpu" "gic_num_irq t = gic_num_irq s"
    "\<And>x. x \<in> set xs \<Longrightarrow> gic_la t cpu x = gic_la s cpu x"
    "\<And>x. x \<in> set xs \<Longrightarrow> gic_prio t cpu x = gic_prio s cpu x"
  shows "gic_chain t cpu xs"
proof -
  have "gic_linked t cpu xs = gic_linked s cpu xs" using assms(5) by (rule gic_linked_cong)
  moreover have m: "map (gic_prio t cpu) xs = map (gic_prio s cpu) xs" using assms(6) by simp
  moreover have "sorted_wrt (<) (map (gic_prio t cpu) xs)"
    unfolding m using assms(1) by (simp add: gic_chain_def)
  ultimately show ?thesis using assms by (cases xs) (simp_all add: gic_chain_def)
qed

lemma gic_chain_same:
  assumes "gic_same s t"
  shows "gic_chain t cpu xs = gic_chain s cpu xs"
proof -
  have "gic_la t cpu x = gic_la s cpu x" for x using assms by (simp add: gic_same_def gic_la_def)
  moreover have "gic_prio t cpu x = gic_prio s cpu x" for x using assms by (rule gic_same_prio)
  ultimately have "gic_linked t cpu xs = gic_linked s cpu xs" "gic_prio t cpu = gic_prio s cpu"
    using gic_linked_cong [of xs t cpu s] by auto
  with assms show ?thesis by (cases xs) (simp_all add: gic_chain_def gic_same_def)
qed

text \<open>Setting the running interrupt, before the update that follows it.\<close>

definition gic_run :: "GICState \<Rightarrow> nat \<Rightarrow> nat \<Rightarrow> GICState" where
  "gic_run s cpu irq =
     s\<lparr>gic_running_irq := (gic_running_irq s)[cpu := word_of_nat irq],
       gic_running_priority := (gic_running_priority s)[cpu :=
         word_of_nat (if irq = NO_IRQ then 0x100 else gic_prio s cpu irq)]\<rparr>"

lemma gic_run_ok: "gic_ok s \<Longrightarrow> gic_ok (gic_run s cpu irq)"
  by (simp add: gic_ok_def gic_shape_def gic_run_def)

lemma gic_set_running_ok:
  assumes "gic_ok s" "cpu < NCPU" "irq = NO_IRQ \<or> irq < gic_num_irq s"
  shows "\<exists>t. gic_set_running_irq s cpu irq = Some t \<and> gic_ok t \<and> gic_same (gic_run s cpu irq) t"
proof -
  have sh: "gic_shape s" using assms(1) by (simp add: gic_ok_def)
  note l = gic_shape_lengths [OF sh]
  have "irq \<noteq> NO_IRQ \<Longrightarrow> GIC_GET_PRIORITY s irq cpu = Some (gic_prio s cpu irq)"
    using gic_accessors(1) [OF sh _ assms(2), of irq] assms(3) l(12) by auto
  then have "gic_set_running_irq s cpu irq = gic_update (gic_run s cpu irq)"
    using l assms(2) by (auto simp: gic_set_running_irq_def gic_run_def)
  with gic_update_ok [OF gic_run_ok [OF assms(1)]] show ?thesis by simp
qed

lemma gic_run_chain:
  assumes "gic_ok s" "cpu < NCPU" "gic_linked s cpu xs" "\<forall>x\<in>set xs. x < gic_num_irq s"
    "sorted_wrt (<) (map (gic_prio s cpu) xs)"
  shows "gic_chain (gic_run s cpu (case xs of [] \<Rightarrow> NO_IRQ | x # _ \<Rightarrow> x)) cpu xs"
proof -
  have l: "length (gic_running_irq s) = NCPU" "length (gic_running_priority s) = NCPU" "gic_num_irq s \<le> GIC_MAXIRQ"
    using assms(1) by (simp_all add: gic_ok_def gic_shape_def)
  let ?r = "gic_run s cpu (case xs of [] \<Rightarrow> NO_IRQ | x # _ \<Rightarrow> x)"
  have p: "gic_prio ?r = gic_prio s" "gic_la ?r = gic_la s" "gic_num_irq ?r = gic_num_irq s"
    by (simp_all add: gic_run_def gic_prio_def gic_la_def fun_eq_iff)
  have "gic_linked ?r cpu xs" using assms(3) gic_linked_cong [of xs ?r cpu s] p by simp
  moreover have "unat (word_of_nat (gic_prio s cpu x) :: u16) = gic_prio s cpu x" for x
    using gic_prio_lt [of s cpu x] by (intro unat_irq) simp
  moreover have "unat (word_of_nat x :: u16) = x" if "x < gic_num_irq s" for x
    using that l by (intro unat_irq) simp
  ultimately show ?thesis
    using assms(2,4,5) l p by (cases xs) (auto simp: gic_chain_def gic_run_def)
qed

lemma gic_put_la:
  assumes "gic_shape s" "irq < GIC_MAXIRQ" "cpu < NCPU" "v \<le> NO_IRQ"
  shows "\<exists>t. gic_put_last_active s irq cpu v = Some t \<and> gic_shape t \<and>
    t = s\<lparr>gic_last_active := gic_last_active t\<rparr> \<and>
    (\<forall>c i. i < GIC_MAXIRQ \<longrightarrow> c < NCPU \<longrightarrow> gic_la t c i = (if c = cpu \<and> i = irq then v else gic_la s c i))"
proof -
  note l = gic_shape_lengths [OF assms(1)]
  let ?row = "(gic_last_active s ! irq)[cpu := word_of_nat v]"
  let ?t = "s\<lparr>gic_last_active := (gic_last_active s)[irq := ?row]\<rparr>"
  have r: "length (gic_last_active s ! irq) = NCPU" using assms gic_rows by blast
  have "gic_put_last_active s irq cpu v = Some ?t"
    using l r assms by (simp add: gic_put_last_active_def)
  moreover have "gic_shape ?t"
    using assms r by (auto simp: gic_shape_def dest!: set_update_subset_insert [THEN subsetD])
  moreover have "gic_la ?t c i = (if c = cpu \<and> i = irq then v else gic_la s c i)" if "i < GIC_MAXIRQ" "c < NCPU" for c i
    using that l r assms(2,3) unat_irq [OF assms(4)] by (simp add: gic_la_def nth_list_update)
  ultimately show ?thesis by simp
qed

text \<open>Acknowledging.\<close>

lemma gic_acknowledge_none:
  assumes "gic_ok s" "cpu < NCPU"
    and "unat (gic_current_pending s ! cpu) = NO_IRQ \<or>
      unat (gic_running_priority s ! cpu) \<le> gic_prio s cpu (unat (gic_current_pending s ! cpu))"
  shows "gic_acknowledge_irq s cpu = Some (NO_IRQ, s)"
proof -
  have sh: "gic_shape s" using assms(1) by (simp add: gic_ok_def)
  note l = gic_shape_lengths [OF sh]
  let ?n = "unat (gic_current_pending s ! cpu)"
  have "?n \<noteq> NO_IRQ \<Longrightarrow> GIC_GET_PRIORITY s ?n cpu = Some (gic_prio s cpu ?n)"
    using assms(1,2) l(12) gic_accessors(1) [OF sh _ assms(2), of ?n] by (auto simp: gic_ok_def)
  with assms(2,3) l show ?thesis by (auto simp: gic_acknowledge_irq_def Let_def)
qed

lemma gic_clear_pending_ok:
  assumes "gic_ok s" "irq < GIC_MAXIRQ"
  shows "\<exists>t. GIC_CLEAR_PENDING s irq m = Some t \<and> gic_ok t \<and> t = s\<lparr>gic_irqs := gic_irqs t\<rparr>"
proof -
  have sh: "gic_shape s" using assms(1) by (simp add: gic_ok_def)
  show ?thesis
    using gic_accessors(3) [OF sh assms(2), of 0] assms(1)
    by (simp add: GIC_CLEAR_PENDING_def gic_ok_def gic_shape_def)
qed

lemma gic_acknowledge_effect:
  assumes "gic_ok s" "cpu < NCPU" "unat (gic_running_irq s ! cpu) \<le> NO_IRQ"
    and irq: "irq = unat (gic_current_pending s ! cpu)" "irq \<noteq> NO_IRQ"
    and p: "gic_prio s cpu irq < unat (gic_running_priority s ! cpu)"
  shows "\<exists>u t. gic_acknowledge_irq s cpu = Some (irq, t) \<and> gic_ok u \<and> gic_ok t \<and> gic_same (gic_run u cpu irq) t \<and>
    gic_num_irq u = gic_num_irq s \<and> gic_num_cpu u = gic_num_cpu s \<and> gic_running_irq u = gic_running_irq s \<and>
    gic_running_priority u = gic_running_priority s \<and> gic_prio u = gic_prio s \<and>
    (\<forall>c i. i < GIC_MAXIRQ \<longrightarrow> c < NCPU \<longrightarrow>
       gic_la u c i = (if c = cpu \<and> i = irq then unat (gic_running_irq s ! cpu) else gic_la s c i))"
proof -
  have sh: "gic_shape s" using assms(1) by (simp add: gic_ok_def)
  note l = gic_shape_lengths [OF sh]
  have n: "irq < gic_num_irq s" using assms(1,2) irq by (auto simp: gic_ok_def)
  then have nm: "irq < GIC_MAXIRQ" using l(12) by linarith
  let ?r = "unat (gic_running_irq s ! cpu)"
  from gic_put_la [OF sh nm assms(2,3)] obtain t1 where
    t1: "gic_put_last_active s irq cpu ?r = Some t1" "gic_shape t1" "t1 = s\<lparr>gic_last_active := gic_last_active t1\<rparr>"
      "\<And>c i. i < GIC_MAXIRQ \<Longrightarrow> c < NCPU \<Longrightarrow> gic_la t1 c i = (if c = cpu \<and> i = irq then ?r else gic_la s c i)"
    by blast
  have f1: "gic_num_irq t1 = gic_num_irq s" "gic_num_cpu t1 = gic_num_cpu s" "gic_running_irq t1 = gic_running_irq s"
      "gic_running_priority t1 = gic_running_priority s" "gic_priority_mask t1 = gic_priority_mask s"
      "gic_current_pending t1 = gic_current_pending s" "gic_priority1 t1 = gic_priority1 s" "gic_priority2 t1 = gic_priority2 s"
    by (subst t1(3), simp)+
  have ok1: "gic_ok t1" using assms(1) t1(2) f1 by (simp add: gic_ok_def)
  let ?m = "gi_model (gic_irqs t1 ! irq)"
  obtain u where u: "GIC_CLEAR_PENDING t1 irq (if ?m then ALL_CPU_MASK else cpu_bit cpu) = Some u" "gic_ok u"
      "u = t1\<lparr>gic_irqs := gic_irqs u\<rparr>"
    using gic_clear_pending_ok [OF ok1 nm] by blast
  have f2: "gic_num_irq u = gic_num_irq s" "gic_num_cpu u = gic_num_cpu s" "gic_running_irq u = gic_running_irq s"
      "gic_running_priority u = gic_running_priority s" "gic_priority1 u = gic_priority1 s"
      "gic_priority2 u = gic_priority2 s" "gic_last_active u = gic_last_active t1"
    by (subst u(3), simp add: f1)+
  from gic_set_running_ok [OF u(2) assms(2), of irq] n f2(1) obtain t where
    t: "gic_set_running_irq u cpu irq = Some t" "gic_ok t" "gic_same (gic_run u cpu irq) t" by auto
  have "GIC_GET_PRIORITY s irq cpu = Some (gic_prio s cpu irq)" using gic_accessors(1) [OF sh nm assms(2)] .
  moreover have "GIC_TEST_MODEL t1 irq = Some ?m"
    using gic_accessors(2) [OF t1(2) nm assms(2)] by (simp add: GIC_TEST_MODEL_def)
  ultimately have "gic_acknowledge_irq s cpu = Some (irq, t)"
    using irq p l assms(2) t1(1) u(1) t(1) by (simp add: gic_acknowledge_irq_def Let_def)
  moreover have "gic_prio u = gic_prio s" using f2 by (simp add: gic_prio_def fun_eq_iff)
  moreover have "gic_la u c i = gic_la t1 c i" for c i using f2(7) by (simp add: gic_la_def)
  ultimately show ?thesis using u(2) t(2,3) f2 t1(4) by metis
qed

lemma gic_acknowledge_some:
  assumes "gic_ok s" "cpu < NCPU" "gic_chain s cpu xs"
    and irq: "irq = unat (gic_current_pending s ! cpu)" "irq \<noteq> NO_IRQ"
    and p: "gic_prio s cpu irq < unat (gic_running_priority s ! cpu)"
  shows "\<exists>t. gic_acknowledge_irq s cpu = Some (irq, t) \<and> gic_ok t \<and> gic_chain t cpu (irq # xs) \<and>
    gic_num_irq t = gic_num_irq s \<and> gic_num_cpu t = gic_num_cpu s \<and>
    (\<forall>c ys. c < NCPU \<longrightarrow> c \<noteq> cpu \<longrightarrow> gic_chain s c ys \<longrightarrow> gic_chain t c ys)"
proof -
  have l: "gic_num_irq s \<le> GIC_MAXIRQ" using assms(1) by (simp add: gic_ok_def gic_shape_def)
  have n: "irq < gic_num_irq s" using assms(1,2) irq by (auto simp: gic_ok_def)
  then have nm: "irq < GIC_MAXIRQ" using l by linarith
  let ?r = "unat (gic_running_irq s ! cpu)"
  have r: "?r = (case xs of [] \<Rightarrow> NO_IRQ | x # _ \<Rightarrow> x)" "\<forall>x\<in>set xs. x < gic_num_irq s"
    using assms(3) by (simp_all add: gic_chain_def)
  then have "?r \<le> NO_IRQ" using l by (cases xs) auto
  from gic_acknowledge_effect [OF assms(1,2) this irq p] obtain u t where
    ack: "gic_acknowledge_irq s cpu = Some (irq, t)" and u: "gic_ok u" and t: "gic_ok t" "gic_same (gic_run u cpu irq) t"
    and f2: "gic_num_irq u = gic_num_irq s" "gic_num_cpu u = gic_num_cpu s" "gic_running_irq u = gic_running_irq s"
      "gic_running_priority u = gic_running_priority s" and pr: "gic_prio u = gic_prio s"
    and la: "\<And>c i. i < GIC_MAXIRQ \<Longrightarrow> c < NCPU \<Longrightarrow> gic_la u c i = (if c = cpu \<and> i = irq then ?r else gic_la s c i)"
    by blast
  have new: "irq \<notin> set xs" and srt: "sorted_wrt (<) (map (gic_prio s cpu) (irq # xs))"
    using assms(3) p by (auto simp: gic_chain_def split: list.splits)
  have "gic_linked u cpu xs = gic_linked s cpu xs"
    using r(2) new l la [OF _ assms(2)] by (intro gic_linked_cong) auto
  then have "gic_linked u cpu (irq # xs)"
    using assms(3) r(1) la [OF nm assms(2)] by (cases xs) (simp_all add: gic_chain_def)
  then have "gic_chain (gic_run u cpu irq) cpu (irq # xs)"
    using gic_run_chain [OF u assms(2), of "irq # xs"] srt r(2) n f2(1) pr by simp
  moreover have "gic_chain t c ys" if c: "c < NCPU" "c \<noteq> cpu" "gic_chain s c ys" for c ys
  proof -
    have "\<forall>x\<in>set ys. x < gic_num_irq s" using c(3) by (simp add: gic_chain_def)
    then have "gic_chain u c ys"
      using c l la pr f2 by (intro gic_chain_cong [OF c(3)]) fastforce+
    then have "gic_chain (gic_run u cpu irq) c ys"
      by (rule gic_chain_cong) (use c(2) in \<open>simp_all add: gic_run_def gic_la_def gic_prio_def\<close>)
    then show ?thesis using gic_chain_same [OF t(2)] by simp
  qed
  ultimately show ?thesis
    using ack t(1) gic_chain_same [OF t(2)] t(2) f2 by (auto simp: gic_same_def gic_run_def)
qed

text \<open>Completing.\<close>

lemma sorted_wrt_remove1: "sorted_wrt P xs \<Longrightarrow> sorted_wrt P (remove1 x xs)"
  by (induction xs) (auto dest: notin_set_remove1 split: if_splits)

lemma gic_unlink_ok:
  assumes "gic_shape s" "cpu < NCPU" "irq < GIC_MAXIRQ" "gic_linked s cpu (x # xs)" "distinct (x # xs)"
    "\<forall>y\<in>set (x # xs). y < GIC_MAXIRQ" "irq \<noteq> x"
  shows "\<exists>t. gic_unlink s cpu irq x = Some t \<and> gic_shape t \<and> t = s\<lparr>gic_last_active := gic_last_active t\<rparr> \<and>
    gic_linked t cpu (x # remove1 irq xs) \<and>
    (\<forall>c i. i < GIC_MAXIRQ \<longrightarrow> c < NCPU \<longrightarrow> c \<noteq> cpu \<or> i \<notin> set (x # xs) \<longrightarrow> gic_la t c i = gic_la s c i)"
  using assms(4-7)
proof (induction xs arbitrary: x)
  case Nil
  then have "gic_unlink s cpu irq x = Some s"
    using gic_accessors(5) [OF assms(1) _ assms(2), of x] by (simp add: gic_unlink.simps)
  with Nil assms(1) show ?case by simp
next
  case (Cons y ys)
  have x: "x < GIC_MAXIRQ" "gic_la s cpu x = y" "y < GIC_MAXIRQ" "x \<noteq> y" using Cons.prems by auto
  then have g: "gic_get_last_active s x cpu = Some y"
    using gic_accessors(5) [OF assms(1) x(1) assms(2)] by simp
  have yn: "y \<noteq> NO_IRQ" using x(3) by simp
  show ?case
  proof (cases "y = irq")
    case True
    let ?k = "gic_la s cpu irq"
    have k: "?k \<le> NO_IRQ" "ys = [] \<Longrightarrow> ?k = NO_IRQ" "\<And>z zs. ys = z # zs \<Longrightarrow> ?k = z"
      using Cons.prems(1,3) True by (cases ys; auto)+
    from gic_put_la [OF assms(1) x(1) assms(2) k(1)] obtain t where
      t: "gic_put_last_active s x cpu ?k = Some t" "gic_shape t" "t = s\<lparr>gic_last_active := gic_last_active t\<rparr>"
        "\<And>c i. i < GIC_MAXIRQ \<Longrightarrow> c < NCPU \<Longrightarrow> gic_la t c i = (if c = cpu \<and> i = x then ?k else gic_la s c i)"
      by blast
    have "gic_unlink s cpu irq x = Some t"
      using g yn True t(1) gic_accessors(5) [OF assms(1,3,2)] by (simp add: gic_unlink.simps)
    moreover have "gic_linked t cpu ys"
    proof -
      have "gic_linked s cpu ys" using Cons.prems(1) by (cases ys) auto
      moreover have "gic_linked t cpu ys = gic_linked s cpu ys"
        using Cons.prems(2,3) t(4) assms(2) by (intro gic_linked_cong) auto
      ultimately show ?thesis by simp
    qed
    then have "gic_linked t cpu (x # ys)" using k(2,3) t(4) [OF x(1) assms(2)] by (cases ys) simp_all
    ultimately show ?thesis using True t by auto
  next
    case False
    then have "irq \<noteq> y" by simp
    from Cons.IH [of y] Cons.prems this obtain t where
      t: "gic_unlink s cpu irq y = Some t" "gic_shape t" "t = s\<lparr>gic_last_active := gic_last_active t\<rparr>"
        "gic_linked t cpu (y # remove1 irq ys)"
        "\<And>c i. i < GIC_MAXIRQ \<Longrightarrow> c < NCPU \<Longrightarrow> c \<noteq> cpu \<or> i \<notin> set (y # ys) \<Longrightarrow> gic_la t c i = gic_la s c i"
      by auto
    have "gic_unlink s cpu irq x = Some t"
      using g yn False t(1) by (subst gic_unlink.simps) simp
    moreover have "gic_la t cpu x = y" using t(5) [OF x(1) assms(2)] Cons.prems(2) x(2) by auto
    ultimately show ?thesis using False t by auto
  qed
qed

lemma gic_set_pending_ok:
  assumes "gic_ok s" "irq < GIC_MAXIRQ"
  shows "\<exists>t. GIC_SET_PENDING s irq m = Some t \<and> gic_ok t \<and> t = s\<lparr>gic_irqs := gic_irqs t\<rparr>"
proof -
  have sh: "gic_shape s" using assms(1) by (simp add: gic_ok_def)
  show ?thesis
    using gic_accessors(3) [OF sh assms(2), of 0] assms(1)
    by (simp add: GIC_SET_PENDING_def gic_ok_def gic_shape_def)
qed

lemma gic_chain_irqs: "gic_chain (s\<lparr>gic_irqs := x\<rparr>) c ys = gic_chain s c ys"
proof -
  have "gic_la (s\<lparr>gic_irqs := x\<rparr>) = gic_la s" "gic_prio (s\<lparr>gic_irqs := x\<rparr>) = gic_prio s"
    by (simp_all add: gic_la_def gic_prio_def fun_eq_iff)
  moreover from this have "gic_linked (s\<lparr>gic_irqs := x\<rparr>) c ys = gic_linked s c ys"
    by (intro gic_linked_cong) simp
  ultimately show ?thesis by (cases ys) (simp_all add: gic_chain_def)
qed

definition gic_others :: "nat \<Rightarrow> GICState \<Rightarrow> GICState \<Rightarrow> bool" where
  "gic_others cpu s t \<longleftrightarrow> gic_num_irq t = gic_num_irq s \<and> gic_num_cpu t = gic_num_cpu s \<and>
     (\<forall>c ys. c < NCPU \<longrightarrow> c \<noteq> cpu \<longrightarrow> gic_chain s c ys \<longrightarrow> gic_chain t c ys)"

lemma gic_complete_running:
  assumes "gic_ok s" "cpu < NCPU" "gic_chain s cpu (x # xs)"
  shows "\<exists>t. gic_set_running_irq s cpu (gic_la s cpu x) = Some t \<and> gic_ok t \<and> gic_chain t cpu xs \<and> gic_others cpu s t"
proof -
  let ?k = "case xs of [] \<Rightarrow> NO_IRQ | y # _ \<Rightarrow> y"
  have k: "gic_la s cpu x = ?k" "\<forall>y\<in>set xs. y < gic_num_irq s" "sorted_wrt (<) (map (gic_prio s cpu) xs)"
      "gic_linked s cpu xs"
    using assms(3) by (cases xs; simp add: gic_chain_def)+
  then have "?k = NO_IRQ \<or> ?k < gic_num_irq s" by (cases xs) auto
  from gic_set_running_ok [OF assms(1,2) this] obtain t where
    t: "gic_set_running_irq s cpu ?k = Some t" "gic_ok t" "gic_same (gic_run s cpu ?k) t" by blast
  have "gic_chain (gic_run s cpu ?k) cpu xs" using gic_run_chain [OF assms(1,2) k(4,2,3)] .
  moreover have "gic_chain (gic_run s cpu ?k) c ys" if "c \<noteq> cpu" "gic_chain s c ys" for c ys
    by (rule gic_chain_cong [OF that(2)]) (use that(1) in \<open>simp_all add: gic_run_def gic_la_def gic_prio_def\<close>)
  ultimately show ?thesis
    using t k(1) gic_chain_same [OF t(3)] by (auto simp: gic_others_def gic_same_def gic_run_def)
qed

lemma gic_complete_other:
  assumes "gic_ok s" "cpu < NCPU" "gic_chain s cpu (x # xs)" "irq \<noteq> x" "irq < gic_num_irq s"
  shows "\<exists>t. gic_unlink s cpu irq x = Some t \<and> gic_ok t \<and> gic_chain t cpu (x # remove1 irq xs) \<and> gic_others cpu s t"
proof -
  have sh: "gic_shape s" using assms(1) by (simp add: gic_ok_def)
  have le: "gic_num_irq s \<le> GIC_MAXIRQ" using gic_shape_lengths(12) [OF sh] .
  have d: "distinct (x # xs)" using gic_chain_distinct [OF assms(3)] .
  have c: "gic_linked s cpu (x # xs)" "\<forall>y\<in>set (x # xs). y < gic_num_irq s"
      "sorted_wrt (<) (map (gic_prio s cpu) (x # xs))"
    using assms(3) by (simp_all add: gic_chain_def)
  from gic_unlink_ok [OF sh assms(2) _ c(1) d _ assms(4)] c(2) le assms(5) obtain t where
    t: "gic_unlink s cpu irq x = Some t" "gic_shape t" "t = s\<lparr>gic_last_active := gic_last_active t\<rparr>"
      "gic_linked t cpu (x # remove1 irq xs)"
      "\<And>c i. i < GIC_MAXIRQ \<Longrightarrow> c < NCPU \<Longrightarrow> c \<noteq> cpu \<or> i \<notin> set (x # xs) \<Longrightarrow> gic_la t c i = gic_la s c i"
    by fastforce
  have f: "gic_num_irq t = gic_num_irq s" "gic_num_cpu t = gic_num_cpu s" "gic_running_irq t = gic_running_irq s"
      "gic_running_priority t = gic_running_priority s" "gic_priority_mask t = gic_priority_mask s"
      "gic_current_pending t = gic_current_pending s" "gic_prio t = gic_prio s"
    by (subst t(3), simp add: gic_prio_def fun_eq_iff)+
  have "sorted_wrt (<) (map (gic_prio s cpu) (remove1 irq xs))"
    using c(3) by (simp add: sorted_wrt_map sorted_wrt_remove1)
  then have "gic_chain t cpu (x # remove1 irq xs)"
    using assms(3) t(4) f c(2,3) by (auto simp: gic_chain_def dest: set_remove1_subset [THEN subsetD])
  moreover have "gic_chain t k ys" if "k < NCPU" "k \<noteq> cpu" "gic_chain s k ys" for k ys
  proof (rule gic_chain_cong [OF that(3)])
    fix i assume "i \<in> set ys"
    then have "i < GIC_MAXIRQ" using that(3) le by (auto simp: gic_chain_def)
    then show "gic_la t k i = gic_la s k i" using t(5) that by blast
  qed (simp_all add: f)
  ultimately show ?thesis
    using t(1,2) assms(1) f by (auto simp: gic_ok_def gic_others_def)
qed

lemma gic_complete_ok:
  assumes "gic_ok s" "cpu < NCPU" "gic_chain s cpu xs"
  shows "\<exists>t. gic_complete_irq s cpu irq = Some t \<and> gic_ok t \<and> gic_chain t cpu (remove1 irq xs) \<and> gic_others cpu s t"
proof -
  have sh: "gic_shape s" using assms(1) by (simp add: gic_ok_def)
  note l = gic_shape_lengths [OF sh]
  have c: "unat (gic_running_irq s ! cpu) = (case xs of [] \<Rightarrow> NO_IRQ | x # _ \<Rightarrow> x)"
      "\<forall>x\<in>set xs. x < gic_num_irq s" using assms(3) by (simp_all add: gic_chain_def)
  have rn: "nth_opt (gic_running_irq s) cpu = Some (gic_running_irq s ! cpu)"
    using l assms(2) by (simp add: nth_opt_def)
  consider "gic_num_irq s \<le> irq" | "irq < gic_num_irq s" "xs = []"
    | x ys where "irq < gic_num_irq s" "xs = x # ys" by (metis linorder_not_less neq_Nil_conv)
  then show ?thesis
  proof cases
    case 1
    then have "remove1 irq xs = xs" using c(2) by (intro remove1_idem) auto
    with 1 assms(1,3) show ?thesis by (simp add: gic_complete_irq_def gic_others_def)
  next
    case 2
    with c(1) rn assms(1,3) show ?thesis by (simp add: gic_complete_irq_def gic_others_def)
  next
    case (3 x ys)
    have x: "unat (gic_running_irq s ! cpu) = x" "x < GIC_MAXIRQ" "x \<noteq> NO_IRQ" using c 3(2) l(12) by auto
    have im: "irq < GIC_MAXIRQ" using 3(1) l(12) by linarith
    define upd where "upd = (\<not> gi_trigger (gic_irqs s ! irq) \<and> gi_enabled (gic_irqs s ! irq) AND cpu_bit cpu \<noteq> 0 \<and>
      gi_level (gic_irqs s ! irq) AND cpu_bit cpu \<noteq> 0 \<and> gic_irq_target s ! irq AND cpu_bit cpu \<noteq> 0)"
    obtain s1 where s1: "(if upd then GIC_SET_PENDING s irq (cpu_bit cpu) else Some s) = Some s1" "gic_ok s1"
        "s1 = s\<lparr>gic_irqs := gic_irqs s1\<rparr>"
      using gic_set_pending_ok [OF assms(1) im] assms(1) by (cases upd) auto
    have ch1: "gic_chain s1 c zs = gic_chain s c zs" for c zs by (subst s1(3)) (rule gic_chain_irqs)
    have n1: "gic_num_irq s1 = gic_num_irq s" "gic_num_cpu s1 = gic_num_cpu s" by (subst s1(3), simp)+
    have eq: "gic_complete_irq s cpu irq =
        (if irq \<noteq> x then do { t \<leftarrow> gic_unlink s1 cpu irq x; if upd then gic_update t else Some t }
         else gic_set_running_irq s1 cpu (gic_la s1 cpu x))"
      using 3(1) rn x gic_accessors [OF sh im assms(2)] s1(1,2) gic_accessors(5) [OF _ x(2) assms(2), of s1]
      by (simp add: gic_complete_irq_def gic_macros upd_def gic_ok_def cong: if_cong)
    show ?thesis
    proof (cases "irq = x")
      case True
      with gic_complete_running [OF s1(2) assms(2)] 3(2) assms(3) eq show ?thesis
        by (auto simp: ch1 gic_others_def n1)
    next
      case False
      with gic_complete_other [OF s1(2) assms(2), of x ys irq] 3 assms(3) obtain t where
        t: "gic_unlink s1 cpu irq x = Some t" "gic_ok t" "gic_chain t cpu (x # remove1 irq ys)" "gic_others cpu s1 t"
        by (auto simp: ch1 n1)
      from gic_update_ok [OF t(2)] obtain u where
        u: "gic_update t = Some u" "gic_ok u" "gic_same t u" by blast
      show ?thesis
        using eq False t u gic_chain_same [OF u(3)] 3(2)
        by (cases upd) (auto simp: gic_others_def ch1 n1 gic_same_def)
    qed
  qed
qed

end
