(* ===== verification/GicMachine.thy ===== *)
theory GicMachine
  imports GicActive
begin

text \<open>
  The interrupt controller of \<^verbatim>\<open>hw/intc/arm_gic.c\<close> as a machine: input lines that change, byte,
  half-word and word accesses to the distributor and accesses to the CPU interface. Its abstract specification is one stack of
  active interrupts per CPU: reading the acknowledge register pushes the interrupt it reports, writing the
  end-of-interrupt register removes the interrupt that is named, every other event leaves the stacks alone.
  The stacks are ordered by priority, most urgent first.
\<close>

datatype gic_event =
    GSetIrq nat bool
  | GSetPrivate nat nat
  | GDistRead nat nat nat
  | GDistWrite nat nat nat u32
  | GCpuRead nat nat
  | GCpuWrite nat nat u32

fun gic_event_step :: "GICState \<Rightarrow> gic_event \<Rightarrow> (u32 \<times> GICState) option" where
  "gic_event_step s (GSetIrq n level) = map_option (Pair 0) (gic_set_irq s n level)"
| "gic_event_step s (GSetPrivate cpu irq) = map_option (Pair 0) (gic_set_pending_private s cpu irq)"
| "gic_event_step s (GDistRead cpu m a) = map_option (\<lambda>v. (v, s))
     ((if m = 1 then gic_dist_readb else if m = 2 then gic_dist_readw else gic_dist_readl) s cpu a)"
| "gic_event_step s (GDistWrite cpu m a v) = map_option (Pair 0)
     ((if m = 1 then gic_dist_writeb else if m = 2 then gic_dist_writew else gic_dist_writel) s cpu a v)"
| "gic_event_step s (GCpuRead cpu a) = gic_thiscpu_read s cpu a"
| "gic_event_step s (GCpuWrite cpu a v) = map_option (Pair 0) (gic_thiscpu_write s cpu a v)"

type_synonym active_stacks = "nat \<Rightarrow> nat list"

fun active_step :: "active_stacks \<Rightarrow> gic_event \<Rightarrow> u32 \<Rightarrow> active_stacks" where
  "active_step st (GCpuRead cpu a) out =
    (if a = 0x0c \<and> out \<noteq> 1023 then st(cpu := unat out # st cpu) else st)"
| "active_step st (GCpuWrite cpu a v) out =
    (if a = 0x10 then st(cpu := remove1 (unat (v AND 0x3ff)) (st cpu)) else st)"
| "active_step st _ out = st"

text \<open>\<open>gic_inactive s st a\<close>: the byte at \<open>a\<close> of the distributor is not the priority of an active interrupt.\<close>

definition gic_inactive :: "GICState \<Rightarrow> active_stacks \<Rightarrow> nat \<Rightarrow> bool" where
  "gic_inactive s st a \<longleftrightarrow>
    (0x400 \<le> a \<and> a < 0x800 \<longrightarrow> (\<forall>c<gic_num_cpu s. a - 0x400 + GIC_BASE_IRQ s \<notin> set (st c)))"

fun gic_event_ok :: "GICState \<Rightarrow> active_stacks \<Rightarrow> gic_event \<Rightarrow> bool" where
  "gic_event_ok s st (GSetIrq n level) \<longleftrightarrow> n < gic_num_irq s - GIC_INTERNAL + GIC_INTERNAL * gic_num_cpu s"
| "gic_event_ok s st (GSetPrivate cpu irq) \<longleftrightarrow> cpu < gic_num_cpu s \<and> irq < gic_num_irq s"
| "gic_event_ok s st (GDistRead cpu m a) \<longleftrightarrow> cpu < gic_num_cpu s \<and> m \<in> {1, 2, 4} \<and> a + m \<le> 0x1000"
| "gic_event_ok s st (GDistWrite cpu m a v) \<longleftrightarrow> cpu < gic_num_cpu s \<and> m \<in> {1, 2, 4} \<and>
     (m = 4 \<and> a = 0xf00 \<longrightarrow> unat (v AND 0x3ff) < GIC_MAXIRQ) \<and>
     (\<forall>i<m. gic_inactive s st (a + i))"
| "gic_event_ok s st (GCpuRead cpu a) \<longleftrightarrow> cpu < gic_num_cpu s"
| "gic_event_ok s st (GCpuWrite cpu a v) \<longleftrightarrow> cpu < gic_num_cpu s"

definition gic_stacks :: "GICState \<Rightarrow> active_stacks \<Rightarrow> bool" where
  "gic_stacks s st \<longleftrightarrow> gic_ok s \<and> (\<forall>c<gic_num_cpu s. gic_chain s c (st c))"

definition gic_size :: "GICState \<Rightarrow> nat \<times> nat" where
  "gic_size s = (gic_num_cpu s, gic_num_irq s)"

subsection \<open>Operations that leave the active interrupts alone\<close>

definition gic_keeps :: "GICState \<Rightarrow> GICState \<Rightarrow> bool" where
  "gic_keeps s t \<longleftrightarrow> gic_ok t \<and> gic_num_irq t = gic_num_irq s \<and> gic_num_cpu t = gic_num_cpu s \<and>
     gic_last_active t = gic_last_active s \<and> gic_priority1 t = gic_priority1 s \<and>
     gic_priority2 t = gic_priority2 s \<and> gic_running_irq t = gic_running_irq s \<and>
     gic_running_priority t = gic_running_priority s \<and> gic_revision t = gic_revision s"

lemma gic_keeps_refl: "gic_ok s \<Longrightarrow> gic_keeps s s"
  by (simp add: gic_keeps_def)

lemma gic_keeps_stacks: "gic_keeps s t \<Longrightarrow> gic_stacks s st \<Longrightarrow> gic_stacks t st"
  unfolding gic_stacks_def
  by (auto simp: gic_keeps_def gic_la_def gic_prio_def intro!: gic_chain_cong [of s _ _ t])

lemma gic_yields_stacks:
  "yields m (gic_keeps s) \<Longrightarrow> gic_stacks s st \<Longrightarrow> yields m (\<lambda>t. gic_stacks t st \<and> gic_size t = gic_size s)"
  by (erule yields_mono) (simp add: gic_keeps_stacks, simp add: gic_keeps_def gic_size_def)

lemma gic_yields_revision:
  "yields m (gic_keeps s) \<Longrightarrow> gic_stacks s st \<Longrightarrow>
    yields m (\<lambda>t. gic_stacks t st \<and> gic_size t = gic_size s \<and> gic_revision t = gic_revision s)"
  by (erule yields_mono) (simp add: gic_keeps_stacks, simp add: gic_keeps_def gic_size_def)

lemma gic_keeps_tests:
  assumes "gic_keeps s0 s" "irq < GIC_MAXIRQ"
  shows "gic_test s irq P = Some (P (gic_irqs s ! irq))" "GIC_TARGET s irq = Some (gic_irq_target s ! irq)"
  using assms gic_accessors(2,4) [of s irq 0] by (simp_all add: gic_keeps_def gic_ok_def)

lemma gic_mod_keeps: "gic_keeps s0 s \<Longrightarrow> irq < GIC_MAXIRQ \<Longrightarrow> yields (gic_mod s irq f) (gic_keeps s0)"
  by (auto simp: gic_mod_def gic_keeps_def gic_ok_def gic_shape_def)

lemma gic_update_keeps: "gic_keeps s0 s \<Longrightarrow> yields (gic_update s) (gic_keeps s0)"
  using gic_update_ok [of s] by (auto simp: gic_keeps_def gic_same_def yields_def)

lemma gic_set_irq_keeps:
  assumes "gic_ok s" "n < gic_num_irq s - GIC_INTERNAL + GIC_INTERNAL * gic_num_cpu s"
  shows "yields (gic_set_irq s n level) (gic_keeps s)"
proof -
  have k: "gic_keeps s s" using assms(1) by (rule gic_keeps_refl)
  have n: "gic_num_irq s \<le> GIC_MAXIRQ" "32 \<le> gic_num_irq s" using assms(1) by (simp_all add: gic_ok_def gic_shape_def)
  have body: "yields (do { l \<leftarrow> GIC_TEST_LEVEL s irq cm;
         if level = l then Some s
         else do {
           s \<leftarrow> (if level then
                   do { s \<leftarrow> GIC_SET_LEVEL s irq cm;
                        t \<leftarrow> GIC_TEST_TRIGGER s irq;
                        e \<leftarrow> GIC_TEST_ENABLED s irq cm;
                        if t \<or> e then GIC_SET_PENDING s irq target else Some s }
                 else GIC_CLEAR_LEVEL s irq cm);
           gic_update s } }) (gic_keeps s)" if "irq < GIC_MAXIRQ" for irq cm target
    using that k
    by (auto simp: gic_macros gic_keeps_tests intro!: yields_if gic_update_keeps
        gic_mod_keeps [THEN yields_mono])
  show ?thesis
  proof (cases "n < gic_num_irq s - GIC_INTERNAL")
    case True
    then have m: "n + GIC_INTERNAL < GIC_MAXIRQ" using n by linarith
    show ?thesis using True gic_keeps_tests [OF k m] body [OF m]
      by (simp add: gic_set_irq_def)
  next
    case False
    have m: "(n - (gic_num_irq s - GIC_INTERNAL)) mod GIC_INTERNAL < GIC_MAXIRQ"
      using mod_less_divisor [of GIC_INTERNAL "n - (gic_num_irq s - GIC_INTERNAL)"] by linarith
    show ?thesis using False body [OF m] by (simp add: gic_set_irq_def Let_def)
  qed
qed

lemma gic_set_pending_private_keeps:
  assumes "gic_ok s" "irq < gic_num_irq s"
  shows "yields (gic_set_pending_private s cpu irq) (gic_keeps s)"
proof -
  have "irq < GIC_MAXIRQ" using assms by (simp add: gic_ok_def gic_shape_def)
  then show ?thesis using gic_keeps_refl [OF assms(1)]
    by (auto simp: gic_set_pending_private_def gic_macros gic_keeps_tests intro!: gic_update_keeps
        gic_mod_keeps [THEN yields_mono])
qed

lemma gic_window:
  assumes "gic_ok s" "irq < gic_num_irq s" "irq mod 4 = 0"
  shows "i < 4 \<Longrightarrow> irq + i < GIC_MAXIRQ"
    and "irq mod 8 = 0 \<Longrightarrow> i < 8 \<Longrightarrow> irq + i < GIC_MAXIRQ"
proof -
  from assms(1) obtain k where k: "gic_num_irq s = 32 * k" and n: "gic_num_irq s \<le> GIC_MAXIRQ"
    by (auto simp: gic_ok_def gic_shape_def)
  show "i < 4 \<Longrightarrow> irq + i < GIC_MAXIRQ" using k n assms(2,3) by presburger
  show "irq mod 8 = 0 \<Longrightarrow> i < 8 \<Longrightarrow> irq + i < GIC_MAXIRQ" using k n assms(2) by presburger
qed

lemma gic_bits_keep:
  assumes "gic_keeps s0 s" "irq + i < GIC_MAXIRQ"
  shows "yields (gic_set_enable_bit cpu irq v s i) (gic_keeps s0)"
    "yields (gic_clear_enable_bit cpu irq v s i) (gic_keeps s0)"
    "yields (gic_set_pending_bit irq v s i) (gic_keeps s0)"
    "yields (gic_clear_pending_bit irq v s i) (gic_keeps s0)"
    "yields (gic_set_config irq v s i) (gic_keeps s0)"
  using assms
  by (auto simp: gic_set_enable_bit_def gic_clear_enable_bit_def gic_set_pending_bit_def gic_clear_pending_bit_def
      gic_set_config_def gic_macros gic_keeps_tests Let_def intro!: yields_if gic_mod_keeps
      gic_mod_keeps [THEN yields_mono])

lemma gic_loops_keep:
  assumes "gic_ok s" "\<And>i. i \<in> set xs \<Longrightarrow> irq + i < GIC_MAXIRQ"
  shows "yields (do { s \<leftarrow> exec_list (gic_set_enable_bit cpu irq v) s xs; gic_update s }) (gic_keeps s)"
    "yields (do { s \<leftarrow> exec_list (gic_clear_enable_bit cpu irq v) s xs; gic_update s }) (gic_keeps s)"
    "yields (do { s \<leftarrow> exec_list (gic_set_pending_bit irq v) s xs; gic_update s }) (gic_keeps s)"
    "yields (do { s \<leftarrow> exec_list (gic_clear_pending_bit irq v) s xs; gic_update s }) (gic_keeps s)"
    "yields (do { s \<leftarrow> exec_list (gic_set_config irq v) s xs; gic_update s }) (gic_keeps s)"
  by (auto intro!: gic_update_keeps gic_keeps_refl assms gic_bits_keep
      yields_exec_list [of "gic_keeps s", THEN yields_mono])

lemma gic_base_mod: "(x * 8 + GIC_BASE_IRQ s) mod 8 = 0" "(x * 8 + GIC_BASE_IRQ s) mod 4 = 0"
  "(x * 4 + GIC_BASE_IRQ s) mod 4 = 0" "(x * 2 + GIC_BASE_IRQ s) mod 2 = 0"
  by (simp_all add: GIC_BASE_IRQ_def mod_add_eq [symmetric])

lemma gic_fields_keep:
  assumes "gic_ok s"
  shows "gic_keeps s (s\<lparr>gic_enabled := b\<rparr>)"
    "length xs = GIC_MAXIRQ \<Longrightarrow> gic_keeps s (s\<lparr>gic_irq_target := xs\<rparr>)"
    "length ys = NCPU \<Longrightarrow> gic_keeps s (s\<lparr>gic_cpu_enabled := ys\<rparr>)"
    "length zs = NCPU \<Longrightarrow> \<forall>c<NCPU. unat (zs ! c) \<le> 0x100 \<Longrightarrow> gic_keeps s (s\<lparr>gic_priority_mask := zs\<rparr>)"
  using assms by (simp_all add: gic_keeps_def gic_ok_def gic_shape_def)

lemma gic_dist_writeb_keeps:
  assumes "gic_ok s" "\<not> (0x400 \<le> a \<and> a < 0x800)"
  shows "yields (gic_dist_writeb s cur a v) (gic_keeps s)"
proof -
  note keeps = gic_keeps_refl [OF assms(1)]
  have l: "length (gic_irq_target s) = GIC_MAXIRQ" "gic_num_irq s \<le> GIC_MAXIRQ"
    using assms(1) by (simp_all add: gic_ok_def gic_shape_def)
  have fin: "yields (Some s) (gic_keeps s)" "yields (gic_update s) (gic_keeps s)"
      "yields (gic_update (s\<lparr>gic_enabled := b\<rparr>)) (gic_keeps s)" for b
    using keeps gic_update_keeps gic_fields_keep(1) [OF assms(1)] by simp_all
  have w: "i \<in> set [0..<8] \<Longrightarrow> x * 8 + GIC_BASE_IRQ s + i < GIC_MAXIRQ"
    if "\<not> gic_num_irq s \<le> x * 8 + GIC_BASE_IRQ s" for x i
    using gic_window(2) [OF assms(1), of _ i] gic_base_mod(1,2) [of x s] that by simp
  have w4: "i \<in> set [0..<4] \<Longrightarrow> x * 4 + GIC_BASE_IRQ s + i < GIC_MAXIRQ"
    if "\<not> gic_num_irq s \<le> x * 4 + GIC_BASE_IRQ s" for x i
    using gic_window(1) [OF assms(1), of _ i] gic_base_mod(3) [of x s] that by simp
  note loops = gic_loops_keep(1,2,4) [OF assms(1) w] gic_loops_keep(5) [OF assms(1) w4]
  have pend: "yields (do { s \<leftarrow> exec_list (gic_set_pending_bit (if x * 8 + GIC_BASE_IRQ s < 16 then 0
        else x * 8 + GIC_BASE_IRQ s) v) s [0..<8]; gic_update s }) (gic_keeps s)"
    if "\<not> gic_num_irq s \<le> x * 8 + GIC_BASE_IRQ s" for x
    using w [OF that] by (intro gic_loops_keep(3) [OF assms(1)]) auto
  have targ: "yields (do { xs \<leftarrow> set_opt (gic_irq_target s) irq t; gic_update (s\<lparr>gic_irq_target := xs\<rparr>) }) (gic_keeps s)"
    if "\<not> gic_num_irq s \<le> irq" for irq t
    using that l by (auto intro!: gic_update_keeps gic_fields_keep(2) [OF assms(1)])
  show ?thesis
    unfolding gic_dist_writeb_def Let_def
    using assms(2)
    by (intro yields_if) (simp_all only: fin loops pend targ not_False_eq_True simp_thms)
qed

subsection \<open>Priorities of inactive interrupts\<close>

lemma gic_put_priority_ok:
  assumes "gic_ok s" "irq < GIC_MAXIRQ" "cpu < NCPU"
  shows "yields (gic_put_priority s irq cpu v) (\<lambda>t. gic_ok t \<and> gic_num_cpu t = gic_num_cpu s \<and>
    gic_num_irq t = gic_num_irq s \<and> gic_running_irq t = gic_running_irq s \<and>
    gic_running_priority t = gic_running_priority s \<and> gic_revision t = gic_revision s \<and> gic_la t = gic_la s \<and>
    (\<forall>c i. i \<noteq> irq \<longrightarrow> gic_prio t c i = gic_prio s c i))"
proof -
  have sh: "gic_shape s" using assms(1) by (simp add: gic_ok_def)
  note l = gic_shape_lengths [OF sh]
  show ?thesis
  proof (cases "irq < GIC_INTERNAL")
    case True
    let ?row = "(gic_priority1 s ! irq)[cpu := v]"
    have "\<forall>r \<in> set ((gic_priority1 s)[irq := ?row]). length r = NCPU"
      using sh gic_rows(1) [OF sh True] by (auto simp: gic_shape_def dest!: set_update_subset_insert [THEN subsetD])
    then show ?thesis
      using True assms l gic_rows(1) [OF sh True]
      by (auto simp: gic_put_priority_def gic_ok_def gic_shape_def gic_prio_def gic_la_def fun_eq_iff)
  next
    case False
    then show ?thesis
      using assms l by (auto simp: gic_put_priority_def gic_ok_def gic_shape_def gic_prio_def gic_la_def fun_eq_iff)
  qed
qed

lemma gic_dist_writeb_priority:
  assumes "gic_stacks s st" "0x400 \<le> a" "a < 0x800" "cur < gic_num_cpu s"
    "\<forall>c<gic_num_cpu s. a - 0x400 + GIC_BASE_IRQ s \<notin> set (st c)"
  shows "yields (gic_dist_writeb s cur a v) (\<lambda>t. gic_stacks t st \<and> gic_size t = gic_size s \<and> gic_revision t = gic_revision s)"
proof -
  let ?irq = "a - 0x400 + GIC_BASE_IRQ s"
  let ?cpu = "gic_get_current_cpu s cur"
  have ok: "gic_ok s" and ch: "\<forall>c<gic_num_cpu s. gic_chain s c (st c)" using assms(1) by (simp_all add: gic_stacks_def)
  have n: "gic_num_irq s \<le> GIC_MAXIRQ" "gic_num_cpu s \<le> NCPU" "0 < gic_num_cpu s"
    using ok by (simp_all add: gic_ok_def gic_shape_def)
  have cpu: "?cpu < NCPU" using assms(4) n by (simp add: gic_get_current_cpu_def)
  show ?thesis
  proof (cases "?irq < gic_num_irq s")
    case True
    then have im: "?irq < GIC_MAXIRQ" using n by linarith
    have "yields (do { s \<leftarrow> gic_put_priority s ?irq ?cpu (ucast v); gic_update s })
        (\<lambda>t. gic_stacks t st \<and> gic_size t = gic_size s \<and> gic_revision t = gic_revision s)"
      unfolding yields_bind
    proof (rule yields_mono [OF gic_put_priority_ok [OF ok im cpu]], elim conjE)
      fix t
      assume t: "gic_ok t" "gic_num_cpu t = gic_num_cpu s" "gic_num_irq t = gic_num_irq s"
        "gic_running_irq t = gic_running_irq s" "gic_running_priority t = gic_running_priority s" "gic_la t = gic_la s"
        "gic_revision t = gic_revision s" "\<forall>c i. i \<noteq> ?irq \<longrightarrow> gic_prio t c i = gic_prio s c i"
      have "gic_chain t c (st c)" if "c < gic_num_cpu s" for c
      proof (rule gic_chain_cong [of s c "st c" t])
        fix x
        assume "x \<in> set (st c)"
        then have "x \<noteq> ?irq" using assms(5) that by blast
        then show "gic_prio t c x = gic_prio s c x" using t(8) by simp
      qed (use ch that t in simp_all)
      then have "gic_stacks t st" using t by (simp add: gic_stacks_def)
      from gic_yields_revision [OF gic_update_keeps [OF gic_keeps_refl [OF t(1)]] this]
      show "yields (gic_update t) (\<lambda>t. gic_stacks t st \<and> gic_size t = gic_size s \<and> gic_revision t = gic_revision s)"
        using t(2,3,7) by (simp add: gic_size_def)
    qed
    then show ?thesis using assms(2,3) True by (simp add: gic_dist_writeb_def Let_def)
  next
    case False
    then show ?thesis using assms(1,2,3) by (simp add: gic_dist_writeb_def Let_def)
  qed
qed

lemma gic_dist_writeb_stacks:
  assumes "gic_stacks s st" "cur < gic_num_cpu s" "gic_inactive s st a"
  shows "yields (gic_dist_writeb s cur a v) (\<lambda>t. gic_stacks t st \<and> gic_size t = gic_size s \<and> gic_revision t = gic_revision s)"
proof (cases "0x400 \<le> a \<and> a < 0x800")
  case True
  with assms show ?thesis by (intro gic_dist_writeb_priority) (simp_all add: gic_inactive_def)
next
  case False
  have "gic_ok s" using assms(1) by (simp add: gic_stacks_def)
  from gic_yields_revision [OF gic_dist_writeb_keeps [OF this False] assms(1)] show ?thesis by simp
qed

text \<open>What every byte access of a range keeps, a wider access to the range keeps.\<close>

lemma gic_dist_write_wide:
  assumes b: "\<And>h i w. P h \<Longrightarrow> i < m \<Longrightarrow> yields (gic_dist_writeb h cur (a + i) w) P"
    and "P g" "m \<in> {1, 2, 4}" "m = 4 \<Longrightarrow> a \<noteq> 0xf00"
  shows "yields ((if m = 1 then gic_dist_writeb else if m = 2 then gic_dist_writew else gic_dist_writel) g cur a v) P"
proof -
  have w: "yields (gic_dist_writew h cur (a + i) w) P" if "P h" "Suc i < m" for h i w
    unfolding gic_dist_writew_def yields_bind using that(2)
    by (intro yields_mono [OF b [OF that(1)]]) (use b [of _ "Suc i"] in auto)
  have l: "yields (gic_dist_writel g cur a w) P" if "m = 4" for w
    unfolding gic_dist_writel_def if_not_P [OF assms(4) [OF that]] yields_bind
    by (rule yields_mono [OF w [OF assms(2), of 0, unfolded add_0_right]], simp add: that, rule w [of _ 2])
      (simp_all add: that)
  show ?thesis using assms(3) b [OF assms(2), of 0] w [OF assms(2), of 0] l by auto
qed

lemma gic_dist_read_wide:
  assumes b: "\<And>x. x < 0x1000 \<Longrightarrow> yields (gic_dist_readb g cur x) (\<lambda>_. True)" and "a + m \<le> 0x1000" "m \<in> {1, 2, 4}"
  shows "yields ((if m = 1 then gic_dist_readb else if m = 2 then gic_dist_readw else gic_dist_readl) g cur a) (\<lambda>_. True)"
proof -
  have w: "\<exists>v. gic_dist_readw g cur x = Some v" if "x + 1 < 0x1000" for x
    using b [of x] b [of "x + 1"] that by (auto simp: gic_dist_readw_def yields_def)
  have l: "\<exists>v. gic_dist_readl g cur x = Some v" if "x + 3 < 0x1000" for x
    using w [of x] w [of "x + 2"] that by (auto simp: gic_dist_readl_def)
  show ?thesis using assms(2,3) b [of a] w [of a] l [of a] by (auto simp: yields_def)
qed

lemma gic_dist_write_stacks:
  assumes "gic_stacks s st" "cur < gic_num_cpu s" "m \<in> {1, 2, 4}" "m = 4 \<and> a = 0xf00 \<longrightarrow> unat (v AND 0x3ff) < GIC_MAXIRQ"
    and "\<forall>i<m. gic_inactive s st (a + i)"
  shows "yields ((if m = 1 then gic_dist_writeb else if m = 2 then gic_dist_writew else gic_dist_writel) s cur a v)
    (\<lambda>t. gic_stacks t st \<and> gic_size t = gic_size s)"
proof (cases "m = 4 \<and> a = 0xf00")
  case True
  have "gic_ok s" using assms(1) by (simp add: gic_stacks_def)
  then have "yields (gic_mod s (unat (v AND 0x3ff)) f \<bind> gic_update) (gic_keeps s)" for f
    using assms(4) True yields_mono [OF gic_mod_keeps [OF gic_keeps_refl] gic_update_keeps] by simp
  from gic_yields_stacks [OF this assms(1)] True show ?thesis
    by (simp add: gic_dist_writel_def Let_def GIC_SET_PENDING_def)
next
  case False
  let ?P = "\<lambda>t. gic_stacks t st \<and> gic_size t = gic_size s \<and> gic_revision t = gic_revision s"
  have b: "yields (gic_dist_writeb h cur (a + i) w) ?P" if "?P h" "i < m" for h i w
  proof -
    have "gic_num_cpu h = gic_num_cpu s" "gic_inactive h st (a + i)"
      using that assms(5) by (simp_all add: gic_inactive_def gic_size_def GIC_BASE_IRQ_def)
    with that(1) assms(2) show ?thesis by (intro yields_mono [OF gic_dist_writeb_stacks]) auto
  qed
  have "yields ((if m = 1 then gic_dist_writeb else if m = 2 then gic_dist_writew else gic_dist_writel) s cur a v) ?P"
    using False assms(1) by (intro gic_dist_write_wide [OF b _ assms(3)]) auto
  then show ?thesis by (rule yields_mono) simp
qed

subsection \<open>Reads and the CPU interface\<close>

lemma gic_collect_ok: "\<forall>(i, p) \<in> set xs. f i \<noteq> None \<Longrightarrow> yields (gic_collect f xs) (\<lambda>_. True)"
  by (induction f xs rule: gic_collect.induct) (auto simp: yields_def)

lemma gic_dist_readb_ok:
  assumes "gic_ok s" "cur < gic_num_cpu s" "a < 0x1000"
  shows "yields (gic_dist_readb s cur a) (\<lambda>_. True)"
proof -
  have sh: "gic_shape s" using assms(1) by (simp add: gic_ok_def)
  have n: "gic_num_irq s \<le> GIC_MAXIRQ" "gic_num_cpu s \<le> NCPU" "0 < gic_num_cpu s" using sh by (simp_all add: gic_shape_def)
  have cpu: "gic_get_current_cpu s cur < NCPU" using assms(2) n by (simp add: gic_get_current_cpu_def)
  have acc: "gic_test s i P = Some (P (gic_irqs s ! i))"
      "GIC_GET_PRIORITY s i (gic_get_current_cpu s cur) = Some (gic_prio s (gic_get_current_cpu s cur) i)"
      "GIC_TARGET s i = Some (gic_irq_target s ! i)"
    if "i < GIC_MAXIRQ" for i P
    using gic_accessors [OF sh that cpu] by simp_all
  have t: "yields (map_option f (GIC_GET_PRIORITY s i (gic_get_current_cpu s cur))) (\<lambda>_. True)"
      "yields (map_option g (GIC_TARGET s i)) (\<lambda>_. True)"
    if "\<not> gic_num_irq s \<le> i" for i and f :: "nat \<Rightarrow> u32" and g :: "u8 \<Rightarrow> u32"
    using acc [of i] that n(1) by simp_all
  have b: "yields (gic_collect (\<lambda>i. gic_test s i P) (bit_positions (x * 8 + GIC_BASE_IRQ s))) (\<lambda>_. True)"
    if "\<not> gic_num_irq s \<le> x * 8 + GIC_BASE_IRQ s" for x P
    using gic_window(2) [OF assms(1), of "x * 8 + GIC_BASE_IRQ s"] gic_base_mod(1,2) [of x s] that acc(1)
    by (intro gic_collect_ok) (auto simp: bit_positions_def)
  have c: "yields (gic_collect (\<lambda>i. gic_test s i P) (map (\<lambda>i. (x * 2 + GIC_BASE_IRQ s + i, k i)) [0..<4])) (\<lambda>_. True)"
    if "\<not> gic_num_irq s \<le> x * 2 + GIC_BASE_IRQ s" for x P k
  proof -
    from assms(1) obtain m where m: "gic_num_irq s = 32 * m" by (auto simp: gic_ok_def gic_shape_def)
    have "x * 2 + GIC_BASE_IRQ s + i < GIC_MAXIRQ" if "i < 4" for i
      using m n(1) \<open>\<not> gic_num_irq s \<le> x * 2 + GIC_BASE_IRQ s\<close> that gic_base_mod(4) [of x s] by presburger
    with acc(1) show ?thesis by (intro gic_collect_ok) auto
  qed
  have i: "yields (map_option f (nth_opt gic_id ((a - 0xfe0) div 4))) (\<lambda>_. True)" for f :: "u8 \<Rightarrow> u32"
    using assms(3) by (auto simp: nth_opt_def gic_id_def)
  have m8: "(if c then x * 8 else y * 8) = (if c then x else y) * 8" for c and x y :: nat by simp
  show ?thesis
    unfolding gic_dist_readb_def Let_def gic_macros
    by (intro yields_if) (simp_all only: m8 b c i t yields_bind yields_Some not_False_eq_True simp_thms)
qed

lemma gic_stacks_others:
  assumes "gic_stacks s st" "gic_ok t" "gic_chain t cpu xs" "gic_others cpu s t"
  shows "gic_stacks t (st(cpu := xs))" "gic_size t = gic_size s"
proof -
  have "gic_num_cpu s \<le> NCPU" using assms(1) by (simp add: gic_stacks_def gic_ok_def gic_shape_def)
  then show "gic_stacks t (st(cpu := xs))" "gic_size t = gic_size s"
    using assms by (auto simp: gic_stacks_def gic_others_def gic_size_def)
qed

lemma gic_acknowledge_sim:
  assumes "gic_stacks s st" "cpu < gic_num_cpu s"
  shows "yields (gic_acknowledge_irq s cpu) (\<lambda>(irq, t). irq \<le> NO_IRQ \<and>
    gic_stacks t (if irq = NO_IRQ then st else st(cpu := irq # st cpu)) \<and> gic_size t = gic_size s)"
proof -
  have ok: "gic_ok s" and ch: "gic_chain s cpu (st cpu)" and c: "cpu < NCPU"
    using assms by (auto simp: gic_stacks_def gic_ok_def gic_shape_def)
  let ?irq = "unat (gic_current_pending s ! cpu)"
  show ?thesis
  proof (cases "?irq = NO_IRQ \<or> unat (gic_running_priority s ! cpu) \<le> gic_prio s cpu ?irq")
    case True
    with gic_acknowledge_none [OF ok c] assms(1) show ?thesis by simp
  next
    case False
    then have p: "?irq \<noteq> NO_IRQ" "gic_prio s cpu ?irq < unat (gic_running_priority s ! cpu)" by auto
    have "?irq < NO_IRQ" using ok c p(1) by (auto simp: gic_ok_def gic_shape_def)
    moreover from gic_acknowledge_some [OF ok c ch refl p] obtain t where
      "gic_acknowledge_irq s cpu = Some (?irq, t)" "gic_ok t" "gic_chain t cpu (?irq # st cpu)" "gic_others cpu s t"
      unfolding gic_others_def by blast
    ultimately show ?thesis using gic_stacks_others [OF assms(1)] by simp
  qed
qed

lemma gic_current_cpu: "cur < gic_num_cpu s \<Longrightarrow> gic_get_current_cpu s cur = cur"
  by (simp add: gic_get_current_cpu_def)

lemma unat_numeral_1023: "unat (1023 :: u32) = NO_IRQ" "word_of_nat NO_IRQ = (1023 :: u32)"
  by simp_all

lemma gic_cpu_read_sim:
  assumes "gic_stacks s st" "cpu < gic_num_cpu s"
  shows "yields (gic_thiscpu_read s cpu a) (\<lambda>(out, t). gic_stacks t (active_step st (GCpuRead cpu a) out) \<and> gic_size t = gic_size s)"
proof -
  have l: "length (gic_cpu_enabled s) = NCPU" "length (gic_priority_mask s) = NCPU"
      "length (gic_running_priority s) = NCPU" "length (gic_current_pending s) = NCPU" "cpu < NCPU"
    using assms by (auto simp: gic_stacks_def gic_ok_def gic_shape_def)
  show ?thesis
  proof (cases "a = 0x0c")
    case True
    have u: "unat (word_of_nat irq :: u32) = irq" if "irq \<le> NO_IRQ" for irq
      using that by (simp add: unsigned_of_nat take_bit_nat_eq_self_iff)
    then have w: "(word_of_nat irq :: u32) = 1023 \<longleftrightarrow> irq = NO_IRQ" "unat (word_of_nat irq :: u32) = irq"
      if "irq \<le> NO_IRQ" for irq
      using that by (metis unat_numeral_1023, simp)
    from gic_acknowledge_sim [OF assms] obtain irq t where
      "gic_acknowledge_irq s cpu = Some (irq, t)" "irq \<le> NO_IRQ"
      "gic_stacks t (if irq = NO_IRQ then st else st(cpu := irq # st cpu))" "gic_size t = gic_size s"
      by (auto simp: yields_def)
    then show ?thesis using True w assms(2)
      by (simp add: gic_thiscpu_read_def gic_current_cpu gic_cpu_read_def split: if_splits)
  next
    case False
    then show ?thesis using assms l by (simp add: gic_thiscpu_read_def gic_current_cpu gic_cpu_read_def)
  qed
qed

lemma unat_and_ff: "unat ((v::u32) AND 0xff) = unat (ucast v :: u8)"
proof -
  have "v AND 0xff = take_bit 8 v" by (simp add: take_bit_eq_mask mask_eq_exp_minus_1)
  then show ?thesis by (simp add: unat_ucast_down take_bit_eq_mod unat_mod)
qed

lemma gic_cpu_write_sim:
  assumes "gic_stacks s st" "cpu < gic_num_cpu s"
  shows "yields (gic_thiscpu_write s cpu a v) (\<lambda>t. gic_stacks t (active_step st (GCpuWrite cpu a v) out) \<and> gic_size t = gic_size s)"
proof -
  have ok: "gic_ok s" and ch: "gic_chain s cpu (st cpu)" and c: "cpu < NCPU"
    and l: "length (gic_cpu_enabled s) = NCPU" "length (gic_priority_mask s) = NCPU"
    using assms by (auto simp: gic_stacks_def gic_ok_def gic_shape_def)
  have "unat (ucast (v AND 0xff) :: u16) \<le> 0x100"
    using unat_lt2p [of "ucast v :: u8"]
    by (simp add: unat_ucast_down unat_and_ff)
  then have pm: "\<forall>k<NCPU. unat ((gic_priority_mask s)[cpu := ucast (v AND 0xff)] ! k) \<le> 0x100"
    using ok l c by (auto simp: gic_ok_def nth_list_update)
  show ?thesis
  proof (cases "a = 0x10")
    case True
    from gic_complete_ok [OF ok c ch, of "unat (v AND 0x3ff)"] gic_stacks_others [OF assms(1)] show ?thesis
      using True assms(2) by (auto simp: gic_thiscpu_write_def gic_current_cpu gic_cpu_write_def yields_def)
  next
    case False
    have "yields (gic_thiscpu_write s cpu a v) (gic_keeps s)"
      using False assms(2) l c pm
      by (auto simp: gic_thiscpu_write_def gic_current_cpu gic_cpu_write_def
          intro!: gic_update_keeps gic_fields_keep [OF ok] gic_keeps_refl [OF ok])
    from gic_yields_stacks [OF this assms(1)] show ?thesis using False by simp
  qed
qed

lemma gic_event_sim:
  assumes "gic_stacks s st" "gic_event_ok s st e"
  shows "yields (gic_event_step s e) (\<lambda>(out, t). gic_stacks t (active_step st e out) \<and> gic_size t = gic_size s)"
proof -
  have ok: "gic_ok s" using assms(1) by (simp add: gic_stacks_def)
  show ?thesis
  proof (cases e)
    case (GSetIrq n level)
    with assms gic_yields_stacks [OF gic_set_irq_keeps [OF ok]] show ?thesis by simp
  next
    case (GSetPrivate cpu irq)
    with assms gic_yields_stacks [OF gic_set_pending_private_keeps [OF ok]] show ?thesis by simp
  next
    case (GDistRead cpu m a)
    with assms gic_dist_read_wide [OF gic_dist_readb_ok [OF ok], of cpu a m] show ?thesis by simp
  next
    case (GDistWrite cpu m a v)
    with assms gic_dist_write_stacks [OF assms(1), of cpu m a v] show ?thesis by simp
  next
    case (GCpuRead cpu a)
    with assms gic_cpu_read_sim show ?thesis by simp
  next
    case (GCpuWrite cpu a v)
    with assms gic_cpu_write_sim show ?thesis by simp
  qed
qed

interpretation gicsim: simulation gic_event_step active_step gic_event_ok gic_stacks
  by unfold_locales (erule (1) gic_event_sim [THEN yields_mono], auto)

text \<open>Events that are admitted whatever the controller did before.\<close>

fun gic_event_plain :: "nat \<times> nat \<Rightarrow> gic_event \<Rightarrow> bool" where
  "gic_event_plain (ncpu, nirq) (GSetIrq n level) \<longleftrightarrow> n < nirq - GIC_INTERNAL + GIC_INTERNAL * ncpu"
| "gic_event_plain (ncpu, nirq) (GSetPrivate cpu irq) \<longleftrightarrow> cpu < ncpu \<and> irq < nirq"
| "gic_event_plain (ncpu, nirq) (GDistRead cpu m a) \<longleftrightarrow> cpu < ncpu \<and> m \<in> {1, 2, 4} \<and> a + m \<le> 0x1000"
| "gic_event_plain (ncpu, nirq) (GDistWrite cpu m a v) \<longleftrightarrow> cpu < ncpu \<and> m \<in> {1, 2, 4} \<and> a + m \<le> 0x400"
| "gic_event_plain (ncpu, nirq) (GCpuRead cpu a) \<longleftrightarrow> cpu < ncpu"
| "gic_event_plain (ncpu, nirq) (GCpuWrite cpu a v) \<longleftrightarrow> cpu < ncpu"

lemma gic_plain_ok: "gic_event_plain (gic_size s) e \<Longrightarrow> gic_event_ok s st e"
  by (cases e) (auto simp: gic_size_def gic_inactive_def)

lemma gic_plain_guarded:
  "gic_stacks s st \<Longrightarrow> \<forall>e\<in>set es. gic_event_plain (gic_size s) e \<Longrightarrow> io_guarded gic_event_step active_step gic_event_ok s st es"
proof (induction es arbitrary: s st)
  case Nil
  then show ?case by simp
next
  case (Cons e es)
  then have ok: "gic_event_ok s st e" by (simp add: gic_plain_ok)
  from gic_event_sim [OF Cons.prems(1) this] obtain out t where
    "gic_event_step s e = Some (out, t)" "gic_stacks t (active_step st e out)" "gic_size t = gic_size s"
    by (auto simp: yields_def)
  with Cons ok show ?case by simp
qed

lemma gic_reset_stacks:
  assumes "arm_gic_common_realize (gic_zero ncpu nirq revn) = Some s" "0 < ncpu"
  shows "gic_stacks (arm_gic_common_reset s) (\<lambda>_. [])" "gic_num_cpu s = ncpu"
proof -
  have z: "GIC_BASE_IRQ (gic_zero ncpu nirq revn\<lparr>gic_num_irq := k\<rparr>) = GIC_BASE_IRQ (gic_zero ncpu nirq revn)" for k
    by (simp add: GIC_BASE_IRQ_def)
  from assms obtain k where s: "s = gic_zero ncpu nirq revn\<lparr>gic_num_irq := k\<rparr>" and k: "k \<le> GIC_MAXIRQ" "32 \<le> k" "k mod 32 = 0"
    and n: "ncpu \<le> NCPU"
    by (auto simp: arm_gic_common_realize_def gic_zero_def Let_def split: if_splits)
  show "gic_num_cpu s = ncpu" using s by (simp add: gic_zero_def)
  have nth: "set_upto n x xs ! c = (if c < n then x else xs ! c)" if "c < length xs" for n c and x :: u16 and xs
    using that by (simp add: set_upto_def nth_append)
  have len: "n \<le> length xs \<Longrightarrow> length (set_upto n x xs) = length xs" for n and x :: 'a and xs
    by (simp add: set_upto_def)
  show "gic_stacks (arm_gic_common_reset s) (\<lambda>_. [])"
    using k n assms(2) unfolding s
    by (auto simp: gic_stacks_def gic_ok_def gic_shape_def arm_gic_common_reset_def gic_zero_def Let_def nth set_upto_def
        gic_chain_def nth_append)
qed

text \<open>C5: the active interrupts are a stack per CPU. From the reset of a controller with any number of CPUs and
  interrupts that realizes, along every sequence of changes of input lines, private interrupts, byte, half-word and
  word accesses to the distributor and accesses to the CPU interface that never writes the priority of an active
  interrupt nor a number of 1020 or more to the software interrupt register, every operation ends and stays within its
  arrays; the walk of \<open>gic_complete_irq\<close> in particular. Following the reported values, an acknowledge
  that reports an interrupt pushes it, an end of interrupt removes the interrupt it names wherever it is, nothing
  else changes the stacks, and each stack is strictly ordered by priority with its top the running interrupt.\<close>

theorem gic_active_stacks:
  assumes "arm_gic_common_realize (gic_zero ncpu nirq revn) = Some s" "0 < ncpu"
    and "io_guarded gic_event_step active_step gic_event_ok (arm_gic_common_reset s) (\<lambda>_. []) es"
  shows "\<exists>outs t. io_run gic_event_step (arm_gic_common_reset s) es = Some (outs, t) \<and>
    (\<forall>cpu<gic_num_cpu t. let st = follow active_step (\<lambda>_. []) es outs cpu in
       sorted_wrt (<) (map (gic_prio t cpu) st) \<and>
       unat (gic_running_irq t ! cpu) = (case st of [] \<Rightarrow> NO_IRQ | irq # _ \<Rightarrow> irq))"
proof -
  from gicsim.run_sim [OF gic_reset_stacks(1) [OF assms(1,2)] assms(3)] obtain outs t where
    "io_run gic_event_step (arm_gic_common_reset s) es = Some (outs, t)"
    "gic_stacks t (follow active_step (\<lambda>_. []) es outs)" by blast
  then show ?thesis by (auto simp: gic_stacks_def gic_chain_def Let_def)
qed

definition gic_demo :: "gic_event list" where
  "gic_demo = [GDistWrite 0 1 0 1, GCpuWrite 0 0 1, GCpuWrite 0 4 0xff, GDistWrite 0 4 0x104 3, GSetIrq 0 True,
     GCpuRead 0 0xc, GSetIrq 1 True, GCpuRead 0 0xc, GCpuWrite 0 0x10 32, GCpuWrite 0 0x10 33]"

definition gic_small :: GICState where
  "gic_small = arm_gic_common_reset (gic_zero 1 64 2)"

lemma gic_small_realized: "arm_gic_common_realize (gic_zero 1 64 2) = Some (gic_zero 1 64 2)"
  by (simp add: arm_gic_common_realize_def gic_zero_def GIC_BASE_IRQ_def Let_def)

lemma gic_small_stacks: "gic_stacks gic_small (\<lambda>_. [])" "gic_ok gic_small" "gic_size gic_small = (1, 64)"
proof -
  show *: "gic_stacks gic_small (\<lambda>_. [])"
    unfolding gic_small_def by (rule gic_reset_stacks(1) [OF gic_small_realized]) simp
  then show "gic_ok gic_small" by (simp add: gic_stacks_def)
  show "gic_size gic_small = (1, 64)"
    by (simp add: gic_small_def gic_zero_def arm_gic_common_reset_def gic_size_def Let_def)
qed

theorem gic_active_stacks_witness:
  "\<exists>outs t. io_run gic_event_step gic_small gic_demo = Some (outs, t) \<and>
    (\<forall>cpu<gic_num_cpu t. let st = follow active_step (\<lambda>_. []) gic_demo outs cpu in
       sorted_wrt (<) (map (gic_prio t cpu) st) \<and>
       unat (gic_running_irq t ! cpu) = (case st of [] \<Rightarrow> NO_IRQ | irq # _ \<Rightarrow> irq))"
proof -
  have "io_guarded gic_event_step active_step gic_event_ok gic_small (\<lambda>_. []) gic_demo"
    by (rule gic_plain_guarded [OF gic_small_stacks(1)]) (simp_all add: gic_small_stacks(3) gic_demo_def)
  from gic_active_stacks [OF gic_small_realized _ this [unfolded gic_small_def]] show ?thesis
    by (simp add: gic_small_def)
qed

text \<open>C17: what is signalled and what is acknowledged. On a controller with one CPU, after \<open>gic_update\<close> the line
  to the CPU is up exactly when distributor and CPU interface are enabled and some enabled pending interrupt is
  more urgent than both the priority mask and the running priority; when it is up, the next read of the acknowledge
  register reports the most urgent enabled pending interrupt, the lowest numbered of several.\<close>

theorem gic_signals_most_urgent:
  assumes "gic_stacks s st" "gic_num_cpu s = 1"
  shows "\<exists>t. gic_update s = Some t \<and>
    (gic_parent_irq t ! 0 \<longleftrightarrow> gic_enabled s \<and> gic_cpu_enabled s ! 0 \<and>
       (\<exists>j<gic_num_irq s. gic_ready s 0 j \<and> gic_prio s 0 j < unat (gic_priority_mask s ! 0) \<and>
          gic_prio s 0 j < unat (gic_running_priority s ! 0))) \<and>
    (gic_parent_irq t ! 0 \<longrightarrow> (\<exists>irq u. gic_acknowledge_irq t 0 = Some (irq, u) \<and> gic_is_best s 0 (gic_num_irq s) irq))"
proof -
  have ok: "gic_ok s" using assms(1) by (simp add: gic_stacks_def)
  have l: "length (gic_parent_irq s) = NCPU" "length (gic_current_pending s) = NCPU" using ok by (simp_all add: gic_ok_def gic_shape_def)
  from gic_update_single [OF ok assms(2)] obtain irq level where
    sig: "gic_signalled s 0 irq level" and irq: "irq = NO_IRQ \<or> irq < gic_num_irq s"
    and u: "gic_update s = Some (gic_put s 0 irq level)" by blast
  let ?t = "gic_put s 0 irq level"
  have "gic_keeps s ?t" using gic_update_keeps [OF gic_keeps_refl [OF ok]] u by simp
  then have okt: "gic_ok ?t" and ch: "gic_chain ?t 0 (st 0)"
    using gic_keeps_stacks [OF _ assms(1)] by (auto simp: gic_stacks_def gic_put_def assms(2))
  have p: "gic_parent_irq ?t ! 0 = level" using l by (simp add: gic_put_def)
  have c: "unat (gic_current_pending ?t ! 0) = irq"
    using irq l ok by (auto simp: gic_put_def gic_ok_def gic_shape_def unat_irq)
  have prio: "gic_prio ?t 0 irq = gic_prio s 0 irq" "gic_running_priority ?t = gic_running_priority s"
    by (simp_all add: gic_put_def gic_prio_def)
  have "\<exists>irq u. gic_acknowledge_irq ?t 0 = Some (irq, u) \<and> gic_is_best s 0 (gic_num_irq s) irq" if level
  proof -
    from that sig have b: "gic_is_best s 0 (gic_num_irq s) irq" "gic_prio s 0 irq < unat (gic_running_priority s ! 0)"
      by (auto simp: gic_signalled_def split: if_splits)
    then have "irq \<noteq> NO_IRQ" using ok by (auto simp: gic_is_best_def gic_ok_def gic_shape_def)
    with gic_acknowledge_some [OF okt _ ch c [symmetric]] b prio show ?thesis by auto
  qed
  moreover have "level \<longleftrightarrow> gic_enabled s \<and> gic_cpu_enabled s ! 0 \<and>
       (\<exists>j<gic_num_irq s. gic_ready s 0 j \<and> gic_prio s 0 j < unat (gic_priority_mask s ! 0) \<and>
          gic_prio s 0 j < unat (gic_running_priority s ! 0))"
    using sig by (fastforce simp: gic_signalled_def gic_is_best_def split: if_splits)
  ultimately show ?thesis using u p by auto
qed

definition gic_pending32 :: GICState where
  "gic_pending32 = gic_small\<lparr>gic_enabled := True, gic_cpu_enabled := replicate NCPU True,
     gic_priority_mask := replicate NCPU 0xff,
     gic_irqs := (gic_irqs gic_small)[32 := \<lparr>gi_enabled = 0xff, gi_pending = 1, gi_active = 0, gi_level = 0,
       gi_model = False, gi_trigger = True\<rparr>]\<rparr>"

lemma gic_pending32_stacks: "gic_stacks gic_pending32 (\<lambda>_. [])" "gic_ok gic_pending32"
proof -
  have "gic_keeps gic_small gic_pending32"
    using gic_small_stacks(2) by (auto simp: gic_keeps_def gic_pending32_def gic_ok_def gic_shape_def)
  then show "gic_stacks gic_pending32 (\<lambda>_. [])" using gic_keeps_stacks gic_small_stacks(1) by blast
  then show "gic_ok gic_pending32" by (simp add: gic_stacks_def)
qed

lemma gic_pending32_fields: "gic_num_cpu gic_pending32 = 1" "gic_num_irq gic_pending32 = 64" "gic_ready gic_pending32 0 32"
  "gic_prio gic_pending32 0 32 = 0" "unat (gic_running_priority gic_pending32 ! 0) = 0x100"
proof -
  have l: "length (gic_irqs gic_small) = GIC_MAXIRQ" using gic_small_stacks(2) by (simp add: gic_ok_def gic_shape_def)
  show "gic_ready gic_pending32 0 32" using l by (simp add: gic_ready_def gic_pending32_def cpu_bit_def)
qed (use gic_small_stacks(3) in \<open>simp_all add: gic_pending32_def gic_size_def gic_small_def gic_prio_def
    arm_gic_common_reset_def gic_zero_def Let_def set_upto_def nth_append\<close>)

theorem gic_signals_most_urgent_witness:
  "\<exists>t irq u. gic_update gic_pending32 = Some t \<and> gic_parent_irq t ! 0 \<and>
     gic_acknowledge_irq t 0 = Some (irq, u) \<and> gic_is_best gic_pending32 0 64 irq"
proof -
  have "\<exists>j<gic_num_irq gic_pending32. gic_ready gic_pending32 0 j \<and>
      gic_prio gic_pending32 0 j < unat (gic_priority_mask gic_pending32 ! 0) \<and>
      gic_prio gic_pending32 0 j < unat (gic_running_priority gic_pending32 ! 0)"
    by (rule exI [of _ 32]) (simp add: gic_pending32_fields, simp add: gic_pending32_def)
  moreover have "gic_enabled gic_pending32" "gic_cpu_enabled gic_pending32 ! 0" by (simp_all add: gic_pending32_def)
  ultimately show ?thesis
    using gic_signals_most_urgent [OF gic_pending32_stacks(1) gic_pending32_fields(1)] gic_pending32_fields(2) by auto
qed

text \<open>the software interrupt register takes interrupt numbers up to 1023, the controller has 1020: on every
  well-formed controller a write leaves the array of interrupts exactly when the number is 1020 or more.\<close>

theorem gic_sgi_range:
  assumes "gic_ok s"
  shows "gic_dist_writel s cur 0xf00 v = None \<longleftrightarrow> GIC_MAXIRQ \<le> unat (v AND 0x3ff)"
proof (cases "unat (v AND 0x3ff) < GIC_MAXIRQ")
  case True
  have "yields (do { t \<leftarrow> gic_mod s (unat (v AND 0x3ff)) f; gic_update t }) (gic_keeps s)" for f
    using yields_mono [OF gic_mod_keeps [OF gic_keeps_refl [OF assms] True] gic_update_keeps] by simp
  then have "do { t \<leftarrow> gic_mod s (unat (v AND 0x3ff)) f; gic_update t } \<noteq> None" for f by (auto simp: yields_def)
  with True show ?thesis by (simp add: gic_dist_writel_def Let_def GIC_SET_PENDING_def)
next
  case False
  then show ?thesis
    using assms by (simp add: gic_dist_writel_def Let_def GIC_SET_PENDING_def gic_mod_def nth_opt_def gic_ok_def gic_shape_def)
qed

theorem gic_sgi_range_witness: "gic_dist_writel gic_small 0 0xf00 0x020003fd = None"
proof -
  have "GIC_MAXIRQ \<le> unat ((0x020003fd::u32) AND 0x3ff)" by simp
  with gic_sgi_range [OF gic_small_stacks(2), of 0 "0x020003fd"] show ?thesis by blast
qed

lemma gic_unlink_loop:
  assumes "gic_get_last_active s x cpu = Some x" "x \<noteq> irq" "x \<noteq> NO_IRQ"
  shows "gic_unlink s cpu irq x = None"
proof -
  have "\<not> (s' = s \<and> cpu' = cpu \<and> irq' = irq \<and> x' = x)" if "gic_unlink s' cpu' irq' x' = Some t" for s' cpu' irq' x' t
    by (rule gic_unlink.raw_induct [OF _ that, where P = "\<lambda>s' cpu' irq' x' t. \<not> (s' = s \<and> cpu' = cpu \<and> irq' = irq \<and> x' = x)"])
      (use assms in \<open>auto, blast\<close>)
  then show ?thesis by (cases "gic_unlink s cpu irq x") (auto, blast)
qed

text \<open>C35: completing an interrupt may never return. If an interrupt that is running becomes pending again with a
  priority more urgent than its running priority (its priority was raised while active), acknowledging it links it
  to itself; from then on completing any other interrupt walks the chain for ever.\<close>

theorem gic_reacknowledge_hangs:
  assumes "gic_ok s" "cpu < NCPU" "irq < gic_num_irq s" "other < gic_num_irq s" "other \<noteq> irq"
    and "unat (gic_current_pending s ! cpu) = irq" "unat (gic_running_irq s ! cpu) = irq"
    and "gic_prio s cpu irq < unat (gic_running_priority s ! cpu)"
  shows "\<exists>t. gic_acknowledge_irq s cpu = Some (irq, t) \<and> gic_complete_irq t cpu other = None"
proof -
  have im: "irq < GIC_MAXIRQ" "other < GIC_MAXIRQ" "irq \<le> NO_IRQ" "irq \<noteq> NO_IRQ"
    using assms(1,3,4) by (auto simp: gic_ok_def gic_shape_def)
  have "unat (gic_running_irq s ! cpu) \<le> NO_IRQ" using assms(7) im by simp
  from gic_acknowledge_effect [OF assms(1,2) this assms(6) [symmetric] im(4) assms(8)] obtain u t where
    ack: "gic_acknowledge_irq s cpu = Some (irq, t)" and ok: "gic_ok t" and same: "gic_same (gic_run u cpu irq) t"
    and n: "gic_num_irq u = gic_num_irq s" and u: "gic_ok u"
    and all_la: "\<forall>c i. i < GIC_MAXIRQ \<longrightarrow> c < NCPU \<longrightarrow>
      gic_la u c i = (if c = cpu \<and> i = irq then unat (gic_running_irq s ! cpu) else gic_la s c i)" by blast
  have la: "gic_la u cpu irq = irq" using all_la assms(2,7) im(1) by simp
  have sh: "gic_shape t" using ok by (simp add: gic_ok_def)
  have f: "gic_num_irq t = gic_num_irq s" "gic_la t cpu irq = irq" "unat (gic_running_irq t ! cpu) = irq"
    using same n la u assms(2) im by (simp_all add: gic_same_def gic_run_def gic_la_def gic_ok_def gic_shape_def unat_irq)
  have hang: "gic_unlink t' cpu other irq = None" if "gic_shape t'" "gic_la t' cpu irq = irq" for t'
    using gic_unlink_loop gic_accessors(5) [OF that(1) im(1) assms(2)] that(2) assms(5) im(4) by metis
  from gic_set_pending_ok [OF ok im(2)] obtain t' where
    t': "GIC_SET_PENDING t other (cpu_bit cpu) = Some t'" "gic_ok t'" "t' = t\<lparr>gic_irqs := gic_irqs t'\<rparr>" by blast
  have "gic_la t' cpu irq = irq" by (subst t'(3)) (use f(2) in \<open>simp add: gic_la_def\<close>)
  then have "gic_complete_irq t cpu other = None"
    using f assms(2,4,5) im hang [OF sh f(2)] hang [of t'] t'(1,2) gic_accessors [OF sh im(2) assms(2)] gic_shape_lengths(6) [OF sh]
    by (simp add: gic_complete_irq_def GIC_TEST_TRIGGER_def GIC_TEST_ENABLED_def GIC_TEST_LEVEL_def gic_ok_def Let_def)
  with ack show ?thesis by blast
qed

definition gic_rearmed :: GICState where
  "gic_rearmed = gic_small\<lparr>gic_current_pending := replicate NCPU 32, gic_running_irq := replicate NCPU 32,
     gic_running_priority := replicate NCPU 0x80\<rparr>"

theorem gic_reacknowledge_hangs_witness:
  "\<exists>t. gic_acknowledge_irq gic_rearmed 0 = Some (32, t) \<and> gic_complete_irq t 0 33 = None"
proof (rule gic_reacknowledge_hangs)
  show "gic_ok gic_rearmed"
    using gic_small_stacks(2,3) by (auto simp: gic_rearmed_def gic_ok_def gic_shape_def gic_size_def)
  show "gic_prio gic_rearmed 0 32 < unat (gic_running_priority gic_rearmed ! 0)"
    by (simp add: gic_rearmed_def gic_small_def gic_prio_def arm_gic_common_reset_def gic_zero_def Let_def)
qed (use gic_small_stacks(3) in \<open>simp_all add: gic_rearmed_def gic_size_def\<close>)

end
