(* ===== verification/QemuTimer.thy ===== *)
theory QemuTimer
  imports Interfaces
begin

text \<open>
  The timers of \<^verbatim>\<open>qemu-timer.c\<close>. A clock has a list of active timers, the next to expire first; a
  timer is its number together with the expiry time in nanoseconds (\<open>int64_t\<close>, here an integer that is
  checked against the range of the type where the code computes one).

  \<open>qemu_run_timers\<close> calls the callbacks of the expired timers; a callback may change the list. The callbacks
  belong to the devices: the loop takes them as an argument, together with the access to the list in the
  state they work on. The loop may not end; its value is then \<open>None\<close>.

  The specification of a clock is the list of timers in the order in which they were armed. The lemmas
  show that the list of the code is the stable sort of it by expiry time, and that the loop calls the
  expired timers in that order. The host's alarm, which wakes the main loop, is only modelled up to
  the deadline it is set to.
\<close>

type_synonym qemu_timer = "nat \<times> int"

abbreviation INT64_MAX :: int where "INT64_MAX \<equiv> 2 ^ 63 - 1"
abbreviation INT32_MAX :: int where "INT32_MAX \<equiv> 2 ^ 31 - 1"

definition int64 :: "int \<Rightarrow> int option" where
  "int64 x = (if - (2 ^ 63) \<le> x \<and> x < 2 ^ 63 then Some x else None)"

record QEMUClock =
  qc_active :: "qemu_timer list"
  qc_enabled :: bool

definition qemu_new_clock :: QEMUClock where
  "qemu_new_clock = \<lparr>qc_active = [], qc_enabled = True\<rparr>"

definition qemu_clock_has_timers :: "QEMUClock \<Rightarrow> bool" where
  "qemu_clock_has_timers c \<longleftrightarrow> qc_active c \<noteq> []"

fun qemu_timer_expired_ns :: "qemu_timer list \<Rightarrow> int \<Rightarrow> bool" where
  "qemu_timer_expired_ns [] now = False"
| "qemu_timer_expired_ns (t # _) now = (snd t \<le> now)"

definition qemu_next_delta :: "QEMUClock \<Rightarrow> int \<Rightarrow> int \<Rightarrow> int option" where
  "qemu_next_delta c now delta =
    (case qc_active c of
       [] \<Rightarrow> Some delta
     | t # _ \<Rightarrow> if qc_enabled c then do { d \<leftarrow> int64 (snd t - now); Some (if d < delta then d else delta) } else Some delta)"

definition qemu_next_alarm_deadline ::
  "bool \<Rightarrow> QEMUClock \<times> int \<Rightarrow> QEMUClock \<times> int \<Rightarrow> QEMUClock \<times> int \<Rightarrow> int option"
where
  "qemu_next_alarm_deadline use_icount vm host rt =
    do { delta \<leftarrow> (if \<not> use_icount then qemu_next_delta (fst vm) (snd vm) INT64_MAX else Some INT64_MAX);
         delta \<leftarrow> qemu_next_delta (fst host) (snd host) delta;
         qemu_next_delta (fst rt) (snd rt) delta }"

definition qemu_clock_expired :: "QEMUClock \<Rightarrow> int \<Rightarrow> bool" where
  "qemu_clock_expired c now = (case qc_active c of [] \<Rightarrow> False | t # _ \<Rightarrow> snd t < now)"

definition qemu_clock_deadline :: "QEMUClock \<Rightarrow> int \<Rightarrow> int option" where
  "qemu_clock_deadline c now =
    do { delta \<leftarrow> (case qc_active c of [] \<Rightarrow> Some INT32_MAX | t # _ \<Rightarrow> int64 (snd t - now));
         Some (if delta < 0 then 0 else delta) }"

fun qemu_del_timer :: "nat \<Rightarrow> qemu_timer list \<Rightarrow> qemu_timer list" where
  "qemu_del_timer ts [] = []"
| "qemu_del_timer ts (t # l) = (if fst t = ts then l else t # qemu_del_timer ts l)"

fun qemu_link_timer :: "qemu_timer \<Rightarrow> qemu_timer list \<Rightarrow> qemu_timer list" where
  "qemu_link_timer ts [] = [ts]"
| "qemu_link_timer ts (t # l) =
    (if \<not> qemu_timer_expired_ns (t # l) (snd ts) then ts # t # l else t # qemu_link_timer ts l)"

definition qemu_mod_timer_ns :: "nat \<Rightarrow> int \<Rightarrow> qemu_timer list \<Rightarrow> qemu_timer list" where
  "qemu_mod_timer_ns ts expire_time l = qemu_link_timer (ts, expire_time) (qemu_del_timer ts l)"

definition qemu_mod_timer :: "int \<Rightarrow> nat \<Rightarrow> int \<Rightarrow> qemu_timer list \<Rightarrow> qemu_timer list option" where
  "qemu_mod_timer scale ts expire_time l =
    do { e \<leftarrow> int64 (expire_time * scale); Some (qemu_mod_timer_ns ts e l) }"

fun qemu_timer_pending :: "nat \<Rightarrow> qemu_timer list \<Rightarrow> bool" where
  "qemu_timer_pending ts [] = False"
| "qemu_timer_pending ts (t # l) = (fst t = ts \<or> qemu_timer_pending ts l)"

partial_function (option) qemu_run_loop ::
  "('w \<Rightarrow> qemu_timer list) \<Rightarrow> (qemu_timer list \<Rightarrow> 'w \<Rightarrow> 'w) \<Rightarrow> (nat \<Rightarrow> 'w \<Rightarrow> 'w option) \<Rightarrow> int \<Rightarrow> 'w \<Rightarrow> 'w option"
where
  "qemu_run_loop active put cb now w =
    (if \<not> qemu_timer_expired_ns (active w) now then Some w
     else do { w' \<leftarrow> cb (fst (hd (active w))) (put (tl (active w)) w); qemu_run_loop active put cb now w' })"

definition qemu_run_timers ::
  "bool \<Rightarrow> ('w \<Rightarrow> qemu_timer list) \<Rightarrow> (qemu_timer list \<Rightarrow> 'w \<Rightarrow> 'w) \<Rightarrow> (nat \<Rightarrow> 'w \<Rightarrow> 'w option) \<Rightarrow> int \<Rightarrow> 'w \<Rightarrow> 'w option"
where
  "qemu_run_timers enabled active put cb now w =
    (if \<not> enabled then Some w else qemu_run_loop active put cb now w)"

subsection \<open>The order of the list\<close>

datatype timer_op = Arm nat int | Disarm nat

fun timer_step :: "qemu_timer list \<Rightarrow> timer_op \<Rightarrow> qemu_timer list" where
  "timer_step l (Arm ts e) = qemu_mod_timer_ns ts e l"
| "timer_step l (Disarm ts) = qemu_del_timer ts l"

fun armed_step :: "qemu_timer list \<Rightarrow> timer_op \<Rightarrow> qemu_timer list" where
  "armed_step a (Arm ts e) = filter (\<lambda>t. fst t \<noteq> ts) a @ [(ts, e)]"
| "armed_step a (Disarm ts) = filter (\<lambda>t. fst t \<noteq> ts) a"

definition armed :: "timer_op list \<Rightarrow> qemu_timer list" where
  "armed ops = foldl armed_step [] ops"

lemma qemu_del_timer_filter: "distinct (map fst l) \<Longrightarrow> qemu_del_timer ts l = filter (\<lambda>t. fst t \<noteq> ts) l"
proof (induction l)
  case (Cons t l)
  then show ?case by (cases "fst t = ts") (auto simp: image_iff intro!: filter_True [symmetric])
qed simp

lemma qemu_link_insort:
  "snd a \<le> snd x \<Longrightarrow> sorted (map snd l) \<Longrightarrow> qemu_link_timer x (insort_key snd a l) = insort_key snd a (qemu_link_timer x l)"
  by (induction l) auto

lemma qemu_link_insort_later:
  "snd x < snd a \<Longrightarrow> sorted (map snd l) \<Longrightarrow> qemu_link_timer x (insort_key snd a l) = insort_key snd a (qemu_link_timer x l)"
  by (induction l) auto

lemma qemu_link_sort: "qemu_link_timer x (sort_key snd xs) = sort_key snd (xs @ [x])"
proof (induction xs)
  case (Cons a xs)
  have "qemu_link_timer x (insort_key snd a (sort_key snd xs)) = insort_key snd a (qemu_link_timer x (sort_key snd xs))"
    by (cases "snd a \<le> snd x") (simp_all add: qemu_link_insort qemu_link_insort_later)
  with Cons show ?case by simp
qed simp

lemma timer_step_sort:
  assumes "distinct (map fst a)"
  shows "timer_step (sort_key snd a) op = sort_key snd (armed_step a op)" "distinct (map fst (armed_step a op))"
proof -
  have "distinct (map fst (sort_key snd a))"
    using assms by (simp add: distinct_map inj_on_def)
  then have d: "qemu_del_timer ts (sort_key snd a) = sort_key snd (filter (\<lambda>t. fst t \<noteq> ts) a)" for ts
    by (simp add: qemu_del_timer_filter filter_sort)
  show "timer_step (sort_key snd a) op = sort_key snd (armed_step a op)"
    by (cases op) (simp_all add: qemu_mod_timer_ns_def d qemu_link_sort)
  show "distinct (map fst (armed_step a op))"
    using assms by (cases op) (auto simp: distinct_map_filter)
qed

lemma timer_list_sort: "foldl timer_step [] ops = sort_key snd (armed ops)" "distinct (map fst (armed ops))"
proof -
  have "foldl timer_step (sort_key snd a) ops = sort_key snd (foldl armed_step a ops) \<and> distinct (map fst (foldl armed_step a ops))"
    if "distinct (map fst a)" for a
    using that
  proof (induction ops arbitrary: a)
    case (Cons op ops)
    from timer_step_sort [OF Cons.prems, of op] Cons.IH show ?case by simp
  qed simp
  from this [of "[]"] show "foldl timer_step [] ops = sort_key snd (armed ops)" "distinct (map fst (armed ops))"
    by (simp_all add: armed_def)
qed

subsection \<open>The alarm\<close>

definition clock_waits :: "QEMUClock \<times> int \<Rightarrow> int list" where
  "clock_waits c = (if qc_enabled (fst c) then map (\<lambda>t. snd t - snd c) (qc_active (fst c)) else [])"

lemma qemu_next_delta_Min:
  assumes "sorted (map snd (qc_active (fst c)))" "qemu_next_delta (fst c) (snd c) delta = Some d"
  shows "d = Min (insert delta (set (clock_waits c)))"
proof (cases "qc_active (fst c)")
  case Nil
  then show ?thesis using assms by (simp add: qemu_next_delta_def clock_waits_def)
next
  case (Cons t l)
  with assms(1) have le: "snd t \<le> snd u" if "u \<in> set l" for u using that by auto
  show ?thesis
    using assms(2) Cons
    by (intro Min_eqI [symmetric])
      (auto simp: qemu_next_delta_def clock_waits_def int64_def split: if_splits dest: le)
qed

text \<open>The host alarm is set to the shortest time any timer of an enabled clock has to wait.\<close>

lemma qemu_next_alarm_Min:
  assumes "\<forall>c\<in>{vm, host, rt}. sorted (map snd (qc_active (fst c)))"
    and "qemu_next_alarm_deadline False vm host rt = Some d"
  shows "d = Min (insert INT64_MAX (set (clock_waits vm) \<union> set (clock_waits host) \<union> set (clock_waits rt)))"
proof -
  from assms(2) obtain a b where ab: "qemu_next_delta (fst vm) (snd vm) INT64_MAX = Some a"
      "qemu_next_delta (fst host) (snd host) a = Some b" "qemu_next_delta (fst rt) (snd rt) b = Some d"
    by (auto simp: qemu_next_alarm_deadline_def split: bind_splits)
  have mm: "Min (insert (Min (insert x A)) B) = Min (insert x (A \<union> B))" if "finite A" "finite B" for x :: int and A B
  proof (cases "B = {}")
    case False
    then show ?thesis using that Min_Un [of "insert x A" B] by (simp add: Min_insert)
  qed simp
  from ab assms(1) have "a = Min (insert INT64_MAX (set (clock_waits vm)))" "b = Min (insert a (set (clock_waits host)))"
      "d = Min (insert b (set (clock_waits rt)))"
    by (simp_all add: qemu_next_delta_Min)
  then show ?thesis by (simp add: mm Un_assoc)
qed

subsection \<open>Running the expired timers\<close>

text \<open>A state of the loop: the list of the clock and the timers that were called. The callback of a timer may
  arm the timer again; when, is the argument.\<close>

type_synonym timer_world = "qemu_timer list \<times> nat list"

definition rearm_cb :: "(nat \<Rightarrow> int option) \<Rightarrow> nat \<Rightarrow> timer_world \<Rightarrow> timer_world option" where
  "rearm_cb rearm ts w =
    Some (case rearm ts of None \<Rightarrow> fst w | Some e \<Rightarrow> qemu_mod_timer_ns ts e (fst w), snd w @ [ts])"

definition rearmed :: "(nat \<Rightarrow> int option) \<Rightarrow> nat list \<Rightarrow> qemu_timer list" where
  "rearmed rearm xs = List.map_filter (\<lambda>ts. map_option (Pair ts) (rearm ts)) xs"

lemma rearm_cb_pair:
  "rearm_cb rearm ts (l, log) = Some (case rearm ts of None \<Rightarrow> l | Some e \<Rightarrow> qemu_mod_timer_ns ts e l, log @ [ts])"
  by (simp add: rearm_cb_def split: option.split)

lemma rearmed_Cons:
  "rearmed rearm (ts # xs) = (case rearm ts of None \<Rightarrow> rearmed rearm xs | Some e \<Rightarrow> (ts, e) # rearmed rearm xs)"
  by (simp add: rearmed_def map_filter_simps split: option.split)

lemma qemu_del_absent: "ts \<notin> fst ` set l \<Longrightarrow> qemu_del_timer ts l = l"
  by (induction l) auto

lemma qemu_link_append: "\<forall>t\<in>set ds. snd t \<le> snd x \<Longrightarrow> qemu_link_timer x (ds @ l) = ds @ qemu_link_timer x l"
  by (induction ds) auto

lemma qemu_link_set [simp]: "set (qemu_link_timer x l) = insert x (set l)"
  by (induction l) auto

lemma qemu_run_loop_rearm:
  assumes "\<And>ts e. rearm ts = Some e \<Longrightarrow> now < e"
  shows "\<forall>t\<in>set ds. snd t \<le> now \<Longrightarrow> \<forall>t\<in>set l. now < snd t \<Longrightarrow> distinct (map fst ds) \<Longrightarrow>
    fst ` set ds \<inter> fst ` set l = {} \<Longrightarrow>
    qemu_run_loop fst (\<lambda>l w. (l, snd w)) (rearm_cb rearm) now (ds @ l, log) =
      Some (foldl (\<lambda>l t. qemu_link_timer t l) l (rearmed rearm (map fst ds)), log @ map fst ds)"
proof (induction ds arbitrary: l log)
  case Nil
  then have "\<not> qemu_timer_expired_ns l now" by (cases l) auto
  then show ?case by (simp add: qemu_run_loop.simps rearmed_def map_filter_simps)
next
  case (Cons t ds)
  have absent: "fst t \<notin> fst ` set (ds @ l)" using Cons.prems by auto
  show ?case
  proof (cases "rearm (fst t)")
    case None
    with Cons.prems Cons.IH [of l] show ?thesis
      by (subst qemu_run_loop.simps) (auto simp: rearm_cb_pair rearmed_Cons)
  next
    case (Some e)
    with assms have e: "now < e" by blast
    then have "\<forall>u\<in>set ds. snd u \<le> snd (fst t, e)" using Cons.prems(1) by fastforce
    then have "qemu_mod_timer_ns (fst t) e (ds @ l) = ds @ qemu_link_timer (fst t, e) l"
      using absent by (simp add: qemu_mod_timer_ns_def qemu_del_absent qemu_link_append)
    with Some e Cons.prems Cons.IH [of "qemu_link_timer (fst t, e) l"] show ?thesis
      by (subst qemu_run_loop.simps) (auto simp: rearm_cb_pair rearmed_Cons)
  qed
qed

lemma foldl_link_sort:
  "foldl (\<lambda>l t. qemu_link_timer t l) (sort_key snd xs) ys = sort_key snd (xs @ ys)"
  by (induction ys arbitrary: xs) (simp_all add: qemu_link_sort)

lemma sorted_split_due:
  fixes now :: int
  shows "sorted (map snd l) \<Longrightarrow> l = filter (\<lambda>t. snd t \<le> now) l @ filter (\<lambda>t. now < snd t) l"
proof (induction l)
  case (Cons t l)
  have "filter (\<lambda>t. snd t \<le> now) l = [] \<and> filter (\<lambda>t. now < snd t) l = l" if "now < snd t"
    using that Cons.prems by (auto simp: filter_empty_conv intro!: filter_True)
  with Cons show ?case by (cases "snd t \<le> now") auto
qed simp

text \<open>C10: timers expire in order. After any sequence of arming and disarming timers of a clock, a run at a time
  calls exactly the timers that are due, each once, earlier deadlines first and equal ones in the order in which
  they were armed, and ends, provided that a callback arms its own timer only for a later time. The list that is
  left is the stable sort by deadline of the timers not due, followed by those armed again.\<close>

theorem qemu_timers_in_order:
  assumes "\<And>ts e. rearm ts = Some e \<Longrightarrow> now < e"
  shows "qemu_run_timers True fst (\<lambda>l w. (l, snd w)) (rearm_cb rearm) now (foldl timer_step [] ops, []) =
    (let due = map fst (sort_key snd (filter (\<lambda>t. snd t \<le> now) (armed ops)))
     in Some (sort_key snd (filter (\<lambda>t. now < snd t) (armed ops) @ rearmed rearm due), due))"
proof -
  let ?l = "sort_key snd (armed ops)"
  let ?ds = "sort_key snd (filter (\<lambda>t. snd t \<le> now) (armed ops))"
  let ?r = "sort_key snd (filter (\<lambda>t. now < snd t) (armed ops))"
  have l: "?l = ?ds @ ?r" using sorted_split_due [of ?l now] by (simp add: filter_sort)
  have d: "distinct (map fst (?ds @ ?r))" using timer_list_sort(2) [of ops] l [symmetric]
    by (simp add: distinct_map inj_on_def)
  have "qemu_run_loop fst (\<lambda>l w. (l, snd w)) (rearm_cb rearm) now (?ds @ ?r, []) =
      Some (foldl (\<lambda>l t. qemu_link_timer t l) ?r (rearmed rearm (map fst ?ds)), [] @ map fst ?ds)"
    by (rule qemu_run_loop_rearm [OF assms]) (use d in \<open>auto simp: distinct_append\<close>)
  then show ?thesis
    by (simp add: qemu_run_timers_def timer_list_sort(1) l foldl_link_sort Let_def)
qed

theorem qemu_timers_in_order_witness:
  "qemu_run_timers True fst (\<lambda>l w. (l, snd w)) (rearm_cb (\<lambda>ts. if ts = 2 then Some 60 else None)) 30
     (foldl timer_step [] [Arm 1 20, Arm 2 10, Arm 3 20, Arm 4 50, Arm 1 20], []) =
   Some ([(4, 50), (2, 60)], [2, 3, 1])"
proof -
  let ?rearm = "\<lambda>ts::nat. if ts = 2 then Some (60::int) else None"
  have later: "30 < e" if "?rearm ts = Some e" for ts e
    using that by (simp split: if_splits)
  show ?thesis
    using qemu_timers_in_order [where rearm = ?rearm and now = 30 and ops = "[Arm 1 20, Arm 2 10, Arm 3 20, Arm 4 50, Arm 1 20]",
        OF later]
    by (simp add: armed_def rearmed_def map_filter_simps)
qed

end
