(* ===== verification/Nvic.thy ===== *)
theory Nvic
  imports GicMachine QemuTimer "HOL-Library.Signed_Division"
begin

text \<open>
  The interrupt controller and system timer of a v7-M processor, \<^verbatim>\<open>hw/intc/armv7m_nvic.c\<close>, which the board
  creates in \<^verbatim>\<open>hw/arm/armv7m.c\<close>: the distributor of \<^verbatim>\<open>hw/intc/arm_gic.c\<close> for one CPU, the system control
  registers laid around it and the SysTick counter.

  The record has the fields of \<open>nvic_state\<close>; \<open>nv_timers\<close> is the list of active timers of the virtual clock,
  in which the counter's timer has the number \<open>SYSTICK_TIMER\<close>; \<open>nv_env\<close> has the two fields of the current CPU
  the registers reach. The virtual clock is an argument \<open>now\<close>, the global \<open>system_clock_scale\<close> an argument
  \<open>k\<close>. Signed 64-bit results are checked against the range of the type; an overflow and a division by
  zero are \<open>None\<close>. \<open>hw_error\<close>, which ends the emulator, is a value of its own.
\<close>

record v7m_env =
  env_vecbase :: u32
  env_cpuid :: u32

record nvic_state =
  nv_gic :: GICState
  nv_control :: u32
  nv_reload :: u32
  nv_tick :: int
  nv_timers :: "qemu_timer list"
  nv_num_irq :: nat
  nv_env :: v7m_env

abbreviation SYSTICK_TIMER :: nat where "SYSTICK_TIMER \<equiv> 0"
abbreviation SYSTICK_COUNTFLAG :: u32 where "SYSTICK_COUNTFLAG \<equiv> 0x10000"
abbreviation EXCP_NMI :: nat where "EXCP_NMI \<equiv> 2"
abbreviation EXCP_MEM :: nat where "EXCP_MEM \<equiv> 4"
abbreviation EXCP_BUS :: nat where "EXCP_BUS \<equiv> 5"
abbreviation EXCP_USAGE :: nat where "EXCP_USAGE \<equiv> 6"
abbreviation EXCP_SVC :: nat where "EXCP_SVC \<equiv> 11"
abbreviation EXCP_DEBUG :: nat where "EXCP_DEBUG \<equiv> 12"
abbreviation EXCP_PENDSV :: nat where "EXCP_PENDSV \<equiv> 14"
abbreviation EXCP_SYSTICK :: nat where "EXCP_SYSTICK \<equiv> 15"

definition nvic_id :: "u8 list" where
  "nvic_id = [0x00, 0xb0, 0x1b, 0x00, 0x0d, 0xe0, 0x05, 0xb1]"

definition nv_with_gic :: "nvic_state \<Rightarrow> GICState option \<Rightarrow> nvic_state option" where
  "nv_with_gic s m = map_option (\<lambda>g. s\<lparr>nv_gic := g\<rparr>) m"

definition armv7m_nvic_set_pending :: "nvic_state \<Rightarrow> nat \<Rightarrow> nvic_state option" where
  "armv7m_nvic_set_pending s irq =
    nv_with_gic s (gic_set_pending_private (nv_gic s) 0 (if 16 \<le> irq then irq + 16 else irq))"

subsection \<open>The SysTick counter\<close>

definition systick_scale :: "int \<Rightarrow> nvic_state \<Rightarrow> int" where
  "systick_scale k s = (if bit (nv_control s) 2 then k else 1000)"

definition systick_mod_timer :: "nvic_state \<Rightarrow> nvic_state option" where
  "systick_mod_timer s =
    do { l \<leftarrow> qemu_mod_timer 1 SYSTICK_TIMER (nv_tick s) (nv_timers s); Some (s\<lparr>nv_timers := l\<rparr>) }"

definition systick_reload :: "int \<Rightarrow> nvic_state \<Rightarrow> int \<Rightarrow> bool \<Rightarrow> nvic_state option" where
  "systick_reload k s now reset =
    do { let s = (if reset then s\<lparr>nv_tick := now\<rparr> else s);
         p \<leftarrow> int64 (uint (nv_reload s + 1) * systick_scale k s);
         tick \<leftarrow> int64 (nv_tick s + p);
         systick_mod_timer (s\<lparr>nv_tick := tick\<rparr>) }"

definition systick_timer_tick :: "int \<Rightarrow> int \<Rightarrow> nvic_state \<Rightarrow> nvic_state option" where
  "systick_timer_tick k now s =
    do { let s = s\<lparr>nv_control := nv_control s OR SYSTICK_COUNTFLAG\<rparr>;
         s \<leftarrow> (if bit (nv_control s) 1 then armv7m_nvic_set_pending s EXCP_SYSTICK else Some s);
         if nv_reload s = 0 then Some (s\<lparr>nv_control := nv_control s AND NOT 1\<rparr>)
         else systick_reload k s now False }"

definition systick_reset :: "nvic_state \<Rightarrow> nvic_state" where
  "systick_reset s =
    s\<lparr>nv_control := 0, nv_reload := 0, nv_tick := 0, nv_timers := qemu_del_timer SYSTICK_TIMER (nv_timers s)\<rparr>"

definition systick_current :: "int \<Rightarrow> nvic_state \<Rightarrow> int \<Rightarrow> u32 option" where
  "systick_current k s now =
    (if \<not> bit (nv_control s) 0 then Some 0
     else if nv_tick s \<le> now then Some 0
     else if systick_scale k s = 0 then None
     else do { t1 \<leftarrow> int64 (now + 1);
               d \<leftarrow> int64 (nv_tick s - t1);
               v \<leftarrow> int64 (d sdiv systick_scale k s + 1);
               let val = word_of_int v;
               Some (if val > nv_reload s then 0 else val) })"

definition systick_write_control :: "int \<Rightarrow> nvic_state \<Rightarrow> int \<Rightarrow> u32 \<Rightarrow> nvic_state option" where
  "systick_write_control k s now v =
    (let oldval = nv_control s;
         s = s\<lparr>nv_control := (nv_control s AND 0xfffffff8) OR (v AND 7)\<rparr>
     in if bit (oldval XOR v) 0 then
          if bit v 0 then
            if nv_tick s \<noteq> 0 then
              do { tick \<leftarrow> int64 (nv_tick s + now); systick_mod_timer (s\<lparr>nv_tick := tick\<rparr>) }
            else systick_reload k s now True
          else do { let s = s\<lparr>nv_timers := qemu_del_timer SYSTICK_TIMER (nv_timers s)\<rparr>;
                    tick \<leftarrow> int64 (nv_tick s - now);
                    Some (s\<lparr>nv_tick := (if tick < 0 then 0 else tick)\<rparr>) }
        else if bit (oldval XOR v) 2 then systick_reload k s now True
        else Some s)"

subsection \<open>Entry and exit of exceptions\<close>

datatype nvic_vector = HwError | Vector nat

definition armv7m_nvic_acknowledge_irq :: "nvic_state \<Rightarrow> (nvic_vector \<times> nvic_state) option" where
  "armv7m_nvic_acknowledge_irq s =
    do { (irq, g) \<leftarrow> gic_acknowledge_irq (nv_gic s) 0;
         let s = s\<lparr>nv_gic := g\<rparr>;
         Some (if irq = NO_IRQ then (HwError, s) else (Vector (if 32 \<le> irq then irq - 16 else irq), s)) }"

definition armv7m_nvic_complete_irq :: "nvic_state \<Rightarrow> nat \<Rightarrow> nvic_state option" where
  "armv7m_nvic_complete_irq s irq =
    nv_with_gic s (gic_complete_irq (nv_gic s) 0 (if 16 \<le> irq then irq + 16 else irq))"

subsection \<open>The system control registers\<close>

fun nvic_isr_pending :: "GICState \<Rightarrow> nat list \<Rightarrow> bool option" where
  "nvic_isr_pending g [] = Some False"
| "nvic_isr_pending g (irq # irqs) =
    do { p \<leftarrow> gic_test g irq (\<lambda>i. gi_pending i \<noteq> 0); if p then Some True else nvic_isr_pending g irqs }"

definition nvic_icsr :: "nvic_state \<Rightarrow> u32 option" where
  "nvic_icsr s =
    (let g = nv_gic s; pending = (\<lambda>irq. gic_test g irq (\<lambda>i. gi_pending i \<noteq> 0)) in
     do { r \<leftarrow> nth_opt (gic_running_irq g) 0;
          let val = (if r = 1023 then 0 else if 32 \<le> r then ucast r - 16 else ucast r);
          base \<leftarrow> (if r = 1023 then Some True else map_option (\<lambda>l. l = NO_IRQ) (gic_get_last_active g (unat r) 0));
          let val = or_if base (push_bit 11 1) val;
          c \<leftarrow> nth_opt (gic_current_pending g) 0;
          let val = or_if (c \<noteq> 1023) (push_bit 12 (ucast c)) val;
          isr \<leftarrow> nvic_isr_pending g [32..<nv_num_irq s];
          st \<leftarrow> pending EXCP_SYSTICK;
          sv \<leftarrow> pending EXCP_PENDSV;
          nmi \<leftarrow> pending EXCP_NMI;
          Some (or_if nmi (push_bit 31 1) (or_if sv (push_bit 28 1) (or_if st (push_bit 26 1)
            (or_if isr (push_bit 22 1) val)))) })"

definition nvic_shcsr :: "GICState \<Rightarrow> u32 option" where
  "nvic_shcsr g =
    do { act \<leftarrow> gic_collect (\<lambda>irq. gic_test g irq (\<lambda>i. gi_active i \<noteq> 0))
           [(EXCP_MEM, 0), (EXCP_BUS, 1), (EXCP_USAGE, 3), (EXCP_SVC, 7), (EXCP_DEBUG, 8), (EXCP_PENDSV, 10),
            (EXCP_SYSTICK, 11)];
         pend \<leftarrow> gic_collect (\<lambda>irq. gic_test g irq (\<lambda>i. gi_pending i \<noteq> 0))
           [(EXCP_USAGE, 12), (EXCP_MEM, 13), (EXCP_BUS, 14), (EXCP_SVC, 15)];
         en \<leftarrow> gic_collect (\<lambda>irq. gic_test g irq (\<lambda>i. gi_enabled i \<noteq> 0))
           [(EXCP_MEM, 16), (EXCP_BUS, 17), (EXCP_USAGE, 18)];
         Some (act OR pend OR en) }"

definition nvic_readl :: "int \<Rightarrow> nvic_state \<Rightarrow> int \<Rightarrow> nat \<Rightarrow> (u32 \<times> nvic_state) option" where
  "nvic_readl k s now offset =
    (if offset = 4 then Some (word_of_nat (nv_num_irq s div 32) - 1, s)
     else if offset = 0x10 then
       Some (nv_control s, s\<lparr>nv_control := nv_control s AND NOT SYSTICK_COUNTFLAG\<rparr>)
     else if offset = 0x14 then Some (nv_reload s, s)
     else if offset = 0x18 then map_option (\<lambda>v. (v, s)) (systick_current k s now)
     else if offset = 0x1c then Some (10000, s)
     else if offset = 0xd00 then Some (env_cpuid (nv_env s), s)
     else if offset = 0xd04 then map_option (\<lambda>v. (v, s)) (nvic_icsr s)
     else if offset = 0xd08 then Some (env_vecbase (nv_env s), s)
     else if offset = 0xd0c then Some (0xfa05000, s)
     else if offset = 0xd24 then map_option (\<lambda>v. (v, s)) (nvic_shcsr (nv_gic s))
     else if offset = 0xd40 then Some (0x30, s)
     else if offset = 0xd44 then Some (0x200, s)
     else if offset = 0xd48 then Some (0x100000, s)
     else if offset = 0xd50 then Some (0x30, s)
     else if offset = 0xd60 then Some (0x01141110, s)
     else if offset = 0xd64 then Some (0x02111000, s)
     else if offset = 0xd68 then Some (0x21112231, s)
     else if offset = 0xd6c then Some (0x01111110, s)
     else if offset = 0xd70 then Some (0x01310102, s)
     else Some (0, s))"

definition nvic_clear_pending :: "nvic_state \<Rightarrow> nat \<Rightarrow> nvic_state option" where
  "nvic_clear_pending s irq =
    nv_with_gic s (do { g \<leftarrow> gic_mod (nv_gic s) irq (\<lambda>i. i\<lparr>gi_pending := 0\<rparr>); gic_update g })"

definition nvic_write_icsr :: "nvic_state \<Rightarrow> u32 \<Rightarrow> nvic_state option" where
  "nvic_write_icsr s v =
    do { s \<leftarrow> (if bit v 31 then armv7m_nvic_set_pending s EXCP_NMI else Some s);
         s \<leftarrow> (if bit v 28 then armv7m_nvic_set_pending s EXCP_PENDSV
               else if bit v 27 then nvic_clear_pending s EXCP_PENDSV else Some s);
         if bit v 26 then armv7m_nvic_set_pending s EXCP_SYSTICK
         else if bit v 25 then nvic_clear_pending s EXCP_SYSTICK else Some s }"

definition nvic_put_enabled :: "u32 \<Rightarrow> GICState \<Rightarrow> nat \<times> nat \<Rightarrow> GICState option" where
  "nvic_put_enabled v g e = gic_mod g (fst e) (\<lambda>i. i\<lparr>gi_enabled := of_bool (bit v (snd e))\<rparr>)"

definition nvic_writel :: "int \<Rightarrow> nvic_state \<Rightarrow> int \<Rightarrow> nat \<Rightarrow> u32 \<Rightarrow> nvic_state option" where
  "nvic_writel k s now offset v =
    (if offset = 0x10 then systick_write_control k s now v
     else if offset = 0x14 then Some (s\<lparr>nv_reload := v\<rparr>)
     else if offset = 0x18 then
       do { s \<leftarrow> systick_reload k s now True;
            Some (s\<lparr>nv_control := nv_control s AND NOT SYSTICK_COUNTFLAG\<rparr>) }
     else if offset = 0xd04 then nvic_write_icsr s v
     else if offset = 0xd08 then Some (s\<lparr>nv_env := (nv_env s)\<lparr>env_vecbase := v AND 0xffffff80\<rparr>\<rparr>)
     else if offset = 0xd24 then
       nv_with_gic s (exec_list (nvic_put_enabled v) (nv_gic s) [(EXCP_MEM, 16), (EXCP_BUS, 17), (EXCP_USAGE, 18)])
     else if offset = 0xf00 then
       if unat (v AND 0x1ff) < nv_num_irq s
       then nv_with_gic s (gic_set_pending_private (nv_gic s) 0 (unat (v AND 0x1ff)))
       else Some s
     else Some s)"

fun nvic_shpr_read :: "GICState \<Rightarrow> nat \<Rightarrow> nat list \<Rightarrow> u32 option" where
  "nvic_shpr_read g irq [] = Some 0"
| "nvic_shpr_read g irq (i # is) =
    do { p \<leftarrow> GIC_GET_PRIORITY g (irq + i) 0; r \<leftarrow> nvic_shpr_read g irq is;
         Some (push_bit (8 * i) (word_of_nat p) OR r) }"

definition nvic_shpr_put :: "nat \<Rightarrow> u64 \<Rightarrow> GICState \<Rightarrow> nat \<Rightarrow> GICState option" where
  "nvic_shpr_put irq v g i = gic_put_priority g (irq + i) 0 (ucast (drop_bit (8 * i) v))"

definition nvic_sysreg_read :: "int \<Rightarrow> nvic_state \<Rightarrow> int \<Rightarrow> nat \<Rightarrow> nat \<Rightarrow> (u32 \<times> nvic_state) option" where
  "nvic_sysreg_read k s now offset sz =
    (if 0xd18 \<le> offset \<and> offset \<le> 0xd23 then
       map_option (\<lambda>v. (v, s)) (nvic_shpr_read (nv_gic s) (offset - 0xd14) [0..<sz])
     else if 0xfe0 \<le> offset \<and> offset \<le> 0xfff then
       if offset mod 4 \<noteq> 0 then Some (0, s)
       else map_option (\<lambda>v. (ucast v, s)) (nth_opt nvic_id ((offset - 0xfe0) div 4))
     else if sz = 4 then nvic_readl k s now offset
     else Some (0, s))"

definition nvic_sysreg_write :: "int \<Rightarrow> nvic_state \<Rightarrow> int \<Rightarrow> nat \<Rightarrow> u64 \<Rightarrow> nat \<Rightarrow> nvic_state option" where
  "nvic_sysreg_write k s now offset v sz =
    (if 0xd18 \<le> offset \<and> offset \<le> 0xd23 then
       nv_with_gic s (do { g \<leftarrow> exec_list (nvic_shpr_put (offset - 0xd14) v) (nv_gic s) [0..<sz]; gic_update g })
     else if sz = 4 then nvic_writel k s now offset (ucast v)
     else Some s)"

subsection \<open>The memory region of the controller, creation and reset\<close>

definition nvic_read :: "int \<Rightarrow> nvic_state \<Rightarrow> int \<Rightarrow> nat \<Rightarrow> nat \<Rightarrow> (u32 \<times> nvic_state) option" where
  "nvic_read k s now addr sz =
    (if 0x100 \<le> addr \<and> addr < 0xd00 then
       map_option (\<lambda>v. (v, s))
         ((if sz = 1 then gic_dist_readb else if sz = 2 then gic_dist_readw else gic_dist_readl) (nv_gic s) 0 addr)
     else nvic_sysreg_read k s now addr sz)"

definition nvic_write :: "int \<Rightarrow> nvic_state \<Rightarrow> int \<Rightarrow> nat \<Rightarrow> u64 \<Rightarrow> nat \<Rightarrow> nvic_state option" where
  "nvic_write k s now addr v sz =
    (if 0x100 \<le> addr \<and> addr < 0xd00 then
       nv_with_gic s
         ((if sz = 1 then gic_dist_writeb else if sz = 2 then gic_dist_writew else gic_dist_writel)
           (nv_gic s) 0 addr (ucast v))
     else nvic_sysreg_write k s now addr v sz)"

definition armv7m_nvic_realize :: "nat \<Rightarrow> u32 \<Rightarrow> nvic_state option" where
  "armv7m_nvic_realize num_irq cpuid =
    do { g \<leftarrow> arm_gic_common_realize (gic_zero 1 num_irq REV_NVIC);
         Some \<lparr>nv_gic = g, nv_control = 0, nv_reload = 0, nv_tick = 0, nv_timers = [], nv_num_irq = num_irq,
               nv_env = \<lparr>env_vecbase = 0, env_cpuid = cpuid\<rparr>\<rparr> }"

definition armv7m_nvic_reset :: "nvic_state \<Rightarrow> nvic_state option" where
  "armv7m_nvic_reset s =
    do { let g = arm_gic_common_reset (nv_gic s);
         ce \<leftarrow> set_opt (gic_cpu_enabled g) 0 True;
         pm \<leftarrow> set_opt (gic_priority_mask g) 0 0x100;
         Some (systick_reset
           (s\<lparr>nv_gic := g\<lparr>gic_cpu_enabled := ce, gic_priority_mask := pm, gic_enabled := True\<rparr>\<rparr>)) }"

end
