(* ===== verification/NvicTick.thy ===== *)
theory NvicTick
  imports Nvic
begin

text \<open>
  Correctness of the SysTick counter of \<^verbatim>\<open>hw/intc/armv7m_nvic.c\<close>: the value the counter reports, the times at
  which it expires, and when the run of the expired timers does not end. The last lemmas are about the order
  in which the registers are usually initialised.
\<close>

abbreviation systick_period :: "int \<Rightarrow> nvic_state \<Rightarrow> int" where
  "systick_period k s \<equiv> uint (nv_reload s + 1) * systick_scale k s"

definition nvic_run_timers :: "int \<Rightarrow> int \<Rightarrow> nvic_state \<Rightarrow> nvic_state option" where
  "nvic_run_timers k now s =
    qemu_run_timers True nv_timers (\<lambda>l s. s\<lparr>nv_timers := l\<rparr>) (\<lambda>_. systick_timer_tick k now) now s"

text \<open>The list of active timers holds at most the counter's own.\<close>

definition systick_alone :: "nvic_state \<Rightarrow> bool" where
  "systick_alone s \<longleftrightarrow> (\<forall>t\<in>set (nv_timers s). fst t = SYSTICK_TIMER) \<and> length (nv_timers s) \<le> 1"

lemma int64_Some: "- (2 ^ 63) \<le> x \<Longrightarrow> x < 2 ^ 63 \<Longrightarrow> int64 x = Some x"
  by (simp add: int64_def)

lemma systick_alone_cases:
  assumes "systick_alone s"
  shows "nv_timers s = [] \<or> (\<exists>e. nv_timers s = [(SYSTICK_TIMER, e)])"
  using assms by (cases "nv_timers s") (auto simp: systick_alone_def)

lemma systick_del_timer: "systick_alone s \<Longrightarrow> qemu_del_timer SYSTICK_TIMER (nv_timers s) = []"
  by (drule systick_alone_cases) auto

lemma systick_mod_timer_eq:
  assumes "systick_alone s" "- (2 ^ 63) \<le> nv_tick s" "nv_tick s < 2 ^ 63"
  shows "systick_mod_timer s = Some (s\<lparr>nv_timers := [(SYSTICK_TIMER, nv_tick s)]\<rparr>)"
  using assms systick_del_timer [OF assms(1)]
  by (simp add: systick_mod_timer_def qemu_mod_timer_def qemu_mod_timer_ns_def int64_Some)

lemma systick_reload_eq:
  assumes "systick_alone s" "t = (if reset then now else nv_tick s)" "0 \<le> t" "0 \<le> systick_period k s"
    "t + systick_period k s < 2 ^ 63"
  shows "systick_reload k s now reset =
    Some (s\<lparr>nv_tick := t + systick_period k s, nv_timers := [(SYSTICK_TIMER, t + systick_period k s)]\<rparr>)"
proof -
  let ?p = "systick_period k s"
  have i: "int64 ?p = Some ?p" "int64 (t + ?p) = Some (t + ?p)" using assms by (simp_all add: int64_Some)
  have sc: "systick_scale k (s\<lparr>nv_tick := x\<rparr>) = systick_scale k s" for x by (simp add: systick_scale_def)
  have al: "systick_alone (s\<lparr>nv_tick := x\<rparr>)" for x using assms(1) by (simp add: systick_alone_def)
  have "systick_mod_timer (s\<lparr>nv_tick := t + ?p\<rparr>) =
      Some (s\<lparr>nv_tick := t + ?p, nv_timers := [(SYSTICK_TIMER, t + ?p)]\<rparr>)"
    using systick_mod_timer_eq [OF al, of "t + ?p"] assms by simp
  then show ?thesis using i assms(2) by (cases reset) (simp_all add: systick_reload_def sc Let_def)
qed

lemma uint_reload_lt: "r \<noteq> 0xffffffff \<Longrightarrow> uint (r::u32) + 1 < 2 ^ 32"
  using uint_lt2p [of r] by (simp add: word_uint_eq_iff)

lemma uint_reload_Suc: "r \<noteq> 0xffffffff \<Longrightarrow> uint ((r::u32) + 1) = uint r + 1"
  using uint_reload_lt [of r] by (simp add: uint_word_ariths)

subsection \<open>The current value\<close>

lemma systick_quotient:
  fixes c :: int
  assumes "0 < c" "t \<le> now" "now < t + (r + 1) * c"
  shows "(t + (r + 1) * c - (now + 1)) sdiv c + 1 = r + 1 - (now - t) div c"
proof -
  let ?d = "(now - t) div c" and ?m = "(now - t) mod c"
  have m: "0 \<le> ?m" "?m < c" using assms(1) by simp_all
  have e: "now - t = ?d * c + ?m" by simp
  have "t + (r + 1) * c - (now + 1) = (r + 1) * c - (now - t) - 1" by simp
  also have "\<dots> = (r - ?d) * c + (c - 1 - ?m)" by (subst e) (simp add: algebra_simps)
  finally have q: "t + (r + 1) * c - (now + 1) = (r - ?d) * c + (c - 1 - ?m)" .
  have v: "((r - ?d) * c + (c - 1 - ?m)) div c = r - ?d" using m by (simp add: div_pos_pos_trivial)
  have sd: "x sdiv c = x div c" if "0 \<le> x" for x
    using assms(1) that by (auto simp: signed_divide_int_def sgn_if)
  have "0 \<le> t + (r + 1) * c - (now + 1)" using assms(3) by simp
  from sd [OF this] show ?thesis unfolding q v by simp
qed

definition systick_value :: "int \<Rightarrow> int \<Rightarrow> int" where
  "systick_value r d = (if 1 \<le> d \<and> d \<le> r then r + 1 - d else 0)"

lemma le_div_iff:
  fixes c :: int
  assumes "0 < c"
  shows "k \<le> x div c \<longleftrightarrow> k * c \<le> x"
proof -
  have "(x - k * c) div c = x div c - k" using assms div_mult_self1 [of c x "- k"] by simp
  then show ?thesis using pos_imp_zdiv_nonneg_iff [OF assms, of "x - k * c"] by simp
qed

lemma systick_current_value:
  assumes "bit (nv_control s) 0" "nv_tick s = t + systick_period k s" "0 < systick_scale k s"
    "nv_reload s \<noteq> 0xffffffff" "0 \<le> t" "t \<le> now" "now < 2 ^ 62" "nv_tick s < 2 ^ 63"
  shows "map_option uint (systick_current k s now) =
    Some (systick_value (uint (nv_reload s)) ((now - t) div systick_scale k s))"
proof -
  define c r d where crd: "c = systick_scale k s" "r = uint (nv_reload s)" "d = (now - t) div systick_scale k s"
  have r: "0 \<le> r" "r + 1 < 2 ^ 32" using uint_reload_lt [OF assms(4)] by (simp_all add: crd)
  have tick: "nv_tick s = t + (r + 1) * c" using assms(2) uint_reload_Suc [OF assms(4)] by (simp add: crd)
  have d: "0 \<le> d" using assms(3,6) by (simp add: crd pos_imp_zdiv_nonneg_iff)
  have exp: "nv_tick s \<le> now \<longleftrightarrow> r + 1 \<le> d"
    using le_div_iff [of c "r + 1" "now - t"] assms(3) by (auto simp: tick crd)
  show ?thesis
  proof (cases "nv_tick s \<le> now")
    case True
    then show ?thesis using assms(1) exp by (simp add: systick_current_def systick_value_def crd)
  next
    case False
    define w where w: "w = r + 1 - d"
    have q: "(nv_tick s - (now + 1)) sdiv c + 1 = w"
      using systick_quotient [of c t now r] False assms(3,6) by (simp add: tick crd w)
    have v: "1 \<le> w" "w < 2 ^ 32" using exp False d r by (auto simp: w)
    have "systick_current k s now = Some (if word_of_int w > nv_reload s then 0 else word_of_int w)"
      using assms(1,3,5-8) False q v by (simp add: systick_current_def int64_Some crd [symmetric] Let_def)
    moreover have "uint (word_of_int w :: u32) = w"
      using v by (simp add: uint_word_of_int)
    ultimately show ?thesis using v r d exp False
      by (auto simp: systick_value_def crd word_less_def w)
  qed
qed

text \<open>Times and scales within which no 64-bit computation of the counter overflows: the clock below \<open>2^61\<close>
  nanoseconds (73 years), the scale below \<open>2^20\<close>.\<close>

definition systick_time :: "int \<Rightarrow> bool" where
  "systick_time t \<longleftrightarrow> 0 \<le> t \<and> t < 2 ^ 61"

definition systick_clock :: "int \<Rightarrow> bool" where
  "systick_clock k \<longleftrightarrow> 0 \<le> k \<and> k < 2 ^ 20"

lemma systick_period_bounds:
  assumes "systick_clock k"
  shows "0 \<le> systick_scale k s" "systick_scale k s < 2 ^ 20" "0 \<le> systick_period k s" "systick_period k s < 2 ^ 52"
proof -
  show sc: "0 \<le> systick_scale k s" "systick_scale k s < 2 ^ 20"
    using assms by (simp_all add: systick_scale_def systick_clock_def)
  have r: "0 \<le> uint (nv_reload s + 1)" "uint (nv_reload s + 1) < 2 ^ 32" using uint_lt2p [of "nv_reload s + 1"] by simp_all
  then show "0 \<le> systick_period k s" using sc by simp
  have "systick_period k s \<le> (2 ^ 32 - 1) * (2 ^ 20 - 1)" using r sc by (intro mult_mono) simp_all
  then show "systick_period k s < 2 ^ 52" by simp
qed

lemma systick_enable_eq:
  assumes "systick_alone s" "nv_tick s = 0" "\<not> bit (nv_control s) 0" "bit v 0" "systick_clock k" "systick_time t"
    and "s' = s\<lparr>nv_control := (nv_control s AND 0xfffffff8) OR (v AND 7)\<rparr>"
  shows "nvic_writel k s t 0x10 v =
    Some (s'\<lparr>nv_tick := t + systick_period k s', nv_timers := [(SYSTICK_TIMER, t + systick_period k s')]\<rparr>)"
proof -
  have al: "systick_alone s'" using assms(1) by (simp add: systick_alone_def assms(7))
  have "systick_reload k s' t True =
      Some (s'\<lparr>nv_tick := t + systick_period k s', nv_timers := [(SYSTICK_TIMER, t + systick_period k s')]\<rparr>)"
    using systick_period_bounds [OF assms(5), of s'] assms(6)
    by (intro systick_reload_eq [OF al]) (simp_all add: systick_time_def)
  then show ?thesis using assms(2-4)
    by (simp add: nvic_writel_def systick_write_control_def bit_xor_iff Let_def assms(7))
qed

text \<open>C11: the SysTick counter counts down. After the counter is started at a time \<open>t\<close> from rest, with a reload
  value \<open>R\<close> other than \<open>2^32 - 1\<close> and a clock that runs, a read of the current value at a later time reports,
  with \<open>d\<close> the number of full clock periods since \<open>t\<close>: 0 in the first period, then \<open>R\<close> down to 1, and 0 from the
  moment it has expired, until the expired timer is handled.\<close>

theorem systick_counts_down:
  assumes "systick_alone s" "nv_tick s = 0" "\<not> bit (nv_control s) 0" "bit v 0" "nv_reload s \<noteq> 0xffffffff"
    and "systick_clock k" "0 < k" "systick_time t" "systick_time now" "t \<le> now"
  shows "\<exists>s'. nvic_writel k s t 0x10 v = Some s' \<and>
    map_option (\<lambda>(val, u). (uint val, u)) (nvic_readl k s' now 0x18) =
      Some (systick_value (uint (nv_reload s)) ((now - t) div (if bit v 2 then k else 1000)), s')"
proof -
  define u where u: "u = s\<lparr>nv_control := (nv_control s AND 0xfffffff8) OR (v AND 7)\<rparr>"
  define s' where s': "s' = u\<lparr>nv_tick := t + systick_period k u, nv_timers := [(SYSTICK_TIMER, t + systick_period k u)]\<rparr>"
  have w: "nvic_writel k s t 0x10 v = Some s'"
    unfolding s' by (rule systick_enable_eq [OF assms(1-4,6,8) u])
  have b: "bit (nv_control u) 0 = bit v 0" "bit (nv_control u) 2 = bit v 2"
    by (simp_all add: u bit_or_iff bit_and_iff)
  have sc: "systick_scale k s' = (if bit v 2 then k else 1000)" "systick_scale k u = systick_scale k s'"
    using b by (simp_all add: systick_scale_def s')
  have "map_option uint (systick_current k s' now) =
      Some (systick_value (uint (nv_reload s')) ((now - t) div systick_scale k s'))"
    using assms systick_period_bounds [OF assms(6), of u] b(1) sc
    by (intro systick_current_value) (simp_all add: s' u systick_time_def)
  then have c: "map_option uint (systick_current k s' now) =
      Some (systick_value (uint (nv_reload s)) ((now - t) div (if bit v 2 then k else 1000)))"
    unfolding sc(1) by (simp add: s' u)
  then obtain x where x: "systick_current k s' now = Some x" by auto
  then show ?thesis using w c by (simp add: nvic_readl_def)
qed

text \<open>The controller as the board creates it, with 64 external interrupts.\<close>

definition nvic_board :: nvic_state where
  "nvic_board =
    \<lparr>nv_gic = (arm_gic_common_reset (gic_zero 1 96 REV_NVIC))
       \<lparr>gic_cpu_enabled := True # replicate 7 False, gic_priority_mask := 0x100 # replicate 7 0,
        gic_enabled := True\<rparr>,
     nv_control = 0, nv_reload = 0, nv_tick = 0, nv_timers = [], nv_num_irq = 64,
     nv_env = \<lparr>env_vecbase = 0, env_cpuid = 0x410fc231\<rparr>\<rparr>"

lemma nvic_board_reset: "do { s \<leftarrow> armv7m_nvic_realize 64 0x410fc231; armv7m_nvic_reset s } = Some nvic_board"
  by (simp add: armv7m_nvic_realize_def armv7m_nvic_reset_def arm_gic_common_realize_def arm_gic_common_reset_def
      gic_zero_def GIC_BASE_IRQ_def set_upto_def systick_reset_def nvic_board_def Let_def set_opt_def)

theorem systick_counts_down_witness:
  "\<exists>s'. nvic_writel 10 (nvic_board\<lparr>nv_reload := 99\<rparr>) 1000 0x10 5 = Some s' \<and>
    map_option (\<lambda>(val, u). (uint val, u)) (nvic_readl 10 s' 1205 0x18) = Some (80, s')"
proof -
  have "systick_alone (nvic_board\<lparr>nv_reload := 99\<rparr>)" by (simp add: systick_alone_def nvic_board_def)
  from systick_counts_down [OF this, of 5 10 1000 1205] show ?thesis
    by (simp add: nvic_board_def systick_clock_def systick_time_def systick_value_def bit_simps)
qed

subsection \<open>Expiry\<close>

lemma gic_set_pending_twice:
  assumes "gic_ok g" "irq < gic_num_irq g" "gic_set_pending_private g 0 irq = Some g'"
  shows "gic_set_pending_private g' 0 irq = Some g'"
proof -
  have irq: "irq < GIC_MAXIRQ" and sh: "gic_shape g" using assms(1,2) by (simp_all add: gic_ok_def gic_shape_def)
  have c: "0 < NCPU" by simp
  note acc = gic_accessors [OF sh irq c]
  show ?thesis
  proof (cases "gi_pending (gic_irqs g ! irq) AND cpu_bit 0 \<noteq> 0")
    case True
    then show ?thesis using assms(3) acc by (simp add: gic_set_pending_private_def GIC_TEST_PENDING_def)
  next
    case False
    let ?h = "g\<lparr>gic_irqs := (gic_irqs g)[irq := (gic_irqs g ! irq)\<lparr>gi_pending := gi_pending (gic_irqs g ! irq) OR cpu_bit 0\<rparr>]\<rparr>"
    have up: "gic_update ?h = Some g'"
      using False assms(3) acc by (simp add: gic_set_pending_private_def GIC_TEST_PENDING_def GIC_SET_PENDING_def)
    have "gic_ok ?h" using assms(1) by (simp add: gic_ok_def gic_shape_def)
    from gic_update_ok [OF this] up have g': "gic_ok g'" "gic_same ?h g'" by auto
    then have "gi_pending (gic_irqs g' ! irq) AND cpu_bit 0 \<noteq> 0"
      using irq gic_shape_lengths(1) [OF sh] by (simp add: gic_same_def cpu_bit_def word_ao_absorbs)
    then show ?thesis
      using g' gic_accessors(2) [of g' irq 0] irq by (simp add: gic_set_pending_private_def GIC_TEST_PENDING_def gic_ok_def)
  qed
qed

text \<open>What the interrupt of the counter leaves in the controller, however often it expires.\<close>

definition systick_signal :: "nvic_state \<Rightarrow> GICState option" where
  "systick_signal s =
    (if bit (nv_control s) 1 then gic_set_pending_private (nv_gic s) 0 EXCP_SYSTICK else Some (nv_gic s))"

lemma systick_signal_ok:
  assumes "gic_ok (nv_gic s)"
  shows "\<exists>g. systick_signal s = Some g \<and> gic_keeps (nv_gic s) g \<and>
    systick_signal (s\<lparr>nv_gic := g\<rparr>) = Some g"
proof (cases "bit (nv_control s) 1")
  case True
  have ok: "gic_ok (nv_gic s)" and n: "EXCP_SYSTICK < gic_num_irq (nv_gic s)"
    using assms by (simp_all add: gic_ok_def gic_shape_def)
  from gic_set_pending_private_keeps [OF ok n, of 0] gic_set_pending_twice [OF ok n] show ?thesis
    using True by (auto simp: systick_signal_def yields_def)
next
  case False
  then show ?thesis using assms gic_keeps_refl by (auto simp: systick_signal_def)
qed

definition systick_expired :: "nvic_state \<Rightarrow> GICState \<Rightarrow> int \<Rightarrow> nvic_state" where
  "systick_expired s g t =
    s\<lparr>nv_gic := g, nv_control := nv_control s OR SYSTICK_COUNTFLAG, nv_tick := t, nv_timers := [(SYSTICK_TIMER, t)]\<rparr>"

lemma systick_tick_eq:
  assumes "systick_signal s = Some g" "nv_timers s = []" "nv_reload s \<noteq> 0" "0 \<le> nv_tick s" "0 \<le> systick_period k s"
    "nv_tick s + systick_period k s < 2 ^ 63"
  shows "systick_timer_tick k now s = Some (systick_expired s g (nv_tick s + systick_period k s))"
proof -
  let ?u = "s\<lparr>nv_control := nv_control s OR SYSTICK_COUNTFLAG, nv_gic := g\<rparr>"
  have b: "bit (nv_control s OR SYSTICK_COUNTFLAG) 1 = bit (nv_control s) 1"
      "bit (nv_control s OR SYSTICK_COUNTFLAG) 2 = bit (nv_control s) 2"
    by (simp_all add: bit_or_iff)
  have sc: "systick_scale k ?u = systick_scale k s" by (simp add: systick_scale_def b)
  have "systick_reload k ?u now False = Some (?u\<lparr>nv_tick := nv_tick s + systick_period k s,
      nv_timers := [(SYSTICK_TIMER, nv_tick s + systick_period k s)]\<rparr>)"
    using systick_reload_eq [of ?u "nv_tick s" False now k] assms sc by (simp add: systick_alone_def)
  then show ?thesis
    using assms(1,3) b by (auto simp: systick_timer_tick_def systick_signal_def armv7m_nvic_set_pending_def nv_with_gic_def
        systick_expired_def Let_def split: if_splits)
qed

lemma systick_tick_once:
  assumes "systick_signal s = Some g" "nv_timers s = []" "nv_reload s = 0"
  shows "systick_timer_tick k now s =
    Some (s\<lparr>nv_gic := g, nv_control := (nv_control s OR SYSTICK_COUNTFLAG) AND NOT 1\<rparr>)"
proof -
  have b: "bit (nv_control s OR SYSTICK_COUNTFLAG) 1 = bit (nv_control s) 1" by (simp add: bit_or_iff)
  then show ?thesis
    using assms by (auto simp: systick_timer_tick_def systick_signal_def armv7m_nvic_set_pending_def nv_with_gic_def
        Let_def split: if_splits)
qed

lemma systick_expired_simps:
  "systick_expired (systick_expired s g t) g t' = systick_expired s g t'"
  "systick_scale k (systick_expired s g t) = systick_scale k s"
  "nv_reload (systick_expired s g t) = nv_reload s" "nv_tick (systick_expired s g t) = t"
  "nv_timers (systick_expired s g t) = [(SYSTICK_TIMER, t)]" "nv_gic (systick_expired s g t) = g"
  "systick_signal (systick_expired s g t) = systick_signal (s\<lparr>nv_gic := g\<rparr>)"
  "(systick_expired s g t)\<lparr>nv_gic := g\<rparr> = systick_expired s g t"
  by (simp_all add: systick_expired_def systick_scale_def systick_signal_def bit_or_iff or.assoc)

lemma systick_timers_frame:
  "systick_scale k (s\<lparr>nv_timers := l\<rparr>) = systick_scale k s" "systick_signal (s\<lparr>nv_timers := l\<rparr>) = systick_signal s"
  "systick_expired (s\<lparr>nv_timers := l\<rparr>) g t = systick_expired s g t"
  by (simp_all add: systick_scale_def systick_signal_def systick_expired_def)

lemma systick_loop_step:
  assumes "nv_timers s = [(SYSTICK_TIMER, nv_tick s)]" "nv_tick s \<le> now" "nv_reload s \<noteq> 0" "0 \<le> nv_tick s"
    "0 \<le> systick_period k s" "now + systick_period k s < 2 ^ 63" "systick_signal s = Some g"
  shows "nvic_run_timers k now s = nvic_run_timers k now (systick_expired s g (nv_tick s + systick_period k s))"
proof -
  let ?u = "s\<lparr>nv_timers := []\<rparr>"
  have "systick_timer_tick k now ?u = Some (systick_expired s g (nv_tick s + systick_period k s))"
    using systick_tick_eq [of ?u g k now] assms by (simp add: systick_timers_frame)
  then show ?thesis
    unfolding nvic_run_timers_def qemu_run_timers_def
    by (subst qemu_run_loop.simps) (use assms in simp)
qed

lemma systick_loop_stops:
  "nv_timers s = [(SYSTICK_TIMER, t)] \<Longrightarrow> now < t \<Longrightarrow> nvic_run_timers k now s = Some s"
  by (simp add: nvic_run_timers_def qemu_run_timers_def qemu_run_loop.simps)

lemma systick_loop_ends:
  assumes "nv_timers s = [(SYSTICK_TIMER, nv_tick s)]" "nv_tick s \<le> now" "nv_reload s \<noteq> 0" "0 \<le> nv_tick s"
    "0 < systick_period k s" "now + systick_period k s < 2 ^ 63"
    "systick_signal s = Some g" "systick_signal (s\<lparr>nv_gic := g\<rparr>) = Some g"
  shows "nvic_run_timers k now s =
    Some (systick_expired s g (nv_tick s + ((now - nv_tick s) div systick_period k s + 1) * systick_period k s))"
  using assms
proof (induction "nat (now - nv_tick s)" arbitrary: s rule: less_induct)
  case less
  define p where p: "p = systick_period k s"
  let ?u = "systick_expired s g (nv_tick s + p)"
  have pos: "0 < p" using less.prems(5) by (simp add: p)
  have pu: "systick_period k ?u = p" by (simp add: systick_expired_simps p)
  have run: "nvic_run_timers k now s = nvic_run_timers k now ?u"
    unfolding p by (rule systick_loop_step) (use less.prems in simp_all)
  show ?case
  proof (cases "nv_tick s + p \<le> now")
    case True
    have "nvic_run_timers k now ?u = Some (systick_expired ?u g (nv_tick ?u + ((now - nv_tick ?u) div p + 1) * p))"
      by (rule less.hyps [of ?u, unfolded pu])
        (use less.prems True pos in \<open>simp_all add: systick_expired_simps p [symmetric]\<close>)
    moreover have "(now - (nv_tick s + p)) div p = (now - nv_tick s) div p - 1"
      using div_mult_self1 [of p "now - nv_tick s" "-1"] pos by (simp add: algebra_simps)
    then have "nv_tick s + p + ((now - (nv_tick s + p)) div p + 1) * p = nv_tick s + ((now - nv_tick s) div p + 1) * p"
      by (simp add: algebra_simps)
    ultimately show ?thesis unfolding p [symmetric] run by (simp add: systick_expired_simps)
  next
    case False
    then have "(now - nv_tick s) div p = 0" using less.prems(2) by (simp add: div_pos_pos_trivial)
    then show ?thesis using run systick_loop_stops [of ?u "nv_tick s + p" now k] False
      by (simp add: systick_expired_simps p [symmetric])
  qed
qed

lemma systick_loop_hangs:
  assumes "nv_timers s = [(SYSTICK_TIMER, nv_tick s)]" "nv_tick s \<le> now" "nv_reload s \<noteq> 0" "0 \<le> nv_tick s"
    "systick_period k s = 0" "now < 2 ^ 63" "systick_signal s = Some g" "systick_signal (s\<lparr>nv_gic := g\<rparr>) = Some g"
  shows "nvic_run_timers k now s = None"
proof -
  let ?u = "systick_expired s g (nv_tick s)"
  let ?stuck = "\<lambda>w. w = s \<or> w = ?u"
  have tick: "systick_timer_tick k now (w\<lparr>nv_timers := []\<rparr>) = Some ?u" if "?stuck w" for w
  proof -
    have w: "systick_signal w = Some g" "nv_reload w \<noteq> 0" "nv_tick w = nv_tick s" "systick_period k w = 0"
        "systick_expired w g (nv_tick s) = ?u"
      using that assms by (auto simp: systick_expired_simps)
    have "systick_timer_tick k now (w\<lparr>nv_timers := []\<rparr>) = Some (systick_expired w g (nv_tick s + systick_period k w))"
      using systick_tick_eq [of "w\<lparr>nv_timers := []\<rparr>" g k now] w(1-4) assms(2,4,6)
      by (simp add: systick_timers_frame del: mult_eq_0_iff)
    then show ?thesis unfolding w(4) by (simp add: w(5))
  qed
  have head: "nv_timers w = [(SYSTICK_TIMER, nv_tick s)]" if "?stuck w" for w
    using that assms(1) by (auto simp: systick_expired_simps)
  define put where put: "put = (\<lambda>l s. s\<lparr>nv_timers := l\<rparr> :: nvic_state)"
  define cb where cb: "cb = (\<lambda>_::nat. systick_timer_tick k now)"
  have "\<not> (a' = nv_timers \<and> put' = put \<and> cb' = cb \<and> n' = now \<and> ?stuck w)"
    if "qemu_run_loop a' put' cb' n' w = Some t" for a' put' cb' n' w t
  proof (rule qemu_run_loop.raw_induct [OF _ that])
    fix f a' put' cb' n' w t
    assume IH: "\<And>a' put' cb' n' w t. f a' put' cb' n' w = Some t \<Longrightarrow>
        \<not> (a' = nv_timers \<and> put' = put \<and> cb' = cb \<and> n' = now \<and> ?stuck w)"
      and body: "(if \<not> qemu_timer_expired_ns (a' w) n' then Some w
         else do { w' \<leftarrow> cb' (fst (hd (a' w))) (put' (tl (a' w)) w); f a' put' cb' n' w' }) = Some t"
    show "\<not> (a' = nv_timers \<and> put' = put \<and> cb' = cb \<and> n' = now \<and> ?stuck w)"
    proof
      assume q: "a' = nv_timers \<and> put' = put \<and> cb' = cb \<and> n' = now \<and> ?stuck w"
      then have "nv_timers w = [(SYSTICK_TIMER, nv_tick s)]" "cb x (put [] w) = Some ?u" for x
        using head tick by (blast, simp add: put cb)
      then have "f nv_timers put cb now ?u = Some t" using body q assms(2) by simp
      with IH show False by blast
    qed
  qed
  from this [of nv_timers put cb now s] have "qemu_run_loop nv_timers put cb now s = None"
    by (cases "qemu_run_loop nv_timers put cb now s") auto
  then show ?thesis by (simp add: nvic_run_timers_def qemu_run_timers_def put cb)
qed

lemma systick_period_zero:
  "systick_period k s = 0 \<longleftrightarrow> nv_reload s = 0xffffffff \<or> bit (nv_control s) 2 \<and> k = 0"
proof -
  have "uint (nv_reload s + 1) = 0 \<longleftrightarrow> nv_reload s = 0xffffffff"
  proof (cases "nv_reload s = 0xffffffff")
    case False
    have "0 \<le> uint (nv_reload s)" by simp
    then have "uint (nv_reload s + 1) \<noteq> 0" using uint_reload_Suc [OF False] by linarith
    with False show ?thesis by blast
  qed simp
  then show ?thesis by (simp add: systick_scale_def)
qed

text \<open>C12: the expiry of the SysTick counter. When the main loop runs the expired timers with the counter's deadline
  passed and a reload value other than 0, the counter is left with the first deadline after the current time
  that is a whole number of periods later, its count flag set and, if its interrupt is enabled, the exception pending
  once. The run does not end when the period is 0: for the reload value \<open>2^32 - 1\<close>, which is stored although the
  register has 24 bits, and for the core clock as the source while \<open>system_clock_scale\<close> is 0, which nothing on this
  board ever sets.\<close>

theorem systick_expiry:
  assumes "gic_ok (nv_gic s)" "nv_timers s = [(SYSTICK_TIMER, nv_tick s)]" "0 \<le> nv_tick s" "nv_tick s \<le> now"
    and "systick_clock k" "systick_time now" "nv_reload s \<noteq> 0"
  shows "if nv_reload s = 0xffffffff \<or> bit (nv_control s) 2 \<and> k = 0
    then nvic_run_timers k now s = None
    else \<exists>g. systick_signal s = Some g \<and> nvic_run_timers k now s = Some (systick_expired s g
      (nv_tick s + ((now - nv_tick s) div systick_period k s + 1) * systick_period k s))"
proof -
  from systick_signal_ok [OF assms(1)] obtain g where
    g: "systick_signal s = Some g" "systick_signal (s\<lparr>nv_gic := g\<rparr>) = Some g" by blast
  have b: "now < 2 ^ 63" "now + systick_period k s < 2 ^ 63"
    using assms(6) systick_period_bounds [OF assms(5), of s] by (simp_all add: systick_time_def)
  show ?thesis
  proof (cases "systick_period k s = 0")
    case True
    have "nvic_run_timers k now s = None"
      by (rule systick_loop_hangs [OF assms(2,4,7,3) True b(1) g])
    then show ?thesis unfolding if_P [OF True [unfolded systick_period_zero]] .
  next
    case False
    then have "0 < systick_period k s" using systick_period_bounds(3) [OF assms(5), of s] by linarith
    from systick_loop_ends [OF assms(2,4,7,3) this b(2) g] g(1) show ?thesis
      unfolding if_not_P [OF False [unfolded systick_period_zero]] by blast
  qed
qed

lemma nvic_board_ok: "gic_stacks (nv_gic nvic_board) (\<lambda>_. [])" "gic_ok (nv_gic nvic_board)"
proof -
  have "arm_gic_common_realize (gic_zero 1 64 REV_NVIC) = Some (gic_zero 1 96 REV_NVIC)"
    by (simp add: arm_gic_common_realize_def gic_zero_def GIC_BASE_IRQ_def Let_def)
  from gic_reset_stacks(1) [OF this] have st: "gic_stacks (arm_gic_common_reset (gic_zero 1 96 REV_NVIC)) (\<lambda>_. [])" by simp
  let ?g = "arm_gic_common_reset (gic_zero 1 96 REV_NVIC)"
  have "gic_keeps ?g (nv_gic nvic_board)"
    using st by (auto simp: gic_keeps_def gic_stacks_def gic_ok_def gic_shape_def nvic_board_def less_Suc_eq_0_disj nth_Cons'
        arm_gic_common_reset_def gic_zero_def Let_def)
  from gic_keeps_stacks [OF this st] show *: "gic_stacks (nv_gic nvic_board) (\<lambda>_. [])" .
  show "gic_ok (nv_gic nvic_board)" using * by (simp add: gic_stacks_def)
qed

definition nvic_ticking :: nvic_state where
  "nvic_ticking = nvic_board\<lparr>nv_control := 7, nv_reload := 99, nv_tick := 1000, nv_timers := [(SYSTICK_TIMER, 1000)]\<rparr>"

theorem systick_expiry_witness:
  "nvic_run_timers 0 5000 nvic_ticking = None \<and>
   (\<exists>g. systick_signal nvic_ticking = Some g \<and>
     nvic_run_timers 10 5500 nvic_ticking = Some (systick_expired nvic_ticking g 6000))"
proof -
  have s: "gic_ok (nv_gic nvic_ticking)" using nvic_board_ok(2) by (simp add: nvic_ticking_def)
  have f: "nv_timers nvic_ticking = [(SYSTICK_TIMER, nv_tick nvic_ticking)]" "nv_tick nvic_ticking = 1000"
      "nv_reload nvic_ticking = 99" "nv_control nvic_ticking = 7" "systick_scale 10 nvic_ticking = 10"
    by (simp_all add: nvic_ticking_def systick_scale_def)
  show ?thesis
    using systick_expiry [OF s f(1), of 5000 0] systick_expiry [OF s f(1), of 5500 10]
    by (simp add: f systick_clock_def systick_time_def)
qed

subsection \<open>Initialisation\<close>

definition systick_start :: "int \<Rightarrow> nvic_state \<Rightarrow> int \<Rightarrow> u32 \<Rightarrow> int \<Rightarrow> u32 \<Rightarrow> nvic_state option" where
  "systick_start k s t1 r t2 v =
    do { s \<leftarrow> nvic_writel k s t1 0x14 r; s \<leftarrow> nvic_writel k s t1 0x18 0; nvic_writel k s t2 0x10 v }"

text \<open>C38: the usual start of the SysTick counter runs late. Setting the reload value, clearing the current value at a
  time \<open>t1\<close> and then enabling the stopped counter at a time \<open>t2\<close> sets the first deadline to \<open>t1 + t2\<close> plus a period of
  the reference clock: it is late by \<open>t1\<close>, the age of the machine, and for the wrong clock when the core clock is
  selected. Clearing the current value arms the timer of the stopped counter and stores an absolute
  time where enabling expects a remaining one.\<close>

theorem systick_start_late:
  assumes "systick_alone s" "nv_control s = 0" "bit v 0" "r \<noteq> 0xffffffff" "systick_clock k" "systick_time t1" "systick_time t2"
  shows "\<exists>s'. systick_start k s t1 r t2 v = Some s' \<and>
    nv_timers s' = [(SYSTICK_TIMER, t1 + t2 + 1000 * (uint r + 1))]"
proof -
  define p where p: "p = 1000 * (uint r + 1)"
  have r: "0 \<le> uint r" "uint r < 4294967295" using uint_reload_lt [OF assms(4)] by simp_all
  have "0 < x \<Longrightarrow> 0 < 1000 * (x::int)" for x by simp
  from this [of "uint r + 1"] r have p0: "0 < p" unfolding p by (simp add: add_nonneg_pos del: zero_less_mult_iff)
  have p1: "p < 2 ^ 52" unfolding p using r by simp
  note pb = p0 p1
  let ?a = "s\<lparr>nv_reload := r\<rparr>"
  let ?b = "?a\<lparr>nv_tick := t1 + p, nv_timers := [(SYSTICK_TIMER, t1 + p)]\<rparr>"
  have al: "systick_alone ?a" using assms(1) by (simp add: systick_alone_def)
  have per: "systick_period k ?a = p" using assms(2) uint_reload_Suc [OF assms(4)] by (simp add: systick_scale_def p)
  have "systick_reload k ?a t1 True = Some ?b"
    using systick_reload_eq [OF al, of t1 True t1 k] per pb assms(6) by (simp add: systick_time_def)
  then have w: "do { s \<leftarrow> nvic_writel k s t1 0x14 r; nvic_writel k s t1 0x18 0 } = Some ?b"
    by (simp add: nvic_writel_def assms(2))
  let ?c = "?b\<lparr>nv_control := v AND 7, nv_tick := t1 + p + t2\<rparr>"
  have "systick_mod_timer ?c = Some (?c\<lparr>nv_timers := [(SYSTICK_TIMER, t1 + p + t2)]\<rparr>)"
    using systick_mod_timer_eq [of ?c] pb assms(6,7) by (simp add: systick_alone_def systick_time_def)
  then have "nvic_writel k ?b t2 0x10 v = Some (?c\<lparr>nv_timers := [(SYSTICK_TIMER, t1 + p + t2)]\<rparr>)"
    using assms(2,3,6,7) pb
    by (simp add: nvic_writel_def systick_write_control_def bit_xor_iff Let_def systick_time_def int64_Some)
  then have "systick_start k s t1 r t2 v = Some (?c\<lparr>nv_timers := [(SYSTICK_TIMER, t1 + p + t2)]\<rparr>)"
    using w by (auto simp: systick_start_def split: bind_splits)
  then show ?thesis by (simp add: p)
qed

theorem systick_start_late_witness:
  "\<exists>s'. systick_start 0 nvic_board 3000000000 999 3000000100 3 = Some s' \<and> nv_timers s' = [(SYSTICK_TIMER, 6001000100)]"
proof -
  have "systick_alone nvic_board" "nv_control nvic_board = 0" by (simp_all add: systick_alone_def nvic_board_def)
  from systick_start_late [OF this, of 3 999 0 3000000000 3000000100] show ?thesis
    by (simp add: systick_clock_def systick_time_def)
qed

end
