(* ===== verification/NvicRun.thy ===== *)
theory NvicRun
  imports NvicTick
begin

text \<open>
  The NVIC of \<^verbatim>\<open>hw/intc/armv7m_nvic.c\<close> as a machine: guest accesses of one, two and four bytes to its whole
  region, input lines, exceptions raised by the CPU, entry and return of exceptions, and runs of the expired
  timers, each at a time of the virtual clock. Its specification is the stack of active exceptions in the
  hardware's numbering; entering an exception pushes its vector, returning from one removes it.

  The numbers 16 to 31 of the distributor have no vector of their own. The lemmas on \<open>gic_quiet\<close> show that
  these are never enabled and so never reported.
\<close>

text \<open>Partial correctness: a defined result satisfies the predicate.\<close>

definition ensures :: "'a option \<Rightarrow> ('a \<Rightarrow> bool) \<Rightarrow> bool" where
  "ensures m P \<longleftrightarrow> (\<forall>x. m = Some x \<longrightarrow> P x)"

lemma ensures_simps [simp]:
  "ensures (Some x) P = P x" "ensures None P"
  "ensures (m \<bind> f) P = ensures m (\<lambda>x. ensures (f x) P)"
  "ensures (map_option g m) P = ensures m (\<lambda>x. P (g x))"
  by (cases m; simp add: ensures_def)+

lemma ensures_if: "(c \<Longrightarrow> ensures a P) \<Longrightarrow> (\<not> c \<Longrightarrow> ensures b P) \<Longrightarrow> ensures (if c then a else b) P"
  by simp

lemma ensures_mono: "ensures m P \<Longrightarrow> (\<And>x. P x \<Longrightarrow> Q x) \<Longrightarrow> ensures m Q"
  by (auto simp: ensures_def)

lemma ensures_True: "(\<And>x. P x) \<Longrightarrow> ensures m P"
  by (simp add: ensures_def)

lemma ensures_bindI: "ensures m P \<Longrightarrow> (\<And>x. P x \<Longrightarrow> ensures (f x) Q) \<Longrightarrow> ensures (m \<bind> f) Q"
  by (auto simp: ensures_def split: bind_splits)

lemma ensures_skip: "(\<And>x. ensures (f x) Q) \<Longrightarrow> ensures (m \<bind> f) Q"
  by (auto simp: ensures_def split: bind_splits)

lemma ensures_exec_list:
  assumes "\<And>s x. I s \<Longrightarrow> x \<in> set xs \<Longrightarrow> ensures (stp s x) I" "I s"
  shows "ensures (exec_list stp s xs) I"
  using assms
proof (induction xs arbitrary: s)
  case (Cons x xs)
  then have "ensures (stp s x) I" "\<And>t. I t \<Longrightarrow> ensures (exec_list stp t xs) I" by auto
  then show ?case by simp (erule ensures_mono)
qed simp

lemma yields_ensures: "yields m P \<Longrightarrow> ensures m Q \<Longrightarrow> yields m (\<lambda>x. P x \<and> Q x)"
  by (auto simp: yields_def)

subsection \<open>Numbers without a vector\<close>

definition gic_quiet :: "GICState \<Rightarrow> bool" where
  "gic_quiet g \<longleftrightarrow> gic_num_cpu g = 1 \<and> gic_revision g = REV_NVIC \<and> gic_num_irq g \<le> GIC_MAXIRQ \<and>
     (\<forall>i. 16 \<le> i \<and> i < 32 \<longrightarrow> gi_enabled (gic_irqs g ! i) = 0) \<and>
     \<not> (16 \<le> unat (gic_current_pending g ! 0) \<and> unat (gic_current_pending g ! 0) < 32)"

lemma quiet_mod:
  assumes "gic_quiet g" "32 \<le> irq \<or> irq < 16 \<or> (\<forall>i. gi_enabled (f i) = gi_enabled i)"
  shows "ensures (gic_mod g irq f) gic_quiet"
  using assms by (auto simp: ensures_def gic_mod_def gic_quiet_def nth_list_update nth_opt_def split: if_splits bind_splits)

lemma gic_best_enabled:
  "gic_best g cpu n = Some (prio, irq) \<Longrightarrow> irq = NO_IRQ \<or> irq < n \<and> gi_enabled (gic_irqs g ! irq) \<noteq> 0"
  by (induction n arbitrary: prio irq)
    (auto simp: GIC_TEST_ENABLED_def gic_test_def nth_opt_def less_Suc_eq split: bind_splits if_splits)

lemma quiet_put:
  assumes "gic_quiet g" "irq = NO_IRQ \<or> irq < gic_num_irq g \<and> gi_enabled (gic_irqs g ! irq) \<noteq> 0"
  shows "ensures (gic_put_pending g 0 irq) gic_quiet"
proof -
  have "irq \<le> NO_IRQ" "\<not> (16 \<le> irq \<and> irq < 32)" using assms by (auto simp: gic_quiet_def)
  then show ?thesis using assms(1)
    by (auto simp: ensures_def gic_put_pending_def gic_quiet_def set_opt_def unat_irq split: if_splits)
qed

lemma quiet_parent: "gic_quiet g \<Longrightarrow> ensures (gic_put_parent_irq g c b) gic_quiet"
  by (auto simp: ensures_def gic_put_parent_irq_def gic_quiet_def split: bind_splits)

lemma quiet_update: "gic_quiet g \<Longrightarrow> ensures (gic_update g) gic_quiet"
proof -
  assume g: "gic_quiet g"
  have n: "gic_num_cpu g = 1" using g by (simp add: gic_quiet_def)
  have best: "ensures (gic_best h 0 (gic_num_irq h)) (\<lambda>(p, irq). irq = NO_IRQ \<or> irq < gic_num_irq h \<and> gi_enabled (gic_irqs h ! irq) \<noteq> 0)" for h
    using gic_best_enabled [of h 0 "gic_num_irq h"] by (auto simp: ensures_def)
  have "ensures (gic_update_loop g [0]) gic_quiet"
    unfolding gic_update_loop.simps
  proof (rule ensures_bindI [OF quiet_put [OF g]])
    fix h
    assume h: "gic_quiet h"
    have rest: "ensures (do {
           s \<leftarrow> (if p < unat pm then gic_put_pending h 0 irq else Some h);
           s \<leftarrow> gic_put_parent_irq s 0 (p < unat pm \<and> p < unat rp); Some s }) gic_quiet"
      if "irq = NO_IRQ \<or> irq < gic_num_irq h \<and> gi_enabled (gic_irqs h ! irq) \<noteq> 0"
      for p irq and pm rp :: u16
      by (rule ensures_bindI [of _ gic_quiet]) (use quiet_put [OF h that] h quiet_parent in auto)
    show "ensures (do { ce \<leftarrow> nth_opt (gic_cpu_enabled h) 0;
        if \<not> gic_enabled h \<or> \<not> ce then gic_put_parent_irq h 0 False
        else do {
           (best_prio, best_irq) \<leftarrow> gic_best h 0 (gic_num_irq h);
           pm \<leftarrow> nth_opt (gic_priority_mask h) 0;
           rp \<leftarrow> nth_opt (gic_running_priority h) 0;
           s \<leftarrow> (if best_prio < unat pm then gic_put_pending h 0 best_irq else Some h);
           s \<leftarrow> gic_put_parent_irq s 0 (best_prio < unat pm \<and> best_prio < unat rp);
           Some s } }) gic_quiet"
      by (rule ensures_skip, rule ensures_if, rule quiet_parent [OF h], rule ensures_bindI [OF best])
        (simp only: split_paired_all prod.case, rule ensures_skip, rule ensures_skip, rule rest, assumption)
  qed simp
  then show ?thesis by (simp add: gic_update_def n)
qed

lemma quiet_mod_update:
  assumes "gic_quiet g" "32 \<le> irq \<or> irq < 16 \<or> (\<forall>i. gi_enabled (f i) = gi_enabled i)"
  shows "ensures (do { g \<leftarrow> gic_mod g irq f; gic_update g }) gic_quiet"
  using ensures_bindI [OF quiet_mod [OF assms]] quiet_update by blast

lemma quiet_set_pending_private: "gic_quiet g \<Longrightarrow> ensures (gic_set_pending_private g cpu irq) gic_quiet"
  unfolding gic_set_pending_private_def GIC_SET_PENDING_def
  by (rule ensures_skip, rule ensures_if, simp, rule quiet_mod_update) simp_all

lemma quiet_set_irq: "gic_quiet g \<Longrightarrow> ensures (gic_set_irq g n level) gic_quiet"
proof -
  assume g: "gic_quiet g"
  have "ensures (do { l \<leftarrow> GIC_TEST_LEVEL g irq cm;
         if level = l then Some g
         else do {
           s \<leftarrow> (if level then
                   do { s \<leftarrow> GIC_SET_LEVEL g irq cm;
                        t \<leftarrow> GIC_TEST_TRIGGER s irq;
                        e \<leftarrow> GIC_TEST_ENABLED s irq cm;
                        if t \<or> e then GIC_SET_PENDING s irq target else Some s }
                 else GIC_CLEAR_LEVEL g irq cm);
           gic_update s } }) gic_quiet" for irq cm target
  proof (rule ensures_skip, rule ensures_if)
    fix l
    show "ensures (do {
           s \<leftarrow> (if level then
                   do { s \<leftarrow> GIC_SET_LEVEL g irq cm;
                        t \<leftarrow> GIC_TEST_TRIGGER s irq;
                        e \<leftarrow> GIC_TEST_ENABLED s irq cm;
                        if t \<or> e then GIC_SET_PENDING s irq target else Some s }
                 else GIC_CLEAR_LEVEL g irq cm);
           gic_update s }) gic_quiet"
      by (rule ensures_bindI [OF _ quiet_update], rule ensures_if,
          rule ensures_bindI [of _ gic_quiet], unfold GIC_SET_LEVEL_def GIC_CLEAR_LEVEL_def GIC_SET_PENDING_def)
        (use g quiet_mod in \<open>auto intro!: ensures_True\<close>)
  qed (simp add: g)
  then show ?thesis unfolding gic_set_irq_def by (auto intro!: ensures_True simp: Let_def)
qed

lemma quiet_put_priority: "gic_quiet g \<Longrightarrow> ensures (gic_put_priority g irq cpu v) gic_quiet"
  by (auto simp: ensures_def gic_put_priority_def gic_quiet_def split: bind_splits if_splits)

lemma quiet_bits:
  assumes "gic_quiet g" "32 \<le> irq"
  shows "ensures (gic_set_enable_bit cpu irq v g i) gic_quiet" "ensures (gic_clear_enable_bit cpu irq v g i) gic_quiet"
    "ensures (gic_set_pending_bit irq v g i) gic_quiet" "ensures (gic_clear_pending_bit irq v g i) gic_quiet"
    "ensures (gic_set_config irq v g i) gic_quiet"
proof -
  have mod: "ensures (gic_mod h (irq + i) f) gic_quiet" if "gic_quiet h" for h f
    using quiet_mod [OF that] assms(2) by simp
  show "ensures (gic_set_enable_bit cpu irq v g i) gic_quiet"
    unfolding gic_set_enable_bit_def GIC_SET_ENABLED_def GIC_SET_PENDING_def Let_def
    by (rule ensures_if, rule ensures_skip, rule ensures_bindI [OF mod [OF assms(1)]], rule ensures_skip, rule ensures_skip)
      (use mod assms(1) in auto)
  show "ensures (gic_clear_enable_bit cpu irq v g i) gic_quiet" "ensures (gic_clear_pending_bit irq v g i) gic_quiet"
    using mod [OF assms(1)] assms(1)
    by (simp_all add: gic_clear_enable_bit_def GIC_CLEAR_ENABLED_def gic_clear_pending_bit_def GIC_CLEAR_PENDING_def)
  show "ensures (gic_set_pending_bit irq v g i) gic_quiet"
    unfolding gic_set_pending_bit_def GIC_SET_PENDING_def
    by (rule ensures_if, rule ensures_skip) (use mod assms(1) in auto)
  show "ensures (gic_set_config irq v g i) gic_quiet"
    unfolding gic_set_config_def GIC_PUT_MODEL_def GIC_PUT_TRIGGER_def
    by (rule ensures_bindI [OF mod [OF assms(1)]]) (rule mod)
qed

lemma quiet_loop:
  assumes "gic_quiet g" "\<And>h i. gic_quiet h \<Longrightarrow> ensures (f h i) gic_quiet"
  shows "ensures (do { g \<leftarrow> exec_list f g xs; gic_update g }) gic_quiet"
  by (rule ensures_bindI [OF ensures_exec_list [of gic_quiet] quiet_update]) (use assms in auto)

lemma quiet_dist_writeb:
  assumes g: "gic_quiet g" and a: "0x100 \<le> a"
  shows "ensures (gic_dist_writeb g cur a v) gic_quiet"
proof -
  have b: "GIC_BASE_IRQ g = 32" using g by (simp add: gic_quiet_def GIC_BASE_IRQ_def)
  note loops = quiet_loop [OF g quiet_bits(1)] quiet_loop [OF g quiet_bits(2)] quiet_loop [OF g quiet_bits(3)]
    quiet_loop [OF g quiet_bits(4)] quiet_loop [OF g quiet_bits(5)]
  have targ: "ensures (do { xs \<leftarrow> set_opt (gic_irq_target g) irq t; gic_update (g\<lparr>gic_irq_target := xs\<rparr>) }) gic_quiet" for irq t
    by (rule ensures_skip, rule quiet_update) (use g in \<open>simp add: gic_quiet_def\<close>)
  have prio: "ensures (do { s \<leftarrow> gic_put_priority g irq c w; gic_update s }) gic_quiet" for irq c w
    by (rule ensures_bindI [OF quiet_put_priority [OF g]]) (rule quiet_update)
  have n16: "\<not> x + 32 < (16::nat)" "\<not> x + 32 < GIC_INTERNAL" for x by simp_all
  show ?thesis
    unfolding gic_dist_writeb_def Let_def b n16 if_False
    using a by (intro ensures_if) (simp_all add: g quiet_update loops targ prio del: ensures_simps(3))
qed

lemma quiet_put_last_active: "gic_quiet g \<Longrightarrow> ensures (gic_put_last_active g irq cpu v) gic_quiet"
  by (auto simp: ensures_def gic_put_last_active_def gic_quiet_def split: bind_splits)

lemma quiet_set_running: "gic_quiet g \<Longrightarrow> ensures (gic_set_running_irq g cpu irq) gic_quiet"
  unfolding gic_set_running_irq_def
  by (rule ensures_skip, rule ensures_skip, rule ensures_skip, rule quiet_update) (simp add: gic_quiet_def)

lemma quiet_unlink: "gic_quiet g \<Longrightarrow> ensures (gic_unlink g cpu irq tmp) gic_quiet"
proof -
  have "gic_quiet g \<longrightarrow> gic_quiet h" if "gic_unlink g cpu irq tmp = Some h" for g cpu irq tmp h
  proof (rule gic_unlink.raw_induct [OF _ that])
    fix f g cpu irq tmp h
    assume IH: "\<And>g cpu irq tmp h. f g cpu irq tmp = Some h \<Longrightarrow> gic_quiet g \<longrightarrow> gic_quiet h"
      and body: "do { l \<leftarrow> gic_get_last_active g tmp cpu;
         if l = NO_IRQ then Some g
         else if l = irq then do { k \<leftarrow> gic_get_last_active g irq cpu; gic_put_last_active g tmp cpu k }
         else f g cpu irq l } = Some h"
    show "gic_quiet g \<longrightarrow> gic_quiet h"
      using body IH quiet_put_last_active [of g tmp cpu]
      by (fastforce simp: ensures_def split: bind_splits if_splits)
  qed
  then show "gic_quiet g \<Longrightarrow> ensures (gic_unlink g cpu irq tmp) gic_quiet" by (simp add: ensures_def)
qed

lemma quiet_acknowledge:
  assumes "gic_quiet g"
  shows "ensures (gic_acknowledge_irq g 0) (\<lambda>(irq, h). gic_quiet h \<and> \<not> (16 \<le> irq \<and> irq < 32))"
proof -
  have n: "\<not> (16 \<le> unat cp \<and> unat cp < 32)" if "nth_opt (gic_current_pending g) 0 = Some cp" for cp
    using that assms by (auto simp: gic_quiet_def nth_opt_def split: if_splits)
  have run: "ensures (do {
             ri \<leftarrow> nth_opt (gic_running_irq g) 0;
             s \<leftarrow> gic_put_last_active g irq 0 (unat ri);
             m \<leftarrow> GIC_TEST_MODEL s irq;
             s \<leftarrow> GIC_CLEAR_PENDING s irq (if m then ALL_CPU_MASK else cpu_bit 0);
             s \<leftarrow> gic_set_running_irq s 0 irq;
             Some (irq, s) }) (\<lambda>(i, h). gic_quiet h \<and> \<not> (16 \<le> i \<and> i < 32))" if "\<not> (16 \<le> irq \<and> irq < 32)" for irq
    unfolding GIC_CLEAR_PENDING_def
    by (rule ensures_skip, rule ensures_bindI [OF quiet_put_last_active [OF assms]], rule ensures_skip,
        rule ensures_bindI [OF quiet_mod], assumption, simp, rule ensures_bindI [OF quiet_set_running], assumption)
      (use that in simp)
  have cp: "ensures (nth_opt (gic_current_pending g) 0) (\<lambda>cp. \<not> (16 \<le> unat cp \<and> unat cp < 32))"
    using n by (simp add: ensures_def)
  show ?thesis
    unfolding gic_acknowledge_irq_def Let_def
    by (rule ensures_bindI [OF cp], rule ensures_skip, rule ensures_if, simp add: assms, rule ensures_skip, rule ensures_if,
        simp add: assms, rule run)
qed

lemma quiet_complete:
  assumes "gic_quiet g"
  shows "ensures (gic_complete_irq g 0 irq) gic_quiet"
proof -
  have pend: "ensures (if u then GIC_SET_PENDING g irq m else Some g) gic_quiet" for u m
    using assms quiet_mod [OF assms] by (simp add: GIC_SET_PENDING_def)
  show ?thesis
    unfolding gic_complete_irq_def Let_def
    apply (rule ensures_if, simp add: assms, rule ensures_skip, rule ensures_if, simp add: assms)
    apply (rule ensures_skip, rule ensures_skip, rule ensures_skip, rule ensures_skip, rule ensures_bindI [OF pend])
    apply (rule ensures_if, rule ensures_bindI [OF quiet_unlink], assumption, simp add: quiet_update)
    apply (rule ensures_skip, erule quiet_set_running)
    done
qed

subsection \<open>The stack of active exceptions\<close>

definition nvic_irq :: "nat \<Rightarrow> nat" where
  "nvic_irq v = (if 16 \<le> v then v + 16 else v)"

definition nvic_gic :: "nat \<Rightarrow> GICState \<Rightarrow> nat list \<Rightarrow> bool" where
  "nvic_gic n g st \<longleftrightarrow> gic_stacks g (\<lambda>_. map nvic_irq st) \<and> gic_quiet g \<and> gic_num_irq g = n"

lemma nvic_gic_facts:
  assumes "nvic_gic n g st"
  shows "gic_ok g" "gic_quiet g" "gic_num_irq g = n" "gic_num_cpu g = 1" "n \<le> GIC_MAXIRQ" "32 \<le> n"
    "GIC_BASE_IRQ g = 32" "gic_chain g 0 (map nvic_irq st)"
  using assms by (auto simp: nvic_gic_def gic_stacks_def gic_ok_def gic_shape_def gic_quiet_def GIC_BASE_IRQ_def)

lemma nvic_gic_keeps:
  assumes "nvic_gic n g st" "yields m (gic_keeps g)" "ensures m gic_quiet"
  shows "yields m (\<lambda>h. nvic_gic n h st)"
proof -
  have "gic_stacks g (\<lambda>_. map nvic_irq st)" using assms(1) by (simp add: nvic_gic_def)
  from yields_ensures [OF gic_yields_stacks [OF assms(2) this] assms(3)] show ?thesis
    by (rule yields_mono) (use assms(1) in \<open>simp add: nvic_gic_def gic_size_def\<close>)
qed

lemma nvic_set_pending_private:
  assumes "nvic_gic n g st" "irq < n"
  shows "yields (gic_set_pending_private g 0 irq) (\<lambda>h. nvic_gic n h st)"
  using nvic_gic_facts [OF assms(1)] assms
  by (intro nvic_gic_keeps [OF assms(1)] gic_set_pending_private_keeps quiet_set_pending_private) auto

lemma nvic_set_line:
  assumes "nvic_gic n g st" "i < n - 32"
  shows "yields (gic_set_irq g i level) (\<lambda>h. nvic_gic n h st)"
  using nvic_gic_facts [OF assms(1)] assms
  by (intro nvic_gic_keeps [OF assms(1)] gic_set_irq_keeps quiet_set_irq) auto

lemma nvic_mod:
  assumes "nvic_gic n g st" "irq < 16"
  shows "yields (gic_mod g irq f) (\<lambda>h. nvic_gic n h st)"
  using nvic_gic_facts [OF assms(1)] assms
  by (intro nvic_gic_keeps [OF assms(1)] gic_mod_keeps gic_keeps_refl quiet_mod) auto

lemma nvic_update: "nvic_gic n g st \<Longrightarrow> yields (gic_update g) (\<lambda>h. nvic_gic n h st)"
  by (rule nvic_gic_keeps) (auto intro: gic_update_keeps gic_keeps_refl quiet_update dest: nvic_gic_facts)

lemma nvic_put_priority:
  assumes "nvic_gic n g st" "irq < GIC_MAXIRQ" "irq \<notin> nvic_irq ` set st"
  shows "yields (gic_put_priority g irq 0 v) (\<lambda>h. nvic_gic n h st)"
proof -
  note g = nvic_gic_facts [OF assms(1)]
  have "yields (gic_put_priority g irq 0 v) (\<lambda>h. gic_stacks h (\<lambda>_. map nvic_irq st) \<and> gic_num_irq h = n)"
  proof (rule yields_mono [OF gic_put_priority_ok [OF g(1) assms(2)]], simp, elim conjE)
    fix h
    assume h: "gic_ok h" "gic_num_cpu h = gic_num_cpu g" "gic_num_irq h = gic_num_irq g"
      "gic_running_irq h = gic_running_irq g" "gic_running_priority h = gic_running_priority g" "gic_la h = gic_la g"
      "\<forall>c i. i \<noteq> irq \<longrightarrow> gic_prio h c i = gic_prio g c i"
    have "gic_prio h 0 x = gic_prio g 0 x" if "x \<in> set (map nvic_irq st)" for x
      using that assms(3) by (intro h(7) [rule_format]) auto
    then have "gic_chain h 0 (map nvic_irq st)"
      by (intro gic_chain_cong [OF g(8)]) (use h in auto)
    then show "gic_stacks h (\<lambda>_. map nvic_irq st) \<and> gic_num_irq h = n" using h g by (simp add: gic_stacks_def)
  qed
  from yields_ensures [OF this quiet_put_priority [OF g(2)]] show ?thesis
    by (rule yields_mono) (simp add: nvic_gic_def)
qed

lemma map_remove1_inj: "inj f \<Longrightarrow> map f (remove1 x xs) = remove1 (f x) (map f xs)"
  by (induction xs) (auto simp: inj_eq)

lemma inj_nvic_irq: "inj nvic_irq"
  by (auto simp: inj_def nvic_irq_def split: if_splits)

lemma nvic_dist_writeb:
  assumes "nvic_gic n g st" "0x100 \<le> a" "0x400 \<le> a \<and> a < 0x800 \<longrightarrow> a - 0x400 + 16 \<notin> set st"
  shows "yields (gic_dist_writeb g 0 a v) (\<lambda>h. nvic_gic n h st)"
proof -
  note g = nvic_gic_facts [OF assms(1)]
  show ?thesis
  proof (cases "0x400 \<le> a \<and> a < 0x800")
    case True
    have "a - 0x400 + GIC_BASE_IRQ g = nvic_irq (a - 0x400 + 16)" using g(7) by (simp add: nvic_irq_def)
    then have "a - 0x400 + GIC_BASE_IRQ g \<notin> set (map nvic_irq st)"
      using assms(3) True inj_nvic_irq by (auto simp: inj_eq)
    then have "yields (gic_dist_writeb g 0 a v) (\<lambda>h. gic_stacks h (\<lambda>_. map nvic_irq st) \<and> gic_size h = gic_size g \<and>
        gic_revision h = gic_revision g)"
      using assms(1) True g(4) by (intro gic_dist_writeb_priority) (auto simp: nvic_gic_def)
    from yields_ensures [OF this quiet_dist_writeb [OF g(2) assms(2)]] show ?thesis
      by (rule yields_mono) (use g(3) in \<open>simp add: nvic_gic_def gic_size_def\<close>)
  next
    case False
    then show ?thesis
      using g by (intro nvic_gic_keeps [OF assms(1)] gic_dist_writeb_keeps quiet_dist_writeb) (auto simp: assms(2))
  qed
qed

lemma nvic_acknowledge:
  assumes "nvic_gic n g st"
  shows "yields (gic_acknowledge_irq g 0) (\<lambda>(irq, h).
    nvic_gic n h (if irq = NO_IRQ then st else (if 32 \<le> irq then irq - 16 else irq) # st))"
proof -
  note g = nvic_gic_facts [OF assms]
  have st: "gic_stacks g (\<lambda>_. map nvic_irq st)" "0 < gic_num_cpu g" using assms g by (simp_all add: nvic_gic_def)
  have one: "gic_stacks h f = gic_stacks h (\<lambda>_. f 0)" if "gic_quiet h" for h f
    using that by (simp add: gic_stacks_def gic_quiet_def)
  show ?thesis
  proof (rule yields_mono [OF yields_ensures [OF gic_acknowledge_sim [OF st] quiet_acknowledge [OF g(2)]]], clarify)
    fix irq h
    assume h: "gic_stacks h (if irq = NO_IRQ then (\<lambda>_. map nvic_irq st) else (\<lambda>_. map nvic_irq st)(0 := irq # map nvic_irq st))"
      "gic_size h = gic_size g" "gic_quiet h" "\<not> (16 \<le> irq \<and> irq < 32)"
    have "nvic_irq (if 32 \<le> irq then irq - 16 else irq) = irq" using h(4) by (auto simp: nvic_irq_def)
    then show "nvic_gic n h (if irq = NO_IRQ then st else (if 32 \<le> irq then irq - 16 else irq) # st)"
      using h(1-3) one [OF h(3), of "(\<lambda>_. map nvic_irq st)(0 := irq # map nvic_irq st)"] g(3)
      by (auto simp: nvic_gic_def gic_size_def)
  qed
qed

lemma nvic_complete:
  assumes "nvic_gic n g st"
  shows "yields (gic_complete_irq g 0 (nvic_irq v)) (\<lambda>h. nvic_gic n h (remove1 v st))"
proof -
  note g = nvic_gic_facts [OF assms]
  have "yields (gic_complete_irq g 0 (nvic_irq v)) (\<lambda>h. gic_ok h \<and> gic_chain h 0 (map nvic_irq (remove1 v st)) \<and> gic_others 0 g h)"
    using gic_complete_ok [OF g(1) _ g(8)] by (auto simp: yields_def map_remove1_inj [OF inj_nvic_irq])
  from yields_ensures [OF this quiet_complete [OF g(2)]] show ?thesis
    by (rule yields_mono) (use g in \<open>auto simp: nvic_gic_def gic_stacks_def gic_others_def gic_quiet_def\<close>)
qed

subsection \<open>The counter\<close>

text \<open>The stored tick is a deadline while the counter runs and a remaining time while it is stopped, except after the
  current value was written. It stays below a bound that leaves room for every 64-bit sum.\<close>

definition systick_ok :: "nvic_state \<Rightarrow> int \<Rightarrow> bool" where
  "systick_ok s t \<longleftrightarrow> (nv_timers s = [] \<or> nv_timers s = [(SYSTICK_TIMER, nv_tick s)]) \<and> 0 \<le> nv_tick s \<and>
     nv_reload s \<noteq> 0xffffffff \<and> nv_tick s \<le> 2 ^ 61 + 2 ^ 52 + (if bit (nv_control s) 0 then t else 0)"

definition nv_same :: "nvic_state \<Rightarrow> nvic_state \<Rightarrow> bool" where
  "nv_same s u \<longleftrightarrow> nv_gic u = nv_gic s \<and> nv_num_irq u = nv_num_irq s"

lemma systick_ok_alone: "systick_ok s t \<Longrightarrow> systick_alone s"
  by (auto simp: systick_ok_def systick_alone_def)

lemma systick_ok_later: "systick_ok s t \<Longrightarrow> t \<le> now \<Longrightarrow> systick_ok s now"
  by (auto simp: systick_ok_def split: if_splits)

lemma systick_ok_restart:
  assumes "systick_ok s t" "systick_clock k" "systick_time now"
  shows "yields (systick_reload k s now True) (\<lambda>u. systick_ok u now \<and> nv_same s u)"
proof -
  note b = systick_period_bounds(3,4) [OF assms(2), of s]
  have "systick_reload k s now True =
      Some (s\<lparr>nv_tick := now + systick_period k s, nv_timers := [(SYSTICK_TIMER, now + systick_period k s)]\<rparr>)"
    using b assms(3) by (intro systick_reload_eq [OF systick_ok_alone [OF assms(1)]]) (simp_all add: systick_time_def)
  then show ?thesis using assms b by (simp add: systick_ok_def systick_time_def nv_same_def)
qed

lemma systick_ok_control:
  assumes "systick_ok s t" "systick_clock k" "systick_time now" "t \<le> now"
  shows "yields (systick_write_control k s now v) (\<lambda>u. systick_ok u now \<and> nv_same s u)"
proof -
  define c where c: "c = (nv_control s AND 0xfffffff8) OR (v AND 7)"
  let ?s = "s\<lparr>nv_control := c\<rparr>"
  have c0: "bit c 0 = bit v 0" by (simp add: c bit_or_iff bit_and_iff)
  have tick: "0 \<le> nv_tick s" "nv_tick s \<le> 2 ^ 61 + 2 ^ 52 + (if bit (nv_control s) 0 then now else 0)"
    using systick_ok_later [OF assms(1,4)] by (simp_all add: systick_ok_def)
  have now: "0 \<le> now" "now < 2 ^ 61" using assms(3) by (simp_all add: systick_time_def)
  have al: "systick_alone (?s\<lparr>nv_tick := x\<rparr>)" for x using systick_ok_alone [OF assms(1)] by (simp add: systick_alone_def)
  show ?thesis
  proof (cases "bit (nv_control s XOR v) 0")
    case flip: True
    show ?thesis
    proof (cases "bit v 0")
      case True
      then have off: "\<not> bit (nv_control s) 0" using flip by (simp add: bit_xor_iff)
      show ?thesis
      proof (cases "nv_tick s = 0")
        case z: True
        have "systick_ok ?s now" using assms(1) z now True c0 by (simp add: systick_ok_def)
        from systick_ok_restart [OF this assms(2,3)] show ?thesis
          using flip True z by (simp add: systick_write_control_def Let_def c [symmetric] nv_same_def)
      next
        case False
        have "systick_mod_timer (?s\<lparr>nv_tick := nv_tick s + now\<rparr>) =
            Some (?s\<lparr>nv_tick := nv_tick s + now, nv_timers := [(SYSTICK_TIMER, nv_tick s + now)]\<rparr>)"
          using systick_mod_timer_eq [OF al, of "nv_tick s + now"] tick now off by simp
        then show ?thesis using flip True False tick now off assms(1)
          by (simp add: systick_write_control_def Let_def c [symmetric] nv_same_def int64_Some systick_ok_def c0)
      qed
    next
      case False
      then have on: "bit (nv_control s) 0" using flip by (simp add: bit_xor_iff)
      have "nv_tick s \<le> 2 ^ 61 + 2 ^ 52 + t" using assms(1) on by (simp add: systick_ok_def)
      then show ?thesis using flip False tick now on assms(1,4) systick_del_timer [OF systick_ok_alone [OF assms(1)]]
        by (simp add: systick_write_control_def Let_def c [symmetric] nv_same_def int64_Some systick_ok_def c0)
    qed
  next
    case False
    then have same: "bit (nv_control s) 0 = bit v 0" by (simp add: bit_xor_iff)
    then have ok: "systick_ok ?s now" using systick_ok_later [OF assms(1,4)] c0 by (simp add: systick_ok_def)
    from systick_ok_restart [OF this assms(2,3)] show ?thesis
      using False ok by (simp add: systick_write_control_def Let_def c [symmetric] nv_same_def)
  qed
qed

lemma systick_ok_current:
  assumes "systick_ok s now" "0 < k" "systick_time now"
  shows "yields (systick_current k s now) (\<lambda>_. True)"
proof -
  have sc: "0 < systick_scale k s" using assms(2) by (simp add: systick_scale_def)
  have b: "nv_tick s \<le> 2 ^ 61 + 2 ^ 52 + 2 ^ 61" "0 \<le> now" "now < 2 ^ 61"
    using assms(1,3) by (auto simp: systick_ok_def systick_time_def split: if_splits)
  have "int64 ((nv_tick s - (now + 1)) sdiv systick_scale k s + 1) =
      Some ((nv_tick s - (now + 1)) sdiv systick_scale k s + 1)" if "now < nv_tick s"
  proof -
    let ?d = "nv_tick s - (now + 1)"
    have "?d sdiv systick_scale k s = ?d div systick_scale k s"
      using sc that by (auto simp: signed_divide_int_def sgn_if)
    moreover have "0 \<le> ?d div systick_scale k s" "?d div systick_scale k s \<le> ?d"
      using sc that zdiv_mono2 [of ?d 1 "systick_scale k s"] by (simp_all add: pos_imp_zdiv_nonneg_iff)
    ultimately show ?thesis using b by (intro int64_Some) auto
  qed
  then show ?thesis using b sc by (simp add: systick_current_def int64_Some Let_def)
qed

subsection \<open>Registers\<close>

definition nvic_inv :: "nvic_state \<Rightarrow> nat list \<Rightarrow> int \<Rightarrow> bool" where
  "nvic_inv s st t \<longleftrightarrow> nvic_gic (nv_num_irq s + 32) (nv_gic s) st \<and> systick_ok s t"

lemma nvic_inv_gic: "nvic_inv s st t \<Longrightarrow> nvic_gic (nv_num_irq s + 32) (nv_gic s) st"
  by (simp add: nvic_inv_def)

lemma nvic_inv_later: "nvic_inv s st t \<Longrightarrow> t \<le> now \<Longrightarrow> nvic_inv s st now"
  by (auto simp: nvic_inv_def intro: systick_ok_later)

lemma nvic_inv_same: "nvic_inv s st t \<Longrightarrow> systick_ok u now \<Longrightarrow> nv_same s u \<Longrightarrow> nvic_inv u st now"
  by (simp add: nvic_inv_def nv_same_def)

lemma nvic_inv_put_gic:
  "nvic_inv s st t \<Longrightarrow> nvic_gic (nv_num_irq s + 32) h st' \<Longrightarrow> nvic_inv (s\<lparr>nv_gic := h\<rparr>) st' t"
  by (simp add: nvic_inv_def systick_ok_def)

lemma nvic_inv_with_gic:
  assumes "nvic_inv s st t" "yields m (\<lambda>h. nvic_gic (nv_num_irq s + 32) h st')"
  shows "yields (nv_with_gic s m) (\<lambda>u. nvic_inv u st' t)"
  unfolding nv_with_gic_def yields_map
  by (rule yields_mono [OF assms(2)]) (rule nvic_inv_put_gic [OF assms(1)])

lemma nvic_inv_set_pending:
  assumes "nvic_inv s st t" "irq < 16 \<or> irq < nv_num_irq s + 16"
  shows "yields (armv7m_nvic_set_pending s irq) (\<lambda>u. nvic_inv u st t)"
  unfolding armv7m_nvic_set_pending_def
  by (rule nvic_inv_with_gic [OF assms(1)], rule nvic_set_pending_private [OF nvic_inv_gic [OF assms(1)]]) (use assms(2) in auto)

lemma nvic_inv_clear_pending:
  assumes "nvic_inv s st t" "irq < 16"
  shows "yields (nvic_clear_pending s irq) (\<lambda>u. nvic_inv u st t)"
  unfolding nvic_clear_pending_def
  by (rule nvic_inv_with_gic [OF assms(1)])
    (use yields_mono [OF nvic_mod [OF nvic_inv_gic [OF assms(1)] assms(2)] nvic_update] in simp)

lemma nvic_inv_write_icsr:
  assumes "nvic_inv s st t"
  shows "yields (nvic_write_icsr s v) (\<lambda>u. nvic_inv u st t)"
proof -
  have one: "yields (if a then armv7m_nvic_set_pending u irq else if b then nvic_clear_pending u irq else Some u) (\<lambda>u. nvic_inv u st t)"
    if "nvic_inv u st t" "irq < 16" for u irq a b
    using nvic_inv_set_pending [OF that(1), of irq] nvic_inv_clear_pending [OF that] that by simp
  have nmi: "yields (if bit v 31 then armv7m_nvic_set_pending s EXCP_NMI else Some s) (\<lambda>u. nvic_inv u st t)"
    using nvic_inv_set_pending [OF assms, of EXCP_NMI] assms by simp
  show ?thesis
    unfolding nvic_write_icsr_def yields_bind
    by (rule yields_mono [OF nmi], rule yields_mono [OF one], assumption, simp, rule one, assumption, simp)
qed

lemma nvic_gic_test: "nvic_gic n g st \<Longrightarrow> irq < GIC_MAXIRQ \<Longrightarrow> gic_test g irq P = Some (P (gic_irqs g ! irq))"
  using gic_accessors(2) [of g irq 0] by (simp add: nvic_gic_def gic_quiet_def gic_stacks_def gic_ok_def)

lemma nvic_isr_pending_ok:
  "nvic_gic n g st \<Longrightarrow> \<forall>irq\<in>set irqs. irq < GIC_MAXIRQ \<Longrightarrow>
   nvic_isr_pending g irqs = Some (\<exists>irq\<in>set irqs. gi_pending (gic_irqs g ! irq) \<noteq> 0)"
  by (induction irqs) (simp_all add: nvic_gic_test)

lemma nvic_shcsr_ok: "nvic_gic n g st \<Longrightarrow> yields (nvic_shcsr g) (\<lambda>_. True)"
  by (simp add: nvic_shcsr_def nvic_gic_test)

lemma nvic_icsr_ok:
  assumes "nvic_inv s st t"
  shows "yields (nvic_icsr s) (\<lambda>_. True)"
proof -
  note gi = nvic_inv_gic [OF assms]
  note g = nvic_gic_facts [OF gi]
  have sh: "gic_shape (nv_gic s)" using g(1) by (simp add: gic_ok_def)
  note l = gic_shape_lengths [OF sh]
  have r: "unat (gic_running_irq (nv_gic s) ! 0) \<noteq> NO_IRQ \<Longrightarrow> unat (gic_running_irq (nv_gic s) ! 0) < GIC_MAXIRQ"
    using g(8,3,5) by (auto simp: gic_chain_def split: list.splits)
  have u: "(x::u16) = 1023 \<longleftrightarrow> unat x = NO_IRQ" for x by (metis unat_irq order_refl of_nat_numeral word_unat_eq_iff)
  have la: "yields (if gic_running_irq (nv_gic s) ! 0 = 1023 then Some True
      else map_option (\<lambda>l. l = NO_IRQ) (gic_get_last_active (nv_gic s) (unat (gic_running_irq (nv_gic s) ! 0)) 0)) (\<lambda>_. True)"
    using r gic_accessors(5) [OF sh, of _ 0] by (cases "gic_running_irq (nv_gic s) ! 0 = 1023") (auto simp: u)
  show ?thesis
    using la nvic_isr_pending_ok [OF gi, of "[32..<nv_num_irq s]"] nvic_gic_test [OF gi] l g(5)
    by (simp add: nvic_icsr_def Let_def)
qed

lemma nvic_inv_readl:
  assumes "nvic_inv s st now" "0 < k" "systick_time now"
  shows "yields (nvic_readl k s now offset) (\<lambda>(_, u). nvic_inv u st now)"
proof -
  have tick: "systick_ok s now" using assms(1) by (simp add: nvic_inv_def)
  then have ctl: "nvic_inv (s\<lparr>nv_control := nv_control s AND NOT SYSTICK_COUNTFLAG\<rparr>) st now"
    using assms(1) by (simp add: nvic_inv_def systick_ok_def bit_and_iff bit_not_iff)
  have y: "yields (map_option (\<lambda>v. (v, s)) m) (\<lambda>(_, u). nvic_inv u st now)" if "yields m (\<lambda>_. True)" for m :: "u32 option"
    using that assms(1) by (auto simp: yields_def)
  have v: "yields (Some (w, s)) (\<lambda>(_, u). nvic_inv u st now)" for w :: u32 using assms(1) by simp
  show ?thesis
    unfolding nvic_readl_def
    by (intro yields_if v y systick_ok_current [OF tick assms(2,3)] nvic_icsr_ok [OF assms(1)]
        nvic_shcsr_ok [OF nvic_inv_gic [OF assms(1)]]) (simp only: yields_Some prod.case ctl)
qed

lemma nvic_inv_writel:
  assumes "nvic_inv s st t" "t \<le> now" "systick_clock k" "systick_time now" "offset = 0x14 \<Longrightarrow> v \<noteq> 0xffffffff"
  shows "yields (nvic_writel k s now offset v) (\<lambda>u. nvic_inv u st now)"
proof -
  have inv: "nvic_inv s st now" using nvic_inv_later [OF assms(1,2)] .
  have tick: "systick_ok s t" using assms(1) by (simp add: nvic_inv_def)
  have sys: "yields m (\<lambda>u. nvic_inv u st now)" if "yields m (\<lambda>u. systick_ok u now \<and> nv_same s u)" for m
    by (rule yields_mono [OF that]) (use nvic_inv_same [OF assms(1)] in blast)
  have val: "yields (do { s \<leftarrow> systick_reload k s now True;
      Some (s\<lparr>nv_control := nv_control s AND NOT SYSTICK_COUNTFLAG\<rparr>) }) (\<lambda>u. nvic_inv u st now)"
    unfolding yields_bind
    by (rule yields_mono [OF sys [OF systick_ok_restart [OF tick assms(3,4)]]])
      (simp add: nvic_inv_def systick_ok_def bit_and_iff bit_not_iff)
  have put: "yields (nvic_put_enabled v g e) (\<lambda>h. nvic_gic (nv_num_irq s + 32) h st)"
    if "nvic_gic (nv_num_irq s + 32) g st" "e \<in> set [(EXCP_MEM, 16), (EXCP_BUS, 17), (EXCP_USAGE, 18)]" for g e
    using that by (auto simp: nvic_put_enabled_def intro!: nvic_mod)
  have en: "yields (nv_with_gic s (exec_list (nvic_put_enabled v) (nv_gic s) [(EXCP_MEM, 16), (EXCP_BUS, 17), (EXCP_USAGE, 18)]))
      (\<lambda>u. nvic_inv u st now)"
    by (rule nvic_inv_with_gic [OF inv], rule yields_exec_list [OF put], assumption, assumption)
      (rule nvic_inv_gic [OF inv])
  have stir: "yields (nv_with_gic s (gic_set_pending_private (nv_gic s) 0 irq)) (\<lambda>u. nvic_inv u st now)"
    if "irq < nv_num_irq s" for irq
    by (rule nvic_inv_with_gic [OF inv], rule nvic_set_pending_private [OF nvic_inv_gic [OF inv]]) (use that in simp)
  have oth: "yields (Some s) (\<lambda>u. nvic_inv u st now)"
      "yields (Some (s\<lparr>nv_env := (nv_env s)\<lparr>env_vecbase := x\<rparr>\<rparr>)) (\<lambda>u. nvic_inv u st now)"
      "v \<noteq> 0xffffffff \<Longrightarrow> yields (Some (s\<lparr>nv_reload := v\<rparr>)) (\<lambda>u. nvic_inv u st now)" for x
    using inv by (simp_all add: nvic_inv_def systick_ok_def)
  show ?thesis
    unfolding nvic_writel_def
    by (intro yields_if)
      (simp_all only: oth assms(5) val en stir nvic_inv_write_icsr [OF inv]
        sys [OF systick_ok_control [OF tick assms(3,4,2)]] not_False_eq_True simp_thms)
qed

lemma nvic_shpr_read_ok:
  assumes "nvic_gic n g st" "irq + m \<le> GIC_INTERNAL"
  shows "yields (nvic_shpr_read g irq [0..<m]) (\<lambda>_. True)"
proof -
  have sh: "gic_shape g" using nvic_gic_facts(1) [OF assms(1)] by (simp add: gic_ok_def)
  have "yields (nvic_shpr_read g irq xs) (\<lambda>_. True)" if "\<forall>i\<in>set xs. irq + i < GIC_INTERNAL" for xs
    using that
  proof (induction xs)
    case (Cons i xs)
    then have i: "irq + i < GIC_MAXIRQ" by simp
    from gic_accessors(1) [OF sh i, of 0] Cons show ?case by simp
  qed simp
  from this [of "[0..<m]"] assms(2) show ?thesis by simp
qed

lemma nvic_inv_sysreg_read:
  assumes "nvic_inv s st now" "0 < k" "systick_time now" "m \<le> 4"
  shows "yields (nvic_sysreg_read k s now offset m) (\<lambda>(_, u). nvic_inv u st now)"
proof -
  have y: "yields (map_option (\<lambda>v. (f v, s)) r) (\<lambda>(_, u). nvic_inv u st now)" if "yields r (\<lambda>_. True)"
    for f :: "'x \<Rightarrow> u32" and r
    using that assms(1) by (auto simp: yields_def)
  have id: "yields (nth_opt nvic_id ((offset - 0xfe0) div 4)) (\<lambda>_. True)" if "offset \<le> 0xfff"
    using that by (auto simp: nth_opt_def nvic_id_def)
  have sh: "yields (nvic_shpr_read (nv_gic s) (offset - 0xd14) [0..<m]) (\<lambda>_. True)" if "offset \<le> 0xd23"
    using that assms(4) by (intro nvic_shpr_read_ok [OF nvic_inv_gic [OF assms(1)]]) simp
  have v: "yields (Some (0, s)) (\<lambda>(_::u32, u). nvic_inv u st now)" using assms(1) by simp
  show ?thesis
    unfolding nvic_sysreg_read_def
    by (intro yields_if v y nvic_inv_readl [OF assms(1-3)]) (use id sh in blast)+
qed

lemma nvic_inv_sysreg_write:
  assumes "nvic_inv s st t" "t \<le> now" "systick_clock k" "systick_time now" "m \<le> 4"
    and "offset = 0x14 \<Longrightarrow> ucast v \<noteq> (0xffffffff :: u32)"
    and "\<forall>i<m. 0xd18 \<le> offset \<and> offset \<le> 0xd23 \<longrightarrow> offset + i - 0xd14 \<notin> nvic_irq ` set st"
  shows "yields (nvic_sysreg_write k s now offset v m) (\<lambda>u. nvic_inv u st now)"
proof -
  have inv: "nvic_inv s st now" using nvic_inv_later [OF assms(1,2)] .
  have put: "yields (nvic_shpr_put (offset - 0xd14) v g i) (\<lambda>h. nvic_gic (nv_num_irq s + 32) h st)"
    if "0xd18 \<le> offset \<and> offset \<le> 0xd23" "nvic_gic (nv_num_irq s + 32) g st" "i \<in> set [0..<m]" for g i
  proof -
    have "i < m" using that(3) by simp
    then have "offset - 0xd14 + i \<notin> nvic_irq ` set st" "offset - 0xd14 + i < GIC_MAXIRQ"
      using assms(5,7) that(1) by (auto simp: Nat.add_diff_assoc2)
    then show ?thesis unfolding nvic_shpr_put_def by (intro nvic_put_priority [OF that(2)])
  qed
  have "yields (nv_with_gic s (do { g \<leftarrow> exec_list (nvic_shpr_put (offset - 0xd14) v) (nv_gic s) [0..<m]; gic_update g }))
      (\<lambda>u. nvic_inv u st now)" if "0xd18 \<le> offset \<and> offset \<le> 0xd23"
    by (rule nvic_inv_with_gic [OF inv], unfold yields_bind, rule yields_mono [OF yields_exec_list [OF put [OF that]]],
        assumption, assumption, rule nvic_inv_gic [OF inv], rule nvic_update)
  then show ?thesis
    unfolding nvic_sysreg_write_def
    by (intro yields_if nvic_inv_writel [OF assms(1-4,6)]) (use inv in auto)
qed

subsection \<open>The whole region and the timers\<close>

definition nvic_inactive :: "nat list \<Rightarrow> nat \<Rightarrow> bool" where
  "nvic_inactive st a \<longleftrightarrow> (0x400 \<le> a \<and> a < 0x800 \<longrightarrow> a - 0x400 + 16 \<notin> set st) \<and>
     (0xd18 \<le> a \<and> a \<le> 0xd23 \<longrightarrow> a - 0xd14 \<notin> set st)"

definition nvic_access :: "nat \<Rightarrow> nat \<Rightarrow> bool" where
  "nvic_access a m \<longleftrightarrow> a < 0x1000 \<and> m \<in> {1, 2, 4} \<and> a mod m = 0"

lemma nvic_dist_write:
  assumes "nvic_gic n g st" "0x100 \<le> a" "a < 0xd00" "m \<in> {1, 2, 4}" "\<forall>i<m. nvic_inactive st (a + i)"
  shows "yields ((if m = 1 then gic_dist_writeb else if m = 2 then gic_dist_writew else gic_dist_writel) g 0 a v)
    (\<lambda>h. nvic_gic n h st)"
proof (rule gic_dist_write_wide [where P = "\<lambda>h. nvic_gic n h st", OF _ assms(1,4)])
  show "yields (gic_dist_writeb h 0 (a + i) w) (\<lambda>h. nvic_gic n h st)" if "nvic_gic n h st" "i < m" for h i w
    using nvic_dist_writeb [OF that(1), of "a + i"] assms(2,5) that(2) by (auto simp: nvic_inactive_def)
qed (use assms(3) in simp)

lemma nvic_dist_read:
  assumes "nvic_gic n g st" "a + m \<le> 0x1000" "m \<in> {1, 2, 4}"
  shows "yields ((if m = 1 then gic_dist_readb else if m = 2 then gic_dist_readw else gic_dist_readl) g 0 a) (\<lambda>_. True)"
  using gic_dist_readb_ok [of g 0] nvic_gic_facts [OF assms(1)] by (intro gic_dist_read_wide assms(2,3)) auto

lemma nvic_inv_read:
  assumes "nvic_inv s st now" "0 < k" "systick_time now" "nvic_access a m"
  shows "yields (nvic_read k s now a m) (\<lambda>(_, u). nvic_inv u st now)"
proof (cases "0x100 \<le> a \<and> a < 0xd00")
  case True
  have "a + m \<le> 0x1000" "m \<in> {1, 2, 4}" using True assms(4) by (auto simp: nvic_access_def)
  from nvic_dist_read [OF nvic_inv_gic [OF assms(1)] this] show ?thesis
    using True assms(1) by (auto simp: nvic_read_def yields_def)
next
  case False
  have "m \<le> 4" using assms(4) by (auto simp: nvic_access_def)
  from nvic_inv_sysreg_read [OF assms(1-3) this] show ?thesis unfolding nvic_read_def if_not_P [OF False] .
qed

lemma nvic_inv_write:
  assumes "nvic_inv s st t" "t \<le> now" "systick_clock k" "systick_time now" "nvic_access a m"
    and "a = 0x14 \<Longrightarrow> ucast v \<noteq> (0xffffffff :: u32)" "\<forall>i<m. nvic_inactive st (a + i)"
  shows "yields (nvic_write k s now a v m) (\<lambda>u. nvic_inv u st now)"
proof (cases "0x100 \<le> a \<and> a < 0xd00")
  case True
  have inv: "nvic_inv s st now" using nvic_inv_later [OF assms(1,2)] .
  have "m \<in> {1, 2, 4}" using assms(5) by (simp add: nvic_access_def)
  with True show ?thesis
    unfolding nvic_write_def if_P [OF True]
    by (intro nvic_inv_with_gic [OF inv] nvic_dist_write [OF nvic_inv_gic [OF inv]] assms(7)) auto
next
  case False
  have m: "m \<le> 4" using assms(5) by (auto simp: nvic_access_def)
  have "a + i - 0xd14 \<notin> nvic_irq ` set st" if "i < m" "0xd18 \<le> a" "a \<le> 0xd23" for i
  proof -
    have "a + i \<le> 0xd23" using that assms(5) unfolding nvic_access_def by (auto; presburger)
    then have "a + i - 0xd14 \<notin> set st" "a + i - 0xd14 < 16" using assms(7) that by (auto simp: nvic_inactive_def)
    then show ?thesis by (auto simp: nvic_irq_def split: if_splits)
  qed
  then show ?thesis unfolding nvic_write_def if_not_P [OF False]
    by (intro nvic_inv_sysreg_write [OF assms(1-4) m assms(6)]) auto
qed

lemma first_multiple_after:
  fixes p :: int
  assumes "0 < p"
  shows "now < a + ((now - a) div p + 1) * p" "a + ((now - a) div p + 1) * p \<le> now + p"
proof -
  have "now - a = (now - a) div p * p + (now - a) mod p" "0 \<le> (now - a) mod p" "(now - a) mod p < p"
    using assms by simp_all
  then show "now < a + ((now - a) div p + 1) * p" "a + ((now - a) div p + 1) * p \<le> now + p"
    unfolding distrib_right by linarith+
qed

lemma nvic_inv_signal:
  assumes "nvic_inv s st t"
  shows "yields (systick_signal s) (\<lambda>g. nvic_gic (nv_num_irq s + 32) g st)"
  using nvic_set_pending_private [OF nvic_inv_gic [OF assms], of EXCP_SYSTICK] nvic_inv_gic [OF assms]
  by (simp add: systick_signal_def)

lemma nvic_inv_expired:
  assumes "nvic_inv s st t" "nvic_gic (nv_num_irq s + 32) g st" "0 \<le> x" "x \<le> 2 ^ 61 + 2 ^ 52" "systick_time now"
  shows "nvic_inv (systick_expired s g x) st now"
  using assms by (simp add: nvic_inv_def systick_ok_def systick_expired_def systick_time_def)

lemma nvic_inv_timers:
  assumes "nvic_inv s st t" "t \<le> now" "systick_clock k" "0 < k" "systick_time now"
  shows "yields (nvic_run_timers k now s) (\<lambda>u. nvic_inv u st now)"
proof -
  have inv: "nvic_inv s st now" using nvic_inv_later [OF assms(1,2)] .
  then have tick: "systick_ok s now" and ok: "gic_ok (nv_gic s)"
    using nvic_gic_facts(1) [OF nvic_inv_gic [OF inv]] by (simp_all add: nvic_inv_def)
  have r: "nv_reload s \<noteq> 0xffffffff" "0 \<le> nv_tick s" using tick by (simp_all add: systick_ok_def)
  have now: "0 \<le> now" "now < 2 ^ 61" using assms(5) by (simp_all add: systick_time_def)
  from nvic_inv_signal [OF inv] obtain g where g: "systick_signal s = Some g" "nvic_gic (nv_num_irq s + 32) g st"
    by (auto simp: yields_def)
  consider "nv_timers s = []" | "nv_timers s = [(SYSTICK_TIMER, nv_tick s)]" "now < nv_tick s"
    | "nv_timers s = [(SYSTICK_TIMER, nv_tick s)]" "nv_tick s \<le> now" "nv_reload s = 0"
    | "nv_timers s = [(SYSTICK_TIMER, nv_tick s)]" "nv_tick s \<le> now" "nv_reload s \<noteq> 0"
    using tick unfolding systick_ok_def by linarith
  then show ?thesis
  proof cases
    case 1
    then show ?thesis using inv by (simp add: nvic_run_timers_def qemu_run_timers_def qemu_run_loop.simps)
  next
    case 2
    from systick_loop_stops [OF this] inv show ?thesis by simp
  next
    case 3
    let ?c = "(nv_control s OR SYSTICK_COUNTFLAG) AND NOT 1"
    let ?u = "s\<lparr>nv_gic := g, nv_control := ?c, nv_timers := []\<rparr>"
    have "systick_timer_tick k now (s\<lparr>nv_timers := []\<rparr>) = Some ?u"
      using systick_tick_once [of "s\<lparr>nv_timers := []\<rparr>" g k now] 3(3) g(1) by (simp add: systick_timers_frame)
    then have "nvic_run_timers k now s = Some ?u"
      unfolding nvic_run_timers_def qemu_run_timers_def
      by (subst qemu_run_loop.simps) (use 3 in \<open>simp add: qemu_run_loop.simps\<close>)
    moreover have "\<not> bit ?c 0" by (simp add: bit_and_iff bit_not_iff)
    ultimately show ?thesis using 3 g(2) r now by (simp add: nvic_inv_def systick_ok_def)
  next
    case 4
    let ?p = "systick_period k s"
    let ?x = "nv_tick s + ((now - nv_tick s) div ?p + 1) * ?p"
    have "?p \<noteq> 0" unfolding systick_period_zero using r(1) assms(4) by simp
    then have p: "0 < ?p" "?p < 2 ^ 52"
      using systick_period_bounds(3,4) [OF assms(3), of s] by linarith+
    have run: "nvic_run_timers k now s = Some (systick_expired s g ?x)"
      using systick_expiry [OF ok 4(1) r(2) 4(2) assms(3,5) 4(3)] r(1) assms(4) g(1) by simp
    have "0 \<le> ?x" "?x \<le> 2 ^ 61 + 2 ^ 52"
      using first_multiple_after [OF p(1), where a = "nv_tick s" and now = now] p(2) now by linarith+
    from nvic_inv_expired [OF inv g(2) this assms(5)] run show ?thesis by simp
  qed
qed

subsection \<open>The machine\<close>

datatype nvic_event =
    NvRead nat nat
  | NvWrite nat u64 nat
  | NvLine nat bool
  | NvRaise nat
  | NvEnter
  | NvReturn nat
  | NvTimers

datatype nvic_out = NvNone | NvValue u32 | NvVector nvic_vector

fun nvic_event_step :: "int \<Rightarrow> nvic_state \<Rightarrow> int \<times> nvic_event \<Rightarrow> (nvic_out \<times> nvic_state) option" where
  "nvic_event_step k s (now, NvRead a m) = map_option (\<lambda>(v, u). (NvValue v, u)) (nvic_read k s now a m)"
| "nvic_event_step k s (now, NvWrite a v m) = map_option (Pair NvNone) (nvic_write k s now a v m)"
| "nvic_event_step k s (now, NvLine n level) = map_option (Pair NvNone) (nv_with_gic s (gic_set_irq (nv_gic s) n level))"
| "nvic_event_step k s (now, NvRaise irq) = map_option (Pair NvNone) (armv7m_nvic_set_pending s irq)"
| "nvic_event_step k s (now, NvEnter) = map_option (\<lambda>(v, u). (NvVector v, u)) (armv7m_nvic_acknowledge_irq s)"
| "nvic_event_step k s (now, NvReturn irq) = map_option (Pair NvNone) (armv7m_nvic_complete_irq s irq)"
| "nvic_event_step k s (now, NvTimers) = map_option (Pair NvNone) (nvic_run_timers k now s)"

fun nvic_stack_step :: "nat list \<times> int \<Rightarrow> int \<times> nvic_event \<Rightarrow> nvic_out \<Rightarrow> nat list \<times> int" where
  "nvic_stack_step (st, t) (now, NvEnter) out = ((case out of NvVector (Vector v) \<Rightarrow> v # st | _ \<Rightarrow> st), now)"
| "nvic_stack_step (st, t) (now, NvReturn irq) out = (remove1 irq st, now)"
| "nvic_stack_step (st, t) (now, _) out = (st, now)"

fun nvic_event_ok :: "int \<Rightarrow> nvic_state \<Rightarrow> nat list \<times> int \<Rightarrow> int \<times> nvic_event \<Rightarrow> bool" where
  "nvic_event_ok k s (st, t) (now, e) \<longleftrightarrow> systick_clock k \<and> 0 < k \<and> systick_time now \<and> t \<le> now \<and>
     (case e of
        NvRead a m \<Rightarrow> nvic_access a m
      | NvWrite a v m \<Rightarrow> nvic_access a m \<and> \<not> (a = 0x14 \<and> ucast v = (0xffffffff :: u32)) \<and> (\<forall>i<m. nvic_inactive st (a + i))
      | NvLine n level \<Rightarrow> n < nv_num_irq s
      | NvRaise irq \<Rightarrow> irq < nv_num_irq s + 16
      | _ \<Rightarrow> True)"

definition nvic_rel :: "nvic_state \<Rightarrow> nat list \<times> int \<Rightarrow> bool" where
  "nvic_rel s a \<longleftrightarrow> nvic_inv s (fst a) (snd a)"

lemma nvic_event_sim:
  assumes "nvic_rel s a" "nvic_event_ok k s a e"
  shows "yields (nvic_event_step k s e) (\<lambda>(out, u). nvic_rel u (nvic_stack_step a e out))"
proof -
  obtain st t now ev where ae: "a = (st, t)" "e = (now, ev)" by (cases a, cases e)
  have i: "nvic_inv s st t" and g: "systick_clock k" "0 < k" "systick_time now" "t \<le> now"
    using assms by (simp_all add: ae nvic_rel_def)
  note inv = nvic_inv_later [OF i g(4)] and gi = nvic_inv_gic [OF nvic_inv_later [OF i g(4)]]
  show ?thesis
  proof (cases ev)
    case (NvRead x m)
    then have "nvic_access x m" using assms(2) by (simp add: ae)
    from nvic_inv_read [OF inv g(2,3) this] show ?thesis
      by (auto simp: ae NvRead nvic_rel_def yields_def)
  next
    case (NvWrite x v m)
    then have "nvic_access x m" "x = 0x14 \<Longrightarrow> ucast v \<noteq> (0xffffffff :: u32)" "\<forall>i<m. nvic_inactive st (x + i)"
      using assms(2) by (auto simp: ae)
    from nvic_inv_write [OF i g(4,1,3) this] show ?thesis by (simp add: ae NvWrite nvic_rel_def)
  next
    case (NvLine n level)
    then have "n < nv_num_irq s + 32 - 32" using assms(2) by (simp add: ae)
    from nvic_inv_with_gic [OF inv nvic_set_line [OF gi this]] show ?thesis by (simp add: ae NvLine nvic_rel_def)
  next
    case (NvRaise irq)
    with assms(2) nvic_inv_set_pending [OF inv] show ?thesis by (simp add: ae nvic_rel_def)
  next
    case NvEnter
    from nvic_acknowledge [OF gi] obtain irq h where h: "gic_acknowledge_irq (nv_gic s) 0 = Some (irq, h)"
        "nvic_gic (nv_num_irq s + 32) h (if irq = NO_IRQ then st else (if 32 \<le> irq then irq - 16 else irq) # st)"
      by (auto simp: yields_def)
    from nvic_inv_put_gic [OF inv h(2)] h(1) show ?thesis
      by (cases "irq = NO_IRQ") (simp_all add: ae NvEnter nvic_rel_def armv7m_nvic_acknowledge_irq_def Let_def)
  next
    case (NvReturn irq)
    from nvic_inv_with_gic [OF inv nvic_complete [OF gi, of irq]] show ?thesis
      by (simp add: ae NvReturn nvic_rel_def armv7m_nvic_complete_irq_def nvic_irq_def)
  next
    case NvTimers
    from nvic_inv_timers [OF i g(4,1,2,3)] show ?thesis by (simp add: ae NvTimers nvic_rel_def)
  qed
qed

interpretation nvicsim: simulation "nvic_event_step k" nvic_stack_step "nvic_event_ok k" nvic_rel for k
  by unfold_locales (rule nvic_event_sim)

lemma nvic_reset_inv:
  assumes "do { s \<leftarrow> armv7m_nvic_realize n cpuid; armv7m_nvic_reset s } = Some s"
  shows "nvic_inv s [] 0"
proof -
  from assms obtain r where r: "arm_gic_common_realize (gic_zero 1 n REV_NVIC) = Some r"
      and reset: "armv7m_nvic_reset \<lparr>nv_gic = r, nv_control = 0, nv_reload = 0, nv_tick = 0, nv_timers = [], nv_num_irq = n,
         nv_env = \<lparr>env_vecbase = 0, env_cpuid = cpuid\<rparr>\<rparr> = Some s"
    by (auto simp: armv7m_nvic_realize_def split: bind_splits)
  let ?g = "arm_gic_common_reset r"
  have st: "gic_stacks ?g (\<lambda>_. [])" using gic_reset_stacks(1) [OF r] by simp
  then have ok: "gic_ok ?g" by (simp add: gic_stacks_def)
  have rz: "r = gic_zero 1 n REV_NVIC\<lparr>gic_num_irq := n + 32\<rparr>"
    using r by (auto simp: arm_gic_common_realize_def gic_zero_def GIC_BASE_IRQ_def Let_def split: if_splits)
  let ?ce = "(gic_cpu_enabled ?g)[0 := True]" and ?pm = "(gic_priority_mask ?g)[0 := 0x100]"
  let ?h = "?g\<lparr>gic_cpu_enabled := ?ce, gic_priority_mask := ?pm, gic_enabled := True\<rparr>"
  have len: "length (gic_cpu_enabled ?g) = NCPU" "length (gic_priority_mask ?g) = NCPU"
    using ok by (simp_all add: gic_ok_def gic_shape_def)
  have s: "nv_gic s = ?h" "nv_num_irq s = n" "systick_ok s 0"
    using reset len by (auto simp: armv7m_nvic_reset_def systick_reset_def systick_ok_def Let_def)
  have "\<forall>c<NCPU. unat (?pm ! c) \<le> 0x100" using ok len by (auto simp: gic_ok_def nth_list_update)
  then have "gic_keeps ?g ?h" using ok len by (simp add: gic_keeps_def gic_ok_def gic_shape_def)
  from gic_keeps_stacks [OF this st] have "gic_stacks ?h (\<lambda>_. [])" .
  moreover have "gic_quiet ?h"
    using ok by (auto simp: gic_quiet_def gic_ok_def gic_shape_def rz arm_gic_common_reset_def gic_zero_def set_upto_def
        nth_append Let_def)
  ultimately show ?thesis
    using s by (simp add: nvic_inv_def nvic_gic_def) (simp add: rz arm_gic_common_reset_def gic_zero_def Let_def)
qed

lemma take_bit_or_if: "take_bit n (or_if c m x) = or_if c (take_bit n m) (take_bit n x)"
  by (simp add: or_if_def take_bit_or)

lemma or_if_zero [simp]: "or_if c 0 x = x"
  by (simp add: or_if_def)

text \<open>The low bits of the interrupt control state register are the vector of the running exception.\<close>

lemma nvic_icsr_vectactive:
  assumes "nvic_inv s st t" "nvic_icsr s = Some w"
  shows "unat (take_bit 11 w) = (case st of [] \<Rightarrow> 0 | v # _ \<Rightarrow> v)"
proof -
  note gi = nvic_inv_gic [OF assms(1)]
  note g = nvic_gic_facts [OF gi]
  define r where r: "r = gic_running_irq (nv_gic s) ! 0"
  have rl: "nth_opt (gic_running_irq (nv_gic s)) 0 = Some r" using g(1) by (simp add: r gic_ok_def gic_shape_def)
  have low: "take_bit 11 w = take_bit 11 (if r = 1023 then 0 else if 32 \<le> r then ucast r - 16 else ucast r :: u32)"
    using assms(2) rl
    by (auto simp: nvic_icsr_def Let_def take_bit_or_if take_bit_push_bit split: bind_splits)
  have u: "unat r = (case st of [] \<Rightarrow> NO_IRQ | v # _ \<Rightarrow> nvic_irq v)" "\<forall>v\<in>set st. nvic_irq v < GIC_MAXIRQ"
    using g(8,3,5) by (auto simp: gic_chain_def r split: list.splits)
  show ?thesis
  proof (cases st)
    case Nil
    then have "r = 1023" using u(1) by (simp add: word_unat_eq_iff)
    then show ?thesis using low Nil by simp
  next
    case (Cons v vs)
    then have "unat r = nvic_irq v" "nvic_irq v < GIC_MAXIRQ" using u by simp_all
    then have r1: "r \<noteq> 1023" and ur: "unat (ucast r :: u32) = nvic_irq v" by (auto simp: unat_ucast_up)
    have "32 \<le> r \<longleftrightarrow> 16 \<le> v" using \<open>unat r = nvic_irq v\<close> by (auto simp: word_le_nat_alt nvic_irq_def split: if_splits)
    moreover have "unat (ucast r - 16 :: u32) = nvic_irq v - 16" if "16 \<le> v"
      using ur that by (subst unat_sub) (simp_all add: word_le_nat_alt nvic_irq_def)
    ultimately have "unat (if r = 1023 then 0 else if 32 \<le> r then ucast r - 16 else ucast r :: u32) = v"
      using r1 ur by (auto simp: nvic_irq_def)
    moreover have "v < 2 ^ 11" using \<open>nvic_irq v < GIC_MAXIRQ\<close> by (auto simp: nvic_irq_def split: if_splits)
    ultimately show ?thesis using low Cons by (simp add: unsigned_take_bit_eq take_bit_nat_eq_self)
  qed
qed

text \<open>C4: exceptions nest. From the reset of a controller with any number of external interrupts that realizes, with a
  core clock that runs, along every sequence of guest accesses of one, two or four bytes to the whole region, of line
  changes, exceptions raised by the CPU, entries, returns and runs of the timers at increasing times, every operation
  ends, stays within its arrays and within 64 bits, provided that no access changes the priority of an active exception
  or stores the reload value \<open>2^32 - 1\<close>. Following the reported vectors, an entry pushes the vector it reports, a
  return removes the vector it names, nothing else changes the stack; the stack is strictly ordered by priority and
  the active field of the interrupt control state register is its top.\<close>

theorem nvic_exceptions_nest:
  assumes "do { s \<leftarrow> armv7m_nvic_realize n cpuid; armv7m_nvic_reset s } = Some s"
    and "io_guarded (nvic_event_step k) nvic_stack_step (nvic_event_ok k) s ([], 0) es"
  shows "\<exists>outs u w. io_run (nvic_event_step k) s es = Some (outs, u) \<and> nvic_icsr u = Some w \<and>
    (let st = fst (follow nvic_stack_step ([], 0) es outs) in
       sorted_wrt (<) (map (\<lambda>v. gic_prio (nv_gic u) 0 (nvic_irq v)) st) \<and>
       unat (take_bit 11 w) = (case st of [] \<Rightarrow> 0 | v # _ \<Rightarrow> v))"
proof -
  have "nvic_rel s ([], 0)" using nvic_reset_inv [OF assms(1)] by (simp add: nvic_rel_def)
  from nvicsim.run_sim [OF this assms(2)] obtain outs u where
    run: "io_run (nvic_event_step k) s es = Some (outs, u)" and "nvic_rel u (follow nvic_stack_step ([], 0) es outs)" by blast
  then have inv: "nvic_inv u (fst (follow nvic_stack_step ([], 0) es outs)) (snd (follow nvic_stack_step ([], 0) es outs))"
    by (simp add: nvic_rel_def)
  from nvic_icsr_ok [OF inv] obtain w where w: "nvic_icsr u = Some w" by (auto simp: yields_def)
  show ?thesis
    using run w nvic_icsr_vectactive [OF inv w] nvic_gic_facts(8) [OF nvic_inv_gic [OF inv]]
    by (auto simp: gic_chain_def Let_def sorted_wrt_map comp_def)
qed

text \<open>Events that are admitted in every state.\<close>

fun nvic_event_free :: "int \<times> nvic_event \<Rightarrow> bool" where
  "nvic_event_free (now, NvRead a m) \<longleftrightarrow> systick_time now \<and> nvic_access a m"
| "nvic_event_free (now, NvWrite a v m) \<longleftrightarrow> systick_time now \<and> nvic_access a m \<and> a \<noteq> 0x14 \<and> a + m \<le> 0x400"
| "nvic_event_free (now, NvLine n level) \<longleftrightarrow> False"
| "nvic_event_free (now, NvRaise irq) \<longleftrightarrow> systick_time now \<and> irq < 16"
| "nvic_event_free (now, _) \<longleftrightarrow> systick_time now"

lemma nvic_free_guarded:
  assumes "systick_clock k" "0 < k"
  shows "nvic_rel s a \<Longrightarrow> sorted (snd a # map fst es) \<Longrightarrow> \<forall>e\<in>set es. nvic_event_free e \<Longrightarrow>
    io_guarded (nvic_event_step k) nvic_stack_step (nvic_event_ok k) s a es"
proof (induction es arbitrary: s a)
  case (Cons e es)
  obtain st t now ev where ae: "a = (st, t)" "e = (now, ev)" by (cases a, cases e)
  have ok: "nvic_event_ok k s a e"
    using Cons.prems(2,3) assms by (cases ev) (auto simp: ae nvic_inactive_def)
  from nvic_event_sim [OF Cons.prems(1) ok] obtain out u where
    u: "nvic_event_step k s e = Some (out, u)" "nvic_rel u (nvic_stack_step a e out)" by (auto simp: yields_def)
  have "snd (nvic_stack_step a e out) = now" by (cases ev) (simp_all add: ae)
  then have "io_guarded (nvic_event_step k) nvic_stack_step (nvic_event_ok k) u (nvic_stack_step a e out) es"
    using Cons.prems(2,3) by (intro Cons.IH [OF u(2)]) (auto simp: ae)
  with ok u(1) show ?case by simp
qed simp

definition nvic_demo :: "(int \<times> nvic_event) list" where
  "nvic_demo = [(10, NvWrite 0x100 1 4), (20, NvEnter), (25, NvRaise 3), (30, NvRead 0xd04 4), (35, NvEnter),
     (40, NvReturn 3), (50, NvTimers), (60, NvReturn 16)]"

theorem nvic_exceptions_nest_witness:
  "\<exists>outs u w. io_run (nvic_event_step 10) nvic_board ((0, NvLine 0 True) # nvic_demo) = Some (outs, u) \<and> nvic_icsr u = Some w \<and>
    (let st = fst (follow nvic_stack_step ([], 0) ((0, NvLine 0 True) # nvic_demo) outs) in
       sorted_wrt (<) (map (\<lambda>v. gic_prio (nv_gic u) 0 (nvic_irq v)) st) \<and>
       unat (take_bit 11 w) = (case st of [] \<Rightarrow> 0 | v # _ \<Rightarrow> v))"
proof -
  have rel: "nvic_rel nvic_board ([], 0)" using nvic_reset_inv [OF nvic_board_reset] by (simp add: nvic_rel_def)
  have k: "systick_clock 10" "0 < (10::int)" by (simp_all add: systick_clock_def)
  have ok: "nvic_event_ok 10 nvic_board ([], 0) (0, NvLine 0 True)"
    using k by (simp add: systick_time_def) (simp add: nvic_board_def)
  from nvic_event_sim [OF rel ok] obtain out u where
    u: "nvic_event_step 10 nvic_board (0, NvLine 0 True) = Some (out, u)" "nvic_rel u ([], 0)"
    by (auto simp: yields_def)
  have "io_guarded (nvic_event_step 10) nvic_stack_step (nvic_event_ok 10) u ([], 0) nvic_demo"
    by (rule nvic_free_guarded [OF k u(2)]) (simp_all add: nvic_demo_def systick_time_def nvic_access_def)
  then have "io_guarded (nvic_event_step 10) nvic_stack_step (nvic_event_ok 10) nvic_board ([], 0) ((0, NvLine 0 True) # nvic_demo)"
    using ok u(1) by simp
  from nvic_exceptions_nest [OF nvic_board_reset this] show ?thesis .
qed

end
