(* ===== verification/Bitmap.thy ===== *)
theory Bitmap
  imports HostUtils
begin

text \<open>
  Bit operations and bitmaps: \<^verbatim>\<open>include/qemu/bitops.h\<close>, \<^verbatim>\<open>util/bitops.c\<close>,
  \<^verbatim>\<open>include/qemu/bitmap.h\<close> and \<^verbatim>\<open>util/bitmap.c\<close> on a host with 64-bit \<open>unsigned long\<close>.

  A bitmap is the list of its words; an access beyond the last word is \<open>None\<close>. Bit numbers and sizes are
  natural numbers, which is what an \<open>unsigned long\<close> or a non-negative \<open>int\<close> holds as long as no sum leaves the
  type. Where a sum can leave it the type is written out: \<open>bitmap_set\<close> and \<open>bitmap_clear\<close> take \<open>int\<close> arguments,
  convert them to \<open>unsigned long\<close> where the code does, and are \<open>None\<close> where \<open>int\<close> arithmetic overflows;
  \<open>bitmap_find_next_zero_area\<close> computes the end of an area modulo \<open>2\<^sup>6\<^sup>4\<close>. \<open>bm_bit\<close> is the abstract bitmap, a set
  of bit numbers, and the lemmas say that the word-wise routines are the obvious bit-wise ones.
\<close>

abbreviation BITS_PER_LONG :: nat where "BITS_PER_LONG \<equiv> 64"

definition BIT_MASK :: "nat \<Rightarrow> u64" where
  "BIT_MASK nr = push_bit (nr mod BITS_PER_LONG) 1"

definition BIT_WORD :: "nat \<Rightarrow> nat" where
  "BIT_WORD nr = nr div BITS_PER_LONG"

definition BITS_TO_LONGS :: "nat \<Rightarrow> nat" where
  "BITS_TO_LONGS nr = (nr + (BITS_PER_LONG - 1)) div BITS_PER_LONG"

definition bm_bit :: "u64 list \<Rightarrow> nat \<Rightarrow> bool" where
  "bm_bit m i \<longleftrightarrow> bit (m ! (i div BITS_PER_LONG)) (i mod BITS_PER_LONG)"

subsection \<open>Single bits\<close>

definition set_bit_map :: "nat \<Rightarrow> u64 list \<Rightarrow> u64 list option" where
  "set_bit_map nr addr = do { w \<leftarrow> nth_opt addr (BIT_WORD nr); set_opt addr (BIT_WORD nr) (w OR BIT_MASK nr) }"

definition clear_bit_map :: "nat \<Rightarrow> u64 list \<Rightarrow> u64 list option" where
  "clear_bit_map nr addr = do { w \<leftarrow> nth_opt addr (BIT_WORD nr); set_opt addr (BIT_WORD nr) (w AND NOT (BIT_MASK nr)) }"

definition change_bit :: "nat \<Rightarrow> u64 list \<Rightarrow> u64 list option" where
  "change_bit nr addr = do { w \<leftarrow> nth_opt addr (BIT_WORD nr); set_opt addr (BIT_WORD nr) (w XOR BIT_MASK nr) }"

definition test_and_set_bit :: "nat \<Rightarrow> u64 list \<Rightarrow> (bool \<times> u64 list) option" where
  "test_and_set_bit nr addr =
    do { old \<leftarrow> nth_opt addr (BIT_WORD nr);
         m \<leftarrow> set_opt addr (BIT_WORD nr) (old OR BIT_MASK nr);
         Some (old AND BIT_MASK nr \<noteq> 0, m) }"

definition test_and_clear_bit :: "nat \<Rightarrow> u64 list \<Rightarrow> (bool \<times> u64 list) option" where
  "test_and_clear_bit nr addr =
    do { old \<leftarrow> nth_opt addr (BIT_WORD nr);
         m \<leftarrow> set_opt addr (BIT_WORD nr) (old AND NOT (BIT_MASK nr));
         Some (old AND BIT_MASK nr \<noteq> 0, m) }"

definition test_and_change_bit :: "nat \<Rightarrow> u64 list \<Rightarrow> (bool \<times> u64 list) option" where
  "test_and_change_bit nr addr =
    do { old \<leftarrow> nth_opt addr (BIT_WORD nr);
         m \<leftarrow> set_opt addr (BIT_WORD nr) (old XOR BIT_MASK nr);
         Some (old AND BIT_MASK nr \<noteq> 0, m) }"

definition test_bit :: "nat \<Rightarrow> u64 list \<Rightarrow> bool option" where
  "test_bit nr addr =
    do { w \<leftarrow> nth_opt addr (BIT_WORD nr); Some (1 AND drop_bit (nr mod BITS_PER_LONG) w \<noteq> 0) }"

subsection \<open>Searching\<close>

definition found_middle :: "nat \<Rightarrow> u64 \<Rightarrow> nat" where
  "found_middle result tmp = result + ctz64 tmp"

definition found_first :: "nat \<Rightarrow> nat \<Rightarrow> u64 \<Rightarrow> nat" where
  "found_first result sz tmp =
    (let tmp = tmp AND drop_bit (BITS_PER_LONG - sz) (NOT 0)
     in if tmp = 0 then result + sz else found_middle result tmp)"

function next_bit_words :: "u64 list \<Rightarrow> nat \<Rightarrow> nat \<Rightarrow> nat \<Rightarrow> nat option" where
  "next_bit_words addr p sz result =
    (if sz \<ge> BITS_PER_LONG then
       do { tmp \<leftarrow> nth_opt addr p;
            if tmp \<noteq> 0 then Some (found_middle result tmp)
            else next_bit_words addr (p + 1) (sz - BITS_PER_LONG) (result + BITS_PER_LONG) }
     else if sz = 0 then Some result
     else do { tmp \<leftarrow> nth_opt addr p; Some (found_first result sz tmp) })"
  by pat_completeness auto
termination by (relation "measure (\<lambda>(addr, p, sz, result). sz)") auto

function next_bit_quads :: "u64 list \<Rightarrow> nat \<Rightarrow> nat \<Rightarrow> nat \<Rightarrow> nat option" where
  "next_bit_quads addr p sz result =
    (if sz \<ge> 4 * BITS_PER_LONG then
       do { tmp \<leftarrow> nth_opt addr p; d1 \<leftarrow> nth_opt addr (p + 1);
            d2 \<leftarrow> nth_opt addr (p + 2); d3 \<leftarrow> nth_opt addr (p + 3);
            if tmp \<noteq> 0 then Some (found_middle result tmp)
            else if d1 OR d2 OR d3 \<noteq> 0 then next_bit_words addr p sz result
            else next_bit_quads addr (p + 4) (sz - 4 * BITS_PER_LONG) (result + 4 * BITS_PER_LONG) }
     else next_bit_words addr p sz result)"
  by pat_completeness auto
termination by (relation "measure (\<lambda>(addr, p, sz, result). sz)") auto

declare next_bit_words.simps [simp del] next_bit_quads.simps [simp del]

definition find_next_bit :: "u64 list \<Rightarrow> nat \<Rightarrow> nat \<Rightarrow> nat option" where
  "find_next_bit addr sz offset =
    (let p = offset div BITS_PER_LONG; result = offset - offset mod BITS_PER_LONG in
     if offset \<ge> sz then Some sz
     else let sz = sz - result; offset = offset mod BITS_PER_LONG in
       if offset \<noteq> 0 then
         do { tmp \<leftarrow> nth_opt addr p;
              let tmp = tmp AND push_bit offset (NOT 0);
              if sz < BITS_PER_LONG then Some (found_first result sz tmp)
              else if tmp \<noteq> 0 then Some (found_middle result tmp)
              else next_bit_quads addr (p + 1) (sz - BITS_PER_LONG) (result + BITS_PER_LONG) }
       else next_bit_quads addr p sz result)"

definition found_zero_middle :: "nat \<Rightarrow> u64 \<Rightarrow> nat" where
  "found_zero_middle result tmp = result + ctz64 (NOT tmp)"

definition found_zero_first :: "nat \<Rightarrow> nat \<Rightarrow> u64 \<Rightarrow> nat" where
  "found_zero_first result sz tmp =
    (let tmp = tmp OR push_bit sz (NOT 0)
     in if tmp = NOT 0 then result + sz else found_zero_middle result tmp)"

function next_zero_words :: "u64 list \<Rightarrow> nat \<Rightarrow> nat \<Rightarrow> nat \<Rightarrow> nat option" where
  "next_zero_words addr p sz result =
    (if sz - sz mod BITS_PER_LONG \<noteq> 0 then
       do { tmp \<leftarrow> nth_opt addr p;
            if NOT tmp \<noteq> 0 then Some (found_zero_middle result tmp)
            else next_zero_words addr (p + 1) (sz - BITS_PER_LONG) (result + BITS_PER_LONG) }
     else if sz = 0 then Some result
     else do { tmp \<leftarrow> nth_opt addr p; Some (found_zero_first result sz tmp) })"
  by pat_completeness auto
termination by (relation "measure (\<lambda>(addr, p, sz, result). sz)") auto

declare next_zero_words.simps [simp del]

definition find_next_zero_bit :: "u64 list \<Rightarrow> nat \<Rightarrow> nat \<Rightarrow> nat option" where
  "find_next_zero_bit addr sz offset =
    (let p = offset div BITS_PER_LONG; result = offset - offset mod BITS_PER_LONG in
     if offset \<ge> sz then Some sz
     else let sz = sz - result; offset = offset mod BITS_PER_LONG in
       if offset \<noteq> 0 then
         do { tmp \<leftarrow> nth_opt addr p;
              let tmp = tmp OR drop_bit (BITS_PER_LONG - offset) (NOT 0);
              if sz < BITS_PER_LONG then Some (found_zero_first result sz tmp)
              else if NOT tmp \<noteq> 0 then Some (found_zero_middle result tmp)
              else next_zero_words addr (p + 1) (sz - BITS_PER_LONG) (result + BITS_PER_LONG) }
       else next_zero_words addr p sz result)"

fun last_bit_words :: "u64 list \<Rightarrow> nat \<Rightarrow> nat \<Rightarrow> nat option" where
  "last_bit_words addr 0 sz = Some sz"
| "last_bit_words addr (Suc words) sz =
    do { tmp \<leftarrow> nth_opt addr words;
         if tmp \<noteq> 0 then Some (words * BITS_PER_LONG + BITS_PER_LONG - 1 - clz64 tmp)
         else last_bit_words addr words sz }"

definition find_last_bit :: "u64 list \<Rightarrow> nat \<Rightarrow> nat option" where
  "find_last_bit addr sz =
    (let words = sz div BITS_PER_LONG in
     if sz mod BITS_PER_LONG \<noteq> 0 then
       do { w \<leftarrow> nth_opt addr words;
            let tmp = w AND drop_bit (BITS_PER_LONG - sz mod BITS_PER_LONG) (NOT 0);
            if tmp \<noteq> 0 then Some (words * BITS_PER_LONG + BITS_PER_LONG - 1 - clz64 tmp)
            else last_bit_words addr words sz }
     else last_bit_words addr words sz)"

subsection \<open>Bit fields\<close>

definition extract32 :: "u32 \<Rightarrow> nat \<Rightarrow> nat \<Rightarrow> u32 option" where
  "extract32 v start len =
    (if 0 < len \<and> len + start \<le> 32 then Some (drop_bit start v AND drop_bit (32 - len) (NOT 0)) else None)"

definition extract64 :: "u64 \<Rightarrow> nat \<Rightarrow> nat \<Rightarrow> u64 option" where
  "extract64 v start len =
    (if 0 < len \<and> len + start \<le> 64 then Some (drop_bit start v AND drop_bit (64 - len) (NOT 0)) else None)"

definition sextract32 :: "u32 \<Rightarrow> nat \<Rightarrow> nat \<Rightarrow> u32 option" where
  "sextract32 v start len =
    (if 0 < len \<and> len + start \<le> 32 then Some (signed_drop_bit (32 - len) (push_bit (32 - len - start) v)) else None)"

definition sextract64 :: "u64 \<Rightarrow> nat \<Rightarrow> nat \<Rightarrow> u64 option" where
  "sextract64 v start len =
    (if 0 < len \<and> len + start \<le> 64 then Some (signed_drop_bit (64 - len) (push_bit (64 - len - start) v)) else None)"

definition deposit32 :: "u32 \<Rightarrow> nat \<Rightarrow> nat \<Rightarrow> u32 \<Rightarrow> u32 option" where
  "deposit32 v start len fieldval =
    (if 0 < len \<and> len + start \<le> 32 then
       let m = push_bit start (drop_bit (32 - len) (NOT 0))
       in Some ((v AND NOT m) OR (push_bit start fieldval AND m))
     else None)"

definition deposit64 :: "u64 \<Rightarrow> nat \<Rightarrow> nat \<Rightarrow> u64 \<Rightarrow> u64 option" where
  "deposit64 v start len fieldval =
    (if 0 < len \<and> len + start \<le> 64 then
       let m = push_bit start (drop_bit (64 - len) (NOT 0))
       in Some ((v AND NOT m) OR (push_bit start fieldval AND m))
     else None)"

subsection \<open>Ranges of bits\<close>

definition BITMAP_FIRST_WORD_MASK :: "nat \<Rightarrow> u64" where
  "BITMAP_FIRST_WORD_MASK start = push_bit (start mod BITS_PER_LONG) (NOT 0)"

definition BITMAP_LAST_WORD_MASK :: "nat \<Rightarrow> u64" where
  "BITMAP_LAST_WORD_MASK nbits =
    (if nbits mod BITS_PER_LONG \<noteq> 0 then push_bit (nbits mod BITS_PER_LONG) 1 - 1 else NOT 0)"

text \<open>\<open>int32 x\<close>: the result of an \<open>int\<close> operation whose exact value is \<open>x\<close>, undefined when it overflows.
  \<open>ulong x\<close>: the \<open>int\<close> value \<open>x\<close> converted to \<open>unsigned long\<close>.\<close>

definition int32 :: "int \<Rightarrow> int option" where
  "int32 x = (if - (2 ^ 31) \<le> x \<and> x < 2 ^ 31 then Some x else None)"

definition ulong :: "int \<Rightarrow> nat" where
  "ulong x = nat (x mod 2 ^ 64)"

text \<open>The loops of \<open>bitmap_set\<close> and \<open>bitmap_clear\<close>, which differ in the operation on a word. The number of bits
  of a word is positive in every call; the test of it only serves the termination of the recursion.\<close>

function range_words ::
  "(u64 \<Rightarrow> u64 \<Rightarrow> u64) \<Rightarrow> u64 list \<Rightarrow> nat \<Rightarrow> int \<Rightarrow> nat \<Rightarrow> u64 \<Rightarrow> u64 \<Rightarrow> u64 list option"
where
  "range_words f mp p nr bits m last_m =
    do { left \<leftarrow> int32 (nr - int bits);
         if 0 \<le> left \<and> 0 < bits then
           do { w \<leftarrow> nth_opt mp p; mp \<leftarrow> set_opt mp p (f w m);
                range_words f mp (p + 1) left BITS_PER_LONG (NOT 0) last_m }
         else if nr \<noteq> 0 then
           do { w \<leftarrow> nth_opt mp p; set_opt mp p (f w (m AND last_m)) }
         else Some mp }"
  by pat_completeness auto
termination
  by (relation "measure (\<lambda>(f, mp, p, nr, bits, m, last_m). nat nr)") (auto simp: int32_def split: if_splits)

declare range_words.simps [simp del]

definition bitmap_set :: "u64 list \<Rightarrow> int \<Rightarrow> int \<Rightarrow> u64 list option" where
  "bitmap_set mp start nr =
    (if BIT_WORD (ulong start) \<le> length mp then
       do { sz \<leftarrow> int32 (start + nr);
            range_words (\<lambda>w m. w OR m) mp (BIT_WORD (ulong start)) nr
              (BITS_PER_LONG - ulong start mod BITS_PER_LONG)
              (BITMAP_FIRST_WORD_MASK (ulong start)) (BITMAP_LAST_WORD_MASK (ulong sz)) }
     else None)"

definition bitmap_clear :: "u64 list \<Rightarrow> int \<Rightarrow> int \<Rightarrow> u64 list option" where
  "bitmap_clear mp start nr =
    (if BIT_WORD (ulong start) \<le> length mp then
       do { sz \<leftarrow> int32 (start + nr);
            range_words (\<lambda>w m. w AND NOT m) mp (BIT_WORD (ulong start)) nr
              (BITS_PER_LONG - ulong start mod BITS_PER_LONG)
              (BITMAP_FIRST_WORD_MASK (ulong start)) (BITMAP_LAST_WORD_MASK (ulong sz)) }
     else None)"

definition ALIGN_MASK :: "nat \<Rightarrow> u64 \<Rightarrow> nat" where
  "ALIGN_MASK x m = unat ((word_of_nat x + m) AND NOT m)"

partial_function (option) bitmap_find_next_zero_area ::
  "u64 list \<Rightarrow> nat \<Rightarrow> nat \<Rightarrow> u32 \<Rightarrow> u64 \<Rightarrow> nat option" where
  "bitmap_find_next_zero_area mp sz start nr align_mask =
    do { index \<leftarrow> find_next_zero_bit mp sz start;
         let index = ALIGN_MASK index align_mask;
         let e = (index + unat nr) mod 2 ^ 64;
         if e > sz then Some e
         else do { i \<leftarrow> find_next_bit mp e index;
                   if i < e then bitmap_find_next_zero_area mp sz (i + 1) nr align_mask
                   else Some index } }"

declare bitmap_find_next_zero_area.simps [code]

definition bitmap_new :: "nat \<Rightarrow> u64 list" where
  "bitmap_new nbits = replicate (BITS_TO_LONGS nbits) 0"

definition bitmap_zero :: "u64 list \<Rightarrow> nat \<Rightarrow> u64 list option" where
  "bitmap_zero dst nbits =
    (if nbits \<le> BITS_PER_LONG then set_opt dst 0 0
     else if BITS_TO_LONGS nbits \<le> length dst
     then Some (replicate (BITS_TO_LONGS nbits) 0 @ drop (BITS_TO_LONGS nbits) dst) else None)"

subsection \<open>The searches are the bit-wise ones\<close>

text \<open>\<open>next_spec P lim start r\<close>: \<open>r\<close> is the least number from \<open>start\<close> on that satisfies \<open>P\<close>, or \<open>lim\<close>.\<close>

definition next_spec :: "(nat \<Rightarrow> bool) \<Rightarrow> nat \<Rightarrow> nat \<Rightarrow> nat \<Rightarrow> bool" where
  "next_spec P lim start r \<longleftrightarrow> start \<le> r \<and> r \<le> lim \<and> (\<forall>i. start \<le> i \<longrightarrow> i < r \<longrightarrow> \<not> P i) \<and> (r < lim \<longrightarrow> P r)"

text \<open>\<open>window w b off P\<close>: the word \<open>w\<close> holds the values of \<open>P\<close> from \<open>b + off\<close> to \<open>b + 63\<close>, and zeros below.\<close>

definition window :: "u64 \<Rightarrow> nat \<Rightarrow> nat \<Rightarrow> (nat \<Rightarrow> bool) \<Rightarrow> bool" where
  "window w b off P \<longleftrightarrow> (\<forall>k<BITS_PER_LONG. bit w k \<longleftrightarrow> off \<le> k \<and> P (b + k))"

lemma next_spec_refl [simp]: "next_spec P lim lim lim"
  by (simp add: next_spec_def)

lemma word_zero_iff: "(w::u64) = 0 \<longleftrightarrow> (\<forall>k<BITS_PER_LONG. \<not> bit w k)"
  by (auto simp: bit_eq_iff dest: bit_imp_le_length)

lemma ctz64_first:
  assumes "w \<noteq> 0"
  shows "bit w (ctz64 w)" "ctz64 w < BITS_PER_LONG" "k < ctz64 w \<Longrightarrow> \<not> bit w k"
proof -
  have le: "ctz64 w \<le> 64" using ctz_ref_le [of w] by (simp add: ctz64_ref)
  have none: "\<forall>i<ctz64 w. \<not> bit w i" using ctz_ref_ge [of "ctz64 w" w] le by (simp add: ctz64_ref)
  then show "k < ctz64 w \<Longrightarrow> \<not> bit w k" by blast
  show lt: "ctz64 w < BITS_PER_LONG"
  proof (rule ccontr)
    assume "\<not> ctz64 w < BITS_PER_LONG"
    with none have "w = 0" by (simp add: word_zero_iff)
    with assms show False by simp
  qed
  then have "\<not> (\<forall>i<Suc (ctz64 w). \<not> bit w i)" using ctz_ref_ge [of "Suc (ctz64 w)" w] by (simp add: ctz64_ref)
  with none show "bit w (ctz64 w)" by (auto simp: less_Suc_eq)
qed

lemma clz64_last:
  assumes "w \<noteq> 0"
  shows "bit w (63 - clz64 w)" "clz64 w < BITS_PER_LONG" "63 - clz64 w < k \<Longrightarrow> \<not> bit w k"
proof -
  have le: "clz64 w \<le> 64" using clz_ref_le [of w] by (simp add: clz64_ref)
  have none: "\<forall>i. 64 - clz64 w \<le> i \<and> i < 64 \<longrightarrow> \<not> bit w i" using clz_ref_ge [of "clz64 w" w] le by (simp add: clz64_ref)
  then show "\<not> bit w k" if "63 - clz64 w < k"
  proof -
    have "64 - clz64 w \<le> k" using that by linarith
    with none show ?thesis by (cases "k < 64") (auto dest: bit_imp_le_length)
  qed
  show lt: "clz64 w < BITS_PER_LONG"
  proof (rule ccontr)
    assume "\<not> clz64 w < BITS_PER_LONG"
    with none le have "w = 0" by (simp add: word_zero_iff)
    with assms show False by simp
  qed
  then have "\<not> (\<forall>i. 64 - Suc (clz64 w) \<le> i \<and> i < 64 \<longrightarrow> \<not> bit w i)"
    using clz_ref_ge [of "Suc (clz64 w)" w] by (simp add: clz64_ref)
  then obtain i where "64 - Suc (clz64 w) \<le> i" "i < 64" "bit w i" by blast
  moreover from this none have "\<not> 64 - clz64 w \<le> i" by blast
  ultimately have "i = 63 - clz64 w" by linarith
  with \<open>bit w i\<close> show "bit w (63 - clz64 w)" by simp
qed

lemma window_found:
  assumes "window w b off P" "w \<noteq> 0" "b + BITS_PER_LONG \<le> lim"
  shows "next_spec P lim (b + off) (found_middle b w)"
proof -
  note c = ctz64_first [OF assms(2)]
  have "off \<le> ctz64 w" "P (b + ctz64 w)" using assms(1) c(1,2) by (auto simp: window_def)
  moreover have "\<not> P i" if "b + off \<le> i" "i < b + ctz64 w" for i
  proof -
    have "i - b < ctz64 w" "off \<le> i - b" "b + (i - b) = i" using that by auto
    moreover from this(1) have "\<not> bit w (i - b)" by (rule c(3))
    ultimately show ?thesis using assms(1) c(2) by (auto simp: window_def)
  qed
  ultimately show ?thesis using assms(3) c(2) by (auto simp: next_spec_def found_middle_def)
qed

lemma window_skip:
  assumes "window 0 b off P" "next_spec P lim (b + BITS_PER_LONG) r" "off \<le> BITS_PER_LONG"
  shows "next_spec P lim (b + off) r"
proof -
  have low: "\<not> P i" if "b + off \<le> i" "i < b + BITS_PER_LONG" for i
  proof -
    have "i - b < BITS_PER_LONG" "off \<le> i - b" "b + (i - b) = i" using that by auto
    with assms(1) show ?thesis by (auto simp: window_def)
  qed
  have "\<not> P i" if "b + off \<le> i" "i < r" for i
    using low [OF that(1)] assms(2) that(2) by (cases "i < b + BITS_PER_LONG") (auto simp: next_spec_def)
  with assms(2,3) show ?thesis by (simp add: next_spec_def)
qed

lemma window_last:
  assumes "window w b off P" "sz < BITS_PER_LONG" "off \<le> sz"
  shows "next_spec P (b + sz) (b + off) (found_first b sz w)"
proof -
  let ?v = "w AND drop_bit (BITS_PER_LONG - sz) (NOT 0)"
  have v: "window ?v b off (\<lambda>i. P i \<and> i < b + sz)"
    using assms(1,2) by (auto simp: window_def bit_simps)
  show ?thesis
  proof (cases "?v = 0")
    case True
    have "next_spec (\<lambda>i. P i \<and> i < b + sz) (b + BITS_PER_LONG) (b + BITS_PER_LONG) (b + BITS_PER_LONG)"
      by (simp add: next_spec_def)
    from window_skip [OF v [unfolded True] this] assms(2,3) True show ?thesis
      by (auto simp: next_spec_def found_first_def Let_def)
  next
    case False
    from window_found [OF v False order_refl] ctz64_first(1,2) [OF False] v False show ?thesis
      by (auto simp: next_spec_def found_first_def found_middle_def Let_def window_def)
  qed
qed

lemma window_word: "window (addr ! p) (BITS_PER_LONG * p) 0 (bm_bit addr)"
  "window (NOT (addr ! p)) (BITS_PER_LONG * p) 0 (\<lambda>i. \<not> bm_bit addr i)"
  by (auto simp: window_def bm_bit_def bit_simps)

lemma window_mask: "window w b 0 P \<Longrightarrow> window (w AND push_bit off (NOT 0)) b off P"
  by (auto simp: window_def bit_simps)

lemma low_mask: "sz \<le> 64 \<Longrightarrow> drop_bit (64 - sz) (NOT 0) = NOT (push_bit sz (NOT 0) :: u64)"
  by (rule bit_word_eqI) (auto simp: bit_simps)

lemma found_zero: "found_zero_middle b tmp = found_middle b (NOT tmp)"
  "sz \<le> 64 \<Longrightarrow> found_zero_first b sz tmp = found_first b sz (NOT tmp)"
proof -
  show m: "found_zero_middle b tmp = found_middle b (NOT tmp)" for tmp by (simp add: found_zero_middle_def found_middle_def)
  assume "sz \<le> 64"
  then have "NOT tmp AND drop_bit (64 - sz) (NOT 0) = NOT (tmp OR push_bit sz (NOT 0))" by (simp add: low_mask)
  moreover have "NOT v = 0 \<longleftrightarrow> v = NOT 0" for v :: u64 by (metis bit.double_compl)
  ultimately show "found_zero_first b sz tmp = found_first b sz (NOT tmp)"
    by (simp only: found_zero_first_def found_first_def Let_def m)
qed

lemma next_bit_words_ok:
  assumes "BITS_PER_LONG * p + sz \<le> BITS_PER_LONG * length addr"
  shows "yields (next_bit_words addr p sz (BITS_PER_LONG * p))
    (next_spec (bm_bit addr) (BITS_PER_LONG * p + sz) (BITS_PER_LONG * p))"
  using assms
proof (induction sz arbitrary: p rule: less_induct)
  case (less sz)
  note w = window_word(1) [of addr p]
  show ?case
  proof (cases "sz \<ge> BITS_PER_LONG")
    case True
    then have p: "p < length addr" using less.prems by linarith
    have n: "BITS_PER_LONG * (p + 1) + (sz - BITS_PER_LONG) = BITS_PER_LONG * p + sz" using True by simp
    from less.IH [of "sz - BITS_PER_LONG" "p + 1"] True less.prems
    have "yields (next_bit_words addr (p + 1) (sz - BITS_PER_LONG) (BITS_PER_LONG * (p + 1)))
        (next_spec (bm_bit addr) (BITS_PER_LONG * p + sz) (BITS_PER_LONG * (p + 1)))" by (simp only: n)
    then have tl: "yields (next_bit_words addr (p + 1) (sz - BITS_PER_LONG) (BITS_PER_LONG * p + BITS_PER_LONG))
        (next_spec (bm_bit addr) (BITS_PER_LONG * p + sz) (BITS_PER_LONG * p + BITS_PER_LONG))" by (simp add: algebra_simps)
    show ?thesis
    proof (cases "addr ! p = 0")
      case True
      from yields_mono [OF tl, of "next_spec (bm_bit addr) (BITS_PER_LONG * p + sz) (BITS_PER_LONG * p)"]
        window_skip [OF w [unfolded True]] p \<open>sz \<ge> BITS_PER_LONG\<close> True
      show ?thesis by (simp add: next_bit_words.simps [of addr p])
    next
      case False
      with window_found [OF w False] p \<open>sz \<ge> BITS_PER_LONG\<close> show ?thesis by (simp add: next_bit_words.simps [of addr p])
    qed
  next
    case False
    have p: "sz \<noteq> 0 \<Longrightarrow> p < length addr" using less.prems by linarith
    from False p window_last [OF w] show ?thesis
      by (cases "sz = 0") (simp_all add: next_bit_words.simps [of addr p])
  qed
qed

lemma next_bit_quads_ok:
  assumes "BITS_PER_LONG * p + sz \<le> BITS_PER_LONG * length addr"
  shows "yields (next_bit_quads addr p sz (BITS_PER_LONG * p))
    (next_spec (bm_bit addr) (BITS_PER_LONG * p + sz) (BITS_PER_LONG * p))"
  using assms
proof (induction sz arbitrary: p rule: less_induct)
  case (less sz)
  have words: "yields (next_bit_words addr p sz (BITS_PER_LONG * p))
    (next_spec (bm_bit addr) (BITS_PER_LONG * p + sz) (BITS_PER_LONG * p))"
    using less.prems by (rule next_bit_words_ok)
  show ?case
  proof (cases "sz \<ge> 4 * BITS_PER_LONG")
    case False
    then show ?thesis using words by (simp add: next_bit_quads.simps [of addr p])
  next
    case True
    then have p: "p < length addr" "p + 1 < length addr" "p + 2 < length addr" "p + 3 < length addr"
      using less.prems by linarith+
    let ?Q = "next_spec (bm_bit addr) (BITS_PER_LONG * p + sz)"
    have n: "BITS_PER_LONG * (p + 4) + (sz - 4 * BITS_PER_LONG) = BITS_PER_LONG * p + sz" using True by simp
    from less.IH [of "sz - 4 * BITS_PER_LONG" "p + 4"] True less.prems
    have "yields (next_bit_quads addr (p + 4) (sz - 4 * BITS_PER_LONG) (BITS_PER_LONG * (p + 4)))
        (?Q (BITS_PER_LONG * (p + 4)))" by (simp only: n)
    then have tl: "yields (next_bit_quads addr (p + 4) (sz - 4 * BITS_PER_LONG) (BITS_PER_LONG * p + 4 * BITS_PER_LONG))
        (?Q (BITS_PER_LONG * (p + 4)))" by (simp add: algebra_simps)
    have skip: "?Q (BITS_PER_LONG * q) r" if "addr ! q = 0" "?Q (BITS_PER_LONG * (q + 1)) r" for q r
      using window_skip [OF window_word(1) [of addr q, unfolded that(1)], of "BITS_PER_LONG * p + sz" r] that(2)
      by (simp add: algebra_simps)
    have skip4: "?Q (BITS_PER_LONG * p) r" if "addr ! p = 0" "addr ! (p + 1) = 0" "addr ! (p + 2) = 0" "addr ! (p + 3) = 0"
        "?Q (BITS_PER_LONG * (p + 4)) r" for r
      using skip [of p r] skip [of "p + 1" r] skip [of "p + 2" r] skip [of "p + 3" r] that by (simp add: algebra_simps)
    have or0: "a OR b OR c = 0 \<longleftrightarrow> a = 0 \<and> b = 0 \<and> c = 0" for a b c :: u64 by (auto simp: bit_eq_iff bit_simps)
    show ?thesis
      using True p words window_found [OF window_word(1) [of addr p], of "BITS_PER_LONG * p + sz"] tl skip4
      by (auto simp: next_bit_quads.simps [of addr p] or0 intro: yields_mono)
  qed
qed

lemma next_zero_words_ok:
  assumes "BITS_PER_LONG * p + sz \<le> BITS_PER_LONG * length addr"
  shows "yields (next_zero_words addr p sz (BITS_PER_LONG * p))
    (next_spec (\<lambda>i. \<not> bm_bit addr i) (BITS_PER_LONG * p + sz) (BITS_PER_LONG * p))"
  using assms
proof (induction sz arbitrary: p rule: less_induct)
  case (less sz)
  note w = window_word(2) [of addr p]
  let ?Q = "next_spec (\<lambda>i. \<not> bm_bit addr i) (BITS_PER_LONG * p + sz)"
  have test: "sz - sz mod BITS_PER_LONG \<noteq> 0 \<longleftrightarrow> sz \<ge> BITS_PER_LONG"
    by (simp add: minus_mod_eq_mult_div div_eq_0_iff not_less)
  show ?case
  proof (cases "sz \<ge> BITS_PER_LONG")
    case True
    then have p: "p < length addr" using less.prems by linarith
    have n: "BITS_PER_LONG * (p + 1) + (sz - BITS_PER_LONG) = BITS_PER_LONG * p + sz" using True by simp
    from less.IH [of "sz - BITS_PER_LONG" "p + 1"] True less.prems
    have "yields (next_zero_words addr (p + 1) (sz - BITS_PER_LONG) (BITS_PER_LONG * (p + 1))) (?Q (BITS_PER_LONG * (p + 1)))"
      by (simp only: n)
    then have tl: "yields (next_zero_words addr (p + 1) (sz - BITS_PER_LONG) (BITS_PER_LONG * p + BITS_PER_LONG))
        (?Q (BITS_PER_LONG * p + BITS_PER_LONG))" by (simp add: algebra_simps)
    show ?thesis
      using True p window_found [OF w, of "BITS_PER_LONG * p + sz"] yields_mono [OF tl, of "?Q (BITS_PER_LONG * p)"]
        window_skip [of "BITS_PER_LONG * p" 0 "\<lambda>i. \<not> bm_bit addr i" "BITS_PER_LONG * p + sz"] w
      by (cases "NOT (addr ! p) = 0") (simp_all add: next_zero_words.simps [of addr p] test found_zero(1))
  next
    case False
    have p: "sz \<noteq> 0 \<Longrightarrow> p < length addr" using less.prems by linarith
    from False p window_last [OF w] show ?thesis
      by (cases "sz = 0") (simp_all add: next_zero_words.simps [of addr p] test found_zero(2))
  qed
qed

lemma offset_split: "offset = BITS_PER_LONG * (offset div BITS_PER_LONG) + offset mod BITS_PER_LONG"
  "offset - offset mod BITS_PER_LONG = BITS_PER_LONG * (offset div BITS_PER_LONG)"
  by (simp_all add: minus_mod_eq_mult_div)

lemma find_next_bit_ok:
  assumes "sz \<le> BITS_PER_LONG * length addr" "offset \<le> sz"
  shows "yields (find_next_bit addr sz offset) (next_spec (bm_bit addr) sz offset)"
proof (cases "offset < sz")
  case False
  with assms show ?thesis by (simp add: find_next_bit_def Let_def)
next
  case True
  define p where "p = offset div BITS_PER_LONG"
  define off where "off = offset mod BITS_PER_LONG"
  have o: "offset = BITS_PER_LONG * p + off" "off < BITS_PER_LONG" by (simp_all add: p_def off_def)
  then have p: "p < length addr" and s: "sz = BITS_PER_LONG * p + (sz - BITS_PER_LONG * p)" using True assms by linarith+
  note w = window_mask [OF window_word(1) [of addr p], of off]
  let ?Q = "next_spec (bm_bit addr) sz"
  have e: "find_next_bit addr sz offset = (if off \<noteq> 0 then
      do { tmp \<leftarrow> nth_opt addr p;
           let tmp = tmp AND push_bit off (NOT 0);
           if sz - BITS_PER_LONG * p < BITS_PER_LONG then Some (found_first (BITS_PER_LONG * p) (sz - BITS_PER_LONG * p) tmp)
           else if tmp \<noteq> 0 then Some (found_middle (BITS_PER_LONG * p) tmp)
           else next_bit_quads addr (p + 1) (sz - BITS_PER_LONG * p - BITS_PER_LONG) (BITS_PER_LONG * p + BITS_PER_LONG) }
      else next_bit_quads addr p (sz - BITS_PER_LONG * p) (BITS_PER_LONG * p))"
    unfolding find_next_bit_def offset_split(2) p_def off_def using True by (simp add: Let_def)
  show ?thesis
  proof (cases "off = 0 \<or> sz - BITS_PER_LONG * p < BITS_PER_LONG")
    case True
    have "yields (next_bit_quads addr p (sz - BITS_PER_LONG * p) (BITS_PER_LONG * p)) (?Q (BITS_PER_LONG * p))"
      using next_bit_quads_ok [of p "sz - BITS_PER_LONG * p" addr] s assms(1) by simp
    with True p o s \<open>offset < sz\<close> window_last [OF w, of "sz - BITS_PER_LONG * p"] show ?thesis
      unfolding e by (auto simp: Let_def)
  next
    case False
    have "BITS_PER_LONG * (p + 1) + (sz - BITS_PER_LONG * p - BITS_PER_LONG) = sz" using False s by simp
    with next_bit_quads_ok [of "p + 1" "sz - BITS_PER_LONG * p - BITS_PER_LONG" addr] assms(1)
    have "yields (next_bit_quads addr (p + 1) (sz - BITS_PER_LONG * p - BITS_PER_LONG) (BITS_PER_LONG * p + BITS_PER_LONG))
        (?Q (BITS_PER_LONG * p + BITS_PER_LONG))" by (simp add: algebra_simps)
    from yields_mono [OF this, of "?Q offset"] False p o window_found [OF w, of sz]
      window_skip [of "BITS_PER_LONG * p" off "bm_bit addr" sz] w s
    show ?thesis unfolding e by (cases "addr ! p AND push_bit off (NOT 0) = 0") (simp_all add: Let_def)
  qed
qed

lemma find_next_zero_bit_ok:
  assumes "sz \<le> BITS_PER_LONG * length addr" "offset \<le> sz"
  shows "yields (find_next_zero_bit addr sz offset) (next_spec (\<lambda>i. \<not> bm_bit addr i) sz offset)"
proof (cases "offset < sz")
  case False
  with assms show ?thesis by (simp add: find_next_zero_bit_def Let_def)
next
  case True
  define p where "p = offset div BITS_PER_LONG"
  define off where "off = offset mod BITS_PER_LONG"
  have o: "offset = BITS_PER_LONG * p + off" "off < BITS_PER_LONG" by (simp_all add: p_def off_def)
  then have p: "p < length addr" and s: "sz = BITS_PER_LONG * p + (sz - BITS_PER_LONG * p)" using True assms by linarith+
  let ?Q = "next_spec (\<lambda>i. \<not> bm_bit addr i) sz"
  let ?v = "addr ! p OR drop_bit (BITS_PER_LONG - off) (NOT 0)"
  have "NOT ?v = NOT (addr ! p) AND push_bit off (NOT 0)" using o(2) by (simp add: low_mask)
  then have w: "window (NOT ?v) (BITS_PER_LONG * p) off (\<lambda>i. \<not> bm_bit addr i)"
    using window_mask [OF window_word(2) [of addr p], of off] by simp
  have e: "find_next_zero_bit addr sz offset = (if off \<noteq> 0 then
           if sz - BITS_PER_LONG * p < BITS_PER_LONG then Some (found_zero_first (BITS_PER_LONG * p) (sz - BITS_PER_LONG * p) ?v)
           else if NOT ?v \<noteq> 0 then Some (found_zero_middle (BITS_PER_LONG * p) ?v)
           else next_zero_words addr (p + 1) (sz - BITS_PER_LONG * p - BITS_PER_LONG) (BITS_PER_LONG * p + BITS_PER_LONG)
      else next_zero_words addr p (sz - BITS_PER_LONG * p) (BITS_PER_LONG * p))"
    using p unfolding find_next_zero_bit_def offset_split(2) p_def off_def using True by (simp add: Let_def)
  show ?thesis
  proof (cases "off = 0 \<or> sz - BITS_PER_LONG * p < BITS_PER_LONG")
    case True
    have "yields (next_zero_words addr p (sz - BITS_PER_LONG * p) (BITS_PER_LONG * p)) (?Q (BITS_PER_LONG * p))"
      using next_zero_words_ok [of p "sz - BITS_PER_LONG * p" addr] s assms(1) by simp
    with True o s \<open>offset < sz\<close> window_last [OF w, of "sz - BITS_PER_LONG * p"] show ?thesis
      unfolding e by (auto simp: found_zero(2) simp del: bit.conj_disj_distribs)
  next
    case False
    have "BITS_PER_LONG * (p + 1) + (sz - BITS_PER_LONG * p - BITS_PER_LONG) = sz" using False s by simp
    with next_zero_words_ok [of "p + 1" "sz - BITS_PER_LONG * p - BITS_PER_LONG" addr] assms(1)
    have "yields (next_zero_words addr (p + 1) (sz - BITS_PER_LONG * p - BITS_PER_LONG) (BITS_PER_LONG * p + BITS_PER_LONG))
        (?Q (BITS_PER_LONG * p + BITS_PER_LONG))" by (simp add: algebra_simps)
    from yields_mono [OF this, of "?Q offset"] False o window_found [OF w, of sz]
      window_skip [of "BITS_PER_LONG * p" off "\<lambda>i. \<not> bm_bit addr i" sz] w s
    show ?thesis unfolding e found_zero(1) by (cases "NOT ?v = 0") simp_all
  qed
qed

definition last_spec :: "(nat \<Rightarrow> bool) \<Rightarrow> nat \<Rightarrow> nat \<Rightarrow> bool" where
  "last_spec P lim r \<longleftrightarrow> (if r < lim then P r \<and> (\<forall>i. r < i \<longrightarrow> i < lim \<longrightarrow> \<not> P i) else r = lim \<and> (\<forall>i<lim. \<not> P i))"

lemma window_last_bit:
  assumes "window w (BITS_PER_LONG * p) 0 P" "w \<noteq> 0" "BITS_PER_LONG * p + BITS_PER_LONG \<le> lim \<or> (\<forall>i\<ge>lim. \<not> P i)"
    and "\<And>i. BITS_PER_LONG * p + BITS_PER_LONG \<le> i \<Longrightarrow> i < lim \<Longrightarrow> \<not> P i"
  shows "last_spec P lim (p * BITS_PER_LONG + BITS_PER_LONG - 1 - clz64 w)"
proof -
  note c = clz64_last [OF assms(2)]
  let ?r = "BITS_PER_LONG * p + (63 - clz64 w)"
  have r: "p * BITS_PER_LONG + BITS_PER_LONG - 1 - clz64 w = ?r" using c(2) by simp
  have P: "P ?r" using assms(1) c(1,2) by (auto simp: window_def)
  moreover have "\<not> P i" if "?r < i" "i < lim" for i
  proof (cases "i < BITS_PER_LONG * p + BITS_PER_LONG")
    case True
    then have "63 - clz64 w < i - BITS_PER_LONG * p" "i - BITS_PER_LONG * p < BITS_PER_LONG"
        "BITS_PER_LONG * p + (i - BITS_PER_LONG * p) = i"
      using that by auto
    with c(3) assms(1) show ?thesis by (auto simp: window_def)
  qed (use that assms(4) in auto)
  moreover have "?r < lim"
  proof (rule ccontr)
    assume "\<not> ?r < lim"
    with P assms(3) have "BITS_PER_LONG * p + BITS_PER_LONG \<le> lim" by (auto simp: not_less)
    with \<open>\<not> ?r < lim\<close> show False by linarith
  qed
  ultimately show ?thesis unfolding r by (simp add: last_spec_def)
qed

lemma last_bit_words_ok:
  assumes "words \<le> length addr" "BITS_PER_LONG * words \<le> sz"
    and "\<And>i. BITS_PER_LONG * words \<le> i \<Longrightarrow> i < sz \<Longrightarrow> \<not> bm_bit addr i"
  shows "yields (last_bit_words addr words sz) (last_spec (bm_bit addr) sz)"
  using assms
proof (induction words)
  case 0
  then show ?case by (simp add: last_spec_def)
next
  case (Suc words)
  note w = window_word(1) [of addr words]
  have zero: "\<not> bm_bit addr i" if "addr ! words = 0" "BITS_PER_LONG * words \<le> i" "i < sz" for i
  proof (cases "i < BITS_PER_LONG * words + BITS_PER_LONG")
    case True
    then have "i div BITS_PER_LONG = words" using that(2) by (intro div_nat_eqI) (auto simp: algebra_simps)
    then show ?thesis using that(1) by (simp add: bm_bit_def)
  qed (use Suc.prems(3) [of i] that(3) in auto)
  show ?case
    using Suc window_last_bit [OF w, of sz] zero by (cases "addr ! words = 0") simp_all
qed

lemma find_last_bit_ok:
  assumes "sz \<le> BITS_PER_LONG * length addr"
  shows "yields (find_last_bit addr sz) (last_spec (bm_bit addr) sz)"
proof -
  define p where "p = sz div BITS_PER_LONG"
  define off where "off = sz mod BITS_PER_LONG"
  have o: "sz = BITS_PER_LONG * p + off" "off < BITS_PER_LONG" by (simp_all add: p_def off_def)
  show ?thesis
  proof (cases "off = 0")
    case True
    then have "yields (last_bit_words addr p sz) (last_spec (bm_bit addr) sz)"
      using o(1) assms by (intro last_bit_words_ok) auto
    with True show ?thesis by (simp add: find_last_bit_def Let_def p_def off_def)
  next
    case False
    then have p: "p < length addr" using o assms by linarith
    let ?v = "addr ! p AND drop_bit (BITS_PER_LONG - off) (NOT 0)"
    have v: "window ?v (BITS_PER_LONG * p) 0 (\<lambda>i. bm_bit addr i \<and> i < sz)"
      using window_word(1) [of addr p] o by (auto simp: window_def bit_simps)
    have e: "find_last_bit addr sz = (if ?v \<noteq> 0 then Some (p * BITS_PER_LONG + BITS_PER_LONG - 1 - clz64 ?v)
        else last_bit_words addr p sz)"
      using False p by (simp add: find_last_bit_def Let_def p_def off_def)
    show ?thesis
    proof (cases "?v = 0")
      case True
      have "\<not> bm_bit addr i" if "BITS_PER_LONG * p \<le> i" "i < sz" for i
      proof -
        have "i - BITS_PER_LONG * p < BITS_PER_LONG" "BITS_PER_LONG * p + (i - BITS_PER_LONG * p) = i" using that o by auto
        with v that(2) show ?thesis unfolding True by (auto simp: window_def)
      qed
      then have "yields (last_bit_words addr p sz) (last_spec (bm_bit addr) sz)"
        using p o(1) by (intro last_bit_words_ok) auto
      with True show ?thesis unfolding e by simp
    next
      case False
      from window_last_bit [OF v False, of sz] o show ?thesis unfolding e using False by (auto simp: last_spec_def)
    qed
  qed
qed

lemma test_bit_ok: "nr < BITS_PER_LONG * length addr \<Longrightarrow> test_bit nr addr = Some (bm_bit addr nr)"
proof -
  assume "nr < BITS_PER_LONG * length addr"
  then have "nr div BITS_PER_LONG < length addr" by (simp add: div_less_iff_less_mult mult.commute)
  then show ?thesis by (simp add: test_bit_def BIT_WORD_def bm_bit_def one_and_eq bit_iff_odd_drop_bit odd_iff_mod_2_eq_one)
qed

lemma bm_bit_update:
  "p < length mp \<Longrightarrow> bm_bit (mp[p := w]) i = (if i div BITS_PER_LONG = p then bit w (i mod BITS_PER_LONG) else bm_bit mp i)"
  by (simp add: bm_bit_def nth_list_update)

lemma bit_BIT_MASK: "bit (BIT_MASK nr) k \<longleftrightarrow> k = nr mod BITS_PER_LONG"
  by (auto simp: BIT_MASK_def bit_simps)

lemma same_bit: "i div BITS_PER_LONG = nr div BITS_PER_LONG \<Longrightarrow> i mod BITS_PER_LONG = nr mod BITS_PER_LONG \<longleftrightarrow> i = nr"
  by (metis mod_div_mult_eq)

lemma set_clear_bit_ok:
  assumes "nr < BITS_PER_LONG * length mp"
  shows "yields (set_bit_map nr mp) (\<lambda>m. length m = length mp \<and> (\<forall>i. bm_bit m i \<longleftrightarrow> bm_bit mp i \<or> i = nr))"
    "yields (clear_bit_map nr mp) (\<lambda>m. length m = length mp \<and> (\<forall>i. bm_bit m i \<longleftrightarrow> bm_bit mp i \<and> i \<noteq> nr))"
proof -
  have p: "nr div BITS_PER_LONG < length mp" using assms by (simp add: div_less_iff_less_mult mult.commute)
  show "yields (set_bit_map nr mp) (\<lambda>m. length m = length mp \<and> (\<forall>i. bm_bit m i \<longleftrightarrow> bm_bit mp i \<or> i = nr))"
    "yields (clear_bit_map nr mp) (\<lambda>m. length m = length mp \<and> (\<forall>i. bm_bit m i \<longleftrightarrow> bm_bit mp i \<and> i \<noteq> nr))"
    using p by (auto simp: set_bit_map_def clear_bit_map_def BIT_WORD_def nth_list_update bit_simps bit_BIT_MASK same_bit bm_bit_def
      split: if_splits)
qed

lemma find_next_bit_min:
  assumes "sz \<le> BITS_PER_LONG * length addr"
  shows "yields (find_next_bit addr sz offset) (next_spec (bm_bit addr) sz (min offset sz))"
  using find_next_bit_ok [OF assms, of offset] by (cases "offset \<le> sz") (simp_all add: find_next_bit_def next_spec_def)

lemma find_next_zero_bit_min:
  assumes "sz \<le> BITS_PER_LONG * length addr"
  shows "yields (find_next_zero_bit addr sz offset) (next_spec (\<lambda>i. \<not> bm_bit addr i) sz (min offset sz))"
  using find_next_zero_bit_ok [OF assms, of offset]
  by (cases "offset \<le> sz") (simp_all add: find_next_zero_bit_def next_spec_def)

text \<open>\<open>word_op f c\<close>: \<open>f\<close> gives the bits of its mask the value \<open>c\<close> and keeps the others.\<close>

definition word_op :: "(u64 \<Rightarrow> u64 \<Rightarrow> u64) \<Rightarrow> bool \<Rightarrow> bool" where
  "word_op f c \<longleftrightarrow> (\<forall>w m k. k < BITS_PER_LONG \<longrightarrow> bit (f w m) k = (if bit m k then c else bit w k))"

lemma word_ops: "word_op (\<lambda>w m. w OR m) True" "word_op (\<lambda>w m. w AND NOT m) False"
  by (auto simp: word_op_def bit_simps)

lemma bit_last_mask: "k < BITS_PER_LONG \<Longrightarrow> nbits mod BITS_PER_LONG \<noteq> 0 \<Longrightarrow>
    bit (BITMAP_LAST_WORD_MASK nbits) k \<longleftrightarrow> k < nbits mod BITS_PER_LONG"
  by (auto simp: BITMAP_LAST_WORD_MASK_def bit_simps mask_eq_exp_minus_1 [symmetric] push_bit_eq_mult)

definition range_put :: "u64 list \<Rightarrow> bool \<Rightarrow> nat \<Rightarrow> nat \<Rightarrow> u64 list \<Rightarrow> bool" where
  "range_put mp c a b m \<longleftrightarrow> length m = length mp \<and> (\<forall>i. bm_bit m i = (if a \<le> i \<and> i < b then c else bm_bit mp i))"

lemma range_word:
  assumes "word_op f c" "p < length mp" "a \<le> b" "b \<le> BITS_PER_LONG"
    and m: "\<And>k. k < BITS_PER_LONG \<Longrightarrow> bit m k \<longleftrightarrow> a \<le> k \<and> k < b"
  shows "range_put mp c (BITS_PER_LONG * p + a) (BITS_PER_LONG * p + b) (mp[p := f (mp ! p) m])"
proof -
  have "bm_bit (mp[p := f (mp ! p) m]) i =
      (if BITS_PER_LONG * p + a \<le> i \<and> i < BITS_PER_LONG * p + b then c else bm_bit mp i)" for i
  proof (cases "i div BITS_PER_LONG = p")
    case True
    then have i: "i = BITS_PER_LONG * p + i mod BITS_PER_LONG" using offset_split(1) [of i] by simp
    have "bm_bit (mp[p := f (mp ! p) m]) i = (if bit m (i mod BITS_PER_LONG) then c else bit (mp ! p) (i mod BITS_PER_LONG))"
      using True assms(1,2) by (simp add: bm_bit_update word_op_def)
    also have "\<dots> = (if a \<le> i mod BITS_PER_LONG \<and> i mod BITS_PER_LONG < b then c else bm_bit mp i)"
      using m True by (simp add: bm_bit_def)
    finally show ?thesis using i by (metis add_le_cancel_left add_less_cancel_left)
  next
    case False
    then have "\<not> (BITS_PER_LONG * p + a \<le> i \<and> i < BITS_PER_LONG * p + b)"
      using assms(4) by (auto simp: div_nat_eqI algebra_simps)
    with False assms(2) show ?thesis by (auto simp: bm_bit_update)
  qed
  then show ?thesis by (simp add: range_put_def)
qed

lemma range_put_trans:
  "range_put mp c a b m \<Longrightarrow> range_put m c b d m' \<Longrightarrow> a \<le> b \<Longrightarrow> b \<le> d \<Longrightarrow> range_put mp c a d m'"
  by (auto simp: range_put_def)

lemma range_left: "bits \<le> BITS_PER_LONG \<Longrightarrow> nr < 2 ^ 31 \<Longrightarrow> int32 (int nr - int bits) = Some (int nr - int bits)"
  by (simp add: int32_def)

lemma range_words_none:
  "0 < bits \<Longrightarrow> bits \<le> BITS_PER_LONG \<Longrightarrow> range_words f mp p 0 bits m last_m = Some mp"
  using range_left [of bits 0] by (subst range_words.simps) auto

lemma ulong_nat: "n < 2 ^ 64 \<Longrightarrow> ulong (int n) = n"
  by (simp add: ulong_def nat_mod_as_int [symmetric] flip: of_nat_mod)

lemma range_words_ok:
  assumes "word_op f c" "0 < bits" "bits \<le> BITS_PER_LONG"
    "BITS_PER_LONG * p + (BITS_PER_LONG - bits) + nr \<le> BITS_PER_LONG * length mp"
    "\<And>k. k < BITS_PER_LONG \<Longrightarrow> bit m k \<longleftrightarrow> BITS_PER_LONG - bits \<le> k"
    "lim = BITS_PER_LONG * p + (BITS_PER_LONG - bits) + nr" "nr < 2 ^ 31"
  shows "yields (range_words f mp p (int nr) bits m (BITMAP_LAST_WORD_MASK lim))
    (range_put mp c (BITS_PER_LONG * p + (BITS_PER_LONG - bits)) lim)"
  using assms(2-)
proof (induction nr arbitrary: mp p bits m rule: less_induct)
  case (less nr)
  let ?a = "BITS_PER_LONG - bits"
  consider "bits \<le> nr" | "nr < bits" "nr \<noteq> 0" | "nr = 0" "nr < bits" using less.prems(1) by linarith
  then show ?case
  proof cases
    case 1
    then have p: "p < length mp" using less.prems by linarith
    let ?mp = "mp[p := f (mp ! p) m]"
    have w: "range_put mp c (BITS_PER_LONG * p + ?a) (BITS_PER_LONG * p + BITS_PER_LONG) ?mp"
      using range_word [OF assms(1) p, of ?a BITS_PER_LONG m] less.prems(4) by simp
    have nl: "BITS_PER_LONG * (p + 1) + (nr - bits) = lim" "BITS_PER_LONG * (p + 1) = BITS_PER_LONG * p + BITS_PER_LONG"
      using 1 less.prems(2,5) by simp_all
    have "yields (range_words f ?mp (p + 1) (int (nr - bits)) BITS_PER_LONG (NOT 0) (BITMAP_LAST_WORD_MASK lim))
        (range_put ?mp c (BITS_PER_LONG * (p + 1) + (BITS_PER_LONG - BITS_PER_LONG)) lim)"
      using 1 less.prems nl by (intro less.IH) (auto simp: bit_simps)
    then have "yields (range_words f ?mp (p + 1) (int (nr - bits)) BITS_PER_LONG (NOT 0) (BITMAP_LAST_WORD_MASK lim))
        (range_put mp c (BITS_PER_LONG * p + ?a) lim)"
    proof (rule yields_mono)
      fix x
      assume "range_put ?mp c (BITS_PER_LONG * (p + 1) + (BITS_PER_LONG - BITS_PER_LONG)) lim x"
      then have "range_put ?mp c (BITS_PER_LONG * p + BITS_PER_LONG) lim x" by (simp only: nl(2) diff_self_eq_0 add_0_right)
      with range_put_trans [OF w] nl show "range_put mp c (BITS_PER_LONG * p + ?a) lim x" by simp
    qed
    then show ?thesis using 1 less.prems(1) p
      by (simp add: range_words.simps [of f mp p "int nr"] range_left [OF less.prems(2,6)] of_nat_diff)
  next
    case 2
    then have p: "p < length mp" and b2: "?a + nr < BITS_PER_LONG" using less.prems by linarith+
    have "lim = BITS_PER_LONG * p + (?a + nr)" using less.prems(5) by simp
    then have b: "lim mod BITS_PER_LONG = ?a + nr" "?a + nr < BITS_PER_LONG"
      using b2 by (simp_all only: mod_mult_self4 mod_less)
    have "range_put mp c (BITS_PER_LONG * p + ?a) (BITS_PER_LONG * p + (?a + nr))
        (mp[p := f (mp ! p) (m AND BITMAP_LAST_WORD_MASK lim)])"
      using less.prems(4) 2 b by (intro range_word [OF assms(1) p]) (auto simp: bit_simps bit_last_mask)
    then show ?thesis using 2 p less.prems(5)
      by (simp add: range_words.simps [of f mp p "int nr"] range_left [OF less.prems(2,6)] add.assoc)
  next
    case 3
    then show ?thesis using less.prems(2,5) range_words_none [of bits f mp p m] by (auto simp: range_put_def)
  qed
qed

lemma bitmap_set_clear_ok:
  assumes "start + nr \<le> BITS_PER_LONG * length mp" "start + nr < 2 ^ 31"
  shows "yields (bitmap_set mp (int start) (int nr)) (range_put mp True start (start + nr))"
    "yields (bitmap_clear mp (int start) (int nr)) (range_put mp False start (start + nr))"
proof -
  have s: "BITS_PER_LONG * BIT_WORD start + (BITS_PER_LONG - (BITS_PER_LONG - start mod BITS_PER_LONG)) = start"
    using offset_split(1) [of start] by (simp add: BIT_WORD_def)
  have m: "bit (BITMAP_FIRST_WORD_MASK start) k \<longleftrightarrow> BITS_PER_LONG - (BITS_PER_LONG - start mod BITS_PER_LONG) \<le> k"
    if "k < BITS_PER_LONG" for k
    using that by (auto simp: BITMAP_FIRST_WORD_MASK_def bit_simps)
  have u: "ulong (int start) = start" "ulong (int start + int nr) = start + nr"
    using ulong_nat [of start] ulong_nat [of "start + nr"] assms(2) by simp_all
  have i: "int32 (int start + int nr) = Some (int start + int nr)" "BIT_WORD start \<le> length mp" "nr < 2 ^ 31"
    using assms by (simp_all add: int32_def BIT_WORD_def)
  have "yields (range_words f mp (BIT_WORD start) (int nr) (BITS_PER_LONG - start mod BITS_PER_LONG) (BITMAP_FIRST_WORD_MASK start)
      (BITMAP_LAST_WORD_MASK (start + nr))) (range_put mp c start (start + nr))" if "word_op f c" for f c
    using range_words_ok [OF that _ _ _ m, of "BIT_WORD start" nr mp "start + nr"] assms(1) i(3)
    unfolding s by (metis diff_le_self zero_less_diff mod_less_divisor zero_less_numeral)
  then show "yields (bitmap_set mp (int start) (int nr)) (range_put mp True start (start + nr))"
    "yields (bitmap_clear mp (int start) (int nr)) (range_put mp False start (start + nr))"
    using word_ops by (simp_all add: bitmap_set_def bitmap_clear_def u i)
qed

lemma bitmap_range_overflow:
  assumes "2 ^ 31 \<le> start + nr"
  shows "bitmap_set mp start nr = None" "bitmap_clear mp start nr = None"
proof -
  have "int32 (start + nr) = None" using assms by (simp add: int32_def)
  then show "bitmap_set mp start nr = None" "bitmap_clear mp start nr = None"
    by (simp_all add: bitmap_set_def bitmap_clear_def)
qed

text \<open>Aligned areas of zeros.\<close>

lemma align_mask_nat:
  assumes "k < 64" "x < 2 ^ 63"
  shows "ALIGN_MASK x (mask k) = (x + (2 ^ k - 1)) div 2 ^ k * 2 ^ k"
proof -
  have k: "(2::nat) ^ k \<le> 2 ^ 63" using power_increasing [of k 63 "2::nat"] assms(1) by simp
  have lt: "x + (2 ^ k - 1) < 2 ^ 64" using k assms(2) by simp
  have "uint (mask k :: u64) = 2 ^ k - 1"
    using assms(1) mask_eq_exp_minus_1 [of k, where 'a = int] by (simp add: uint_mask_eq min_def)
  then have "int (unat (mask k :: u64)) = int (2 ^ k - 1)" by (simp add: of_nat_diff)
  then have m: "unat (mask k :: u64) = 2 ^ k - 1" by (simp only: of_nat_eq_iff)
  have x: "unat (word_of_nat x :: u64) = x" using assms(2) by (simp add: unsigned_of_nat take_bit_nat_eq_self_iff)
  have u: "unat (word_of_nat x + mask k :: u64) = x + (2 ^ k - 1)"
    using lt m x by (subst unat_word_add) simp_all
  have "ALIGN_MASK x (mask k) = unat (push_bit k (drop_bit k (word_of_nat x + mask k :: u64)))"
    unfolding ALIGN_MASK_def by (rule arg_cong [of _ _ unat], rule bit_word_eqI) (auto simp: bit_simps)
  also have "\<dots> = (x + (2 ^ k - 1)) div 2 ^ k * 2 ^ k"
    using lt by (simp add: unsigned_push_bit_eq unat_drop_bit_eq u push_bit_nat_def drop_bit_nat_def take_bit_nat_eq_self_iff
        le_less_trans [OF div_times_less_eq_dividend])
  finally show ?thesis .
qed

lemma align_up:
  fixes x d :: nat
  assumes "0 < d"
  shows "x \<le> (x + (d - 1)) div d * d" "d dvd (x + (d - 1)) div d * d" "(x + (d - 1)) div d * d < x + d"
    "d dvd r \<Longrightarrow> x \<le> r \<Longrightarrow> (x + (d - 1)) div d * d \<le> r"
proof -
  have e: "(x + (d - 1)) div d * d + (x + (d - 1)) mod d = x + (d - 1)" by (rule div_mult_mod_eq)
  moreover have "(x + (d - 1)) mod d < d" using assms by simp
  ultimately show "x \<le> (x + (d - 1)) div d * d" "(x + (d - 1)) div d * d < x + d" using assms by linarith+
  show "d dvd (x + (d - 1)) div d * d" by simp
  assume "d dvd r" "x \<le> r"
  then obtain q where r: "r = d * q" by blast
  have "(x + (d - 1)) div d < q + 1"
    using \<open>x \<le> r\<close> r assms by (subst div_less_iff_less_mult) (auto simp: algebra_simps)
  then have "(x + (d - 1)) div d \<le> q" by linarith
  then show "(x + (d - 1)) div d * d \<le> r" unfolding r mult.commute [of d q] by (rule mult_le_mono1)
qed

definition zero_area :: "u64 list \<Rightarrow> nat \<Rightarrow> nat \<Rightarrow> nat \<Rightarrow> nat \<Rightarrow> nat \<Rightarrow> bool" where
  "zero_area mp sz start nr al r \<longleftrightarrow> start \<le> r \<and> al dvd r \<and> r + nr \<le> sz \<and> (\<forall>i. r \<le> i \<longrightarrow> i < r + nr \<longrightarrow> \<not> bm_bit mp i)"

lemma align_below:
  assumes "k < 64" "x \<le> 2 ^ 63"
  shows "(x + (2 ^ k - 1)) div 2 ^ k * 2 ^ k \<le> (2::nat) ^ 63"
proof (rule align_up(4))
  show "(2::nat) ^ k dvd 2 ^ 63" using assms(1) by (intro le_imp_power_dvd) simp
qed (use assms(2) in simp_all)

lemma zero_area_ok:
  assumes "sz \<le> BITS_PER_LONG * length mp" "k < 64" "0 < nr" "sz < 2 ^ 63"
  shows "yields (bitmap_find_next_zero_area mp sz start nr (mask k))
    (\<lambda>r. (r \<le> sz \<longrightarrow> zero_area mp sz start (unat nr) (2 ^ k) r) \<and>
      (\<forall>r'. zero_area mp sz start (unat nr) (2 ^ k) r' \<longrightarrow> r \<le> r'))"
proof (induction "sz - start" arbitrary: start rule: less_induct)
  case less
  let ?d = "(2::nat) ^ k" and ?n = "unat nr"
  have n: "0 < ?n" "?n < 2 ^ 32" using assms(3) unsigned_less [of nr] by (auto simp: word_less_nat_alt)
  from find_next_zero_bit_min [OF assms(1), of start] obtain x where
    x: "find_next_zero_bit mp sz start = Some x" "min start sz \<le> x" "x \<le> sz"
      "\<And>i. start \<le> i \<Longrightarrow> i < x \<Longrightarrow> bm_bit mp i"
    by (auto simp: yields_def next_spec_def)
  define a where "a = (x + (?d - 1)) div ?d * ?d"
  have al: "ALIGN_MASK x (mask k) = a" using align_mask_nat [OF assms(2)] x(3) assms(4) by (simp add: a_def)
  have d: "0 < ?d" by simp
  note a = align_up [OF d, where x = x, folded a_def]
  have e: "(a + ?n) mod 18446744073709551616 = a + ?n"
    using align_below [OF assms(2), of x, folded a_def] x(3) assms(4) n(2) by (intro mod_less) simp
  have low: "a \<le> r" if "zero_area mp sz start ?n ?d r" for r
  proof -
    have "x \<le> r"
    proof (rule ccontr)
      assume "\<not> x \<le> r"
      then have "bm_bit mp r" using that x(4) by (simp add: zero_area_def)
      with that n(1) show False by (simp add: zero_area_def)
    qed
    with that a(4) show ?thesis by (simp add: zero_area_def)
  qed
  show ?case
  proof (cases "sz < a + ?n")
    case True
    have "\<not> zero_area mp sz start ?n ?d r" for r using low [of r] True by (auto simp: zero_area_def)
    with True show ?thesis by (subst bitmap_find_next_zero_area.simps) (simp add: x(1) al e Let_def)
  next
    case False
    then have "a + ?n \<le> BITS_PER_LONG * length mp" using assms(1) by linarith
    from find_next_bit_ok [OF this, of a] obtain i where
      i: "find_next_bit mp (a + ?n) a = Some i" "a \<le> i" "i \<le> a + ?n" "\<And>j. a \<le> j \<Longrightarrow> j < i \<Longrightarrow> \<not> bm_bit mp j"
        "i < a + ?n \<Longrightarrow> bm_bit mp i"
      by (auto simp: yields_def next_spec_def)
    show ?thesis
    proof (cases "i < a + ?n")
      case True
      have st: "start < i + 1" using x(2) a(1) i(2,3) True False n(1) by linarith
      have eq: "zero_area mp sz start ?n ?d r \<longleftrightarrow> zero_area mp sz (i + 1) ?n ?d r" for r
      proof -
        have "i + 1 \<le> r" if z: "zero_area mp sz start ?n ?d r"
        proof (rule ccontr)
          assume "\<not> i + 1 \<le> r"
          then have "r \<le> i" "i < r + ?n" using low [OF z] True by auto
          with z i(5) True show False by (auto simp: zero_area_def)
        qed
        then show ?thesis using st by (auto simp: zero_area_def)
      qed
      have "yields (bitmap_find_next_zero_area mp sz (i + 1) nr (mask k))
          (\<lambda>r. (r \<le> sz \<longrightarrow> zero_area mp sz (i + 1) ?n ?d r) \<and> (\<forall>r'. zero_area mp sz (i + 1) ?n ?d r' \<longrightarrow> r \<le> r'))"
        using True False st by (intro less.hyps) linarith
      with True False show ?thesis
        by (subst bitmap_find_next_zero_area.simps) (simp add: x(1) al e i(1) Let_def eq)
    next
      case none: False
      then have "zero_area mp sz start ?n ?d a" using False x(2) a(1,2) i(3,4) n(1) by (auto simp: zero_area_def)
      with none False low show ?thesis
        by (subst bitmap_find_next_zero_area.simps) (simp add: x(1) al e i(1) Let_def)
    qed
  qed
qed

subsection \<open>Bit fields\<close>

lemma extract_deposit32:
  assumes "0 < len" "len + start \<le> 32"
  shows "\<exists>w. deposit32 v start len x = Some w \<and> extract32 w start len = Some (x AND mask len) \<and>
    (\<forall>k<32. k < start \<or> start + len \<le> k \<longrightarrow> bit w k = bit v k)"
  using assms by (auto simp: deposit32_def extract32_def Let_def bit_simps intro!: bit_word_eqI)

lemma extract_deposit64:
  assumes "0 < len" "len + start \<le> 64"
  shows "\<exists>w. deposit64 v start len x = Some w \<and> extract64 w start len = Some (x AND mask len) \<and>
    (\<forall>k<64. k < start \<or> start + len \<le> k \<longrightarrow> bit w k = bit v k)"
  using assms by (auto simp: deposit64_def extract64_def Let_def bit_simps intro!: bit_word_eqI)

subsection \<open>Properties\<close>

text \<open>C8: the bit searches. On every bitmap, for every size within it and every offset, the word-wise searches stay
  within the bitmap and return what a bit-by-bit search does: \<open>find_next_bit\<close> and \<open>find_next_zero_bit\<close> the least set
  or clear bit from the offset on and below the size, \<open>find_last_bit\<close> the greatest set bit below the size; all of
  them the size if there is none. An offset beyond the size counts as the size, so that the searches return it.\<close>

theorem bit_search_correct:
  assumes "sz \<le> BITS_PER_LONG * length addr"
  shows "yields (find_next_bit addr sz offset) (next_spec (bm_bit addr) sz (min offset sz)) \<and>
    yields (find_next_zero_bit addr sz offset) (next_spec (\<lambda>i. \<not> bm_bit addr i) sz (min offset sz)) \<and>
    yields (find_last_bit addr sz) (last_spec (bm_bit addr) sz)"
  using find_next_bit_min [OF assms] find_next_zero_bit_min [OF assms] find_last_bit_ok [OF assms] by blast

theorem bit_search_correct_witness:
  "yields (find_next_bit [0x10, 0, 0, 0, 0, 0, 2] 447 5) (next_spec (bm_bit [0x10, 0, 0, 0, 0, 0, 2]) 447 (min 5 447)) \<and>
   find_next_bit [0x10, 0, 0, 0, 0, 0, 2] 447 5 = Some 385 \<and>
   find_next_zero_bit [0x10, 0, 0, 0, 0, 0, 2] 447 4 = Some 5 \<and>
   find_last_bit [0x10, 0, 0, 0, 0, 0, 2] 447 = Some 385"
proof (intro conjI)
  have "447 \<le> BITS_PER_LONG * length [0x10, 0, 0, 0, 0, 0, 2 :: u64]" by simp
  from bit_search_correct [OF this, of 5]
  show "yields (find_next_bit [0x10, 0, 0, 0, 0, 0, 2] 447 5) (next_spec (bm_bit [0x10, 0, 0, 0, 0, 0, 2]) 447 (min 5 447))" by blast
  show "find_next_bit [0x10, 0, 0, 0, 0, 0, 2] 447 5 = Some 385" by code_simp
  show "find_next_zero_bit [0x10, 0, 0, 0, 0, 0, 2] 447 4 = Some 5" by code_simp
  show "find_last_bit [0x10, 0, 0, 0, 0, 0, 2] 447 = Some 385" by code_simp
qed

text \<open>C27: setting and clearing a range. For a non-negative start and count whose range lies within the bitmap and
  ends below \<open>2\<^sup>3\<^sup>1\<close>, \<open>bitmap_set\<close> and \<open>bitmap_clear\<close> give exactly the bits of the range the new value, keep every
  other bit and stay within the bitmap, the empty range at its end included. A range that ends at \<open>2\<^sup>3\<^sup>1\<close> or beyond
  is not supported on any bitmap: the end overflows an \<open>int\<close>, which is undefined.\<close>

theorem bitmap_range_correct:
  assumes "0 \<le> start" "0 \<le> nr" "start + nr \<le> int (BITS_PER_LONG * length mp)"
  shows "(start + nr < 2 ^ 31 \<longrightarrow> (\<exists>a b. bitmap_set mp start nr = Some a \<and> bitmap_clear mp start nr = Some b \<and>
      length a = length mp \<and> length b = length mp \<and>
      (\<forall>i. bm_bit a i \<longleftrightarrow> bm_bit mp i \<or> start \<le> int i \<and> int i < start + nr) \<and>
      (\<forall>i. bm_bit b i \<longleftrightarrow> bm_bit mp i \<and> \<not> (start \<le> int i \<and> int i < start + nr)))) \<and>
    (2 ^ 31 \<le> start + nr \<longrightarrow> bitmap_set mp start nr = None \<and> bitmap_clear mp start nr = None)"
proof -
  from assms(1,2) obtain a n where e: "start = int a" "nr = int n" by (metis zero_le_imp_eq_int)
  have i: "int a \<le> int j \<and> int j < int a + int n \<longleftrightarrow> a \<le> j \<and> j < a + n" for j by linarith
  have "\<exists>x y. bitmap_set mp start nr = Some x \<and> bitmap_clear mp start nr = Some y \<and>
      range_put mp True a (a + n) x \<and> range_put mp False a (a + n) y" if "start + nr < 2 ^ 31"
    using bitmap_set_clear_ok [of a n mp] assms(3) that unfolding e by (auto simp: yields_def)
  then show ?thesis using bitmap_range_overflow [of start nr mp] unfolding e i range_put_def by auto
qed

theorem bitmap_range_correct_witness:
  "\<exists>a. bitmap_set [0, 0, 0] 60 80 = Some a \<and> length a = 3 \<and>
    (\<forall>i. bm_bit a i \<longleftrightarrow> bm_bit [0, 0, 0] i \<or> 60 \<le> int i \<and> int i < 140)"
  using bitmap_range_correct [of 60 80 "[0, 0, 0]"] by auto

text \<open>C15: the search for an aligned area of clear bits ends, for every non-empty area (its length an \<open>unsigned int\<close>),
  every start and every alignment that is a power of two up to \<open>2\<^sup>6\<^sup>3\<close>, in a bitmap of less than \<open>2\<^sup>6\<^sup>3\<close> bits, and returns
  the first such area from the start on that lies within the size; if there is none, as for a start beyond the size,
  it returns a number beyond the size.\<close>

theorem bitmap_zero_area_first:
  assumes "sz \<le> BITS_PER_LONG * length mp" "sz < 2 ^ 63" "k < 64" "0 < nr"
  shows "\<exists>r. bitmap_find_next_zero_area mp sz start nr (mask k) = Some r \<and>
    (r \<le> sz \<longrightarrow> zero_area mp sz start (unat nr) (2 ^ k) r) \<and>
    (\<forall>r'. zero_area mp sz start (unat nr) (2 ^ k) r' \<longrightarrow> r \<le> r')"
  using zero_area_ok [OF assms(1,3,4,2)] by (auto simp: yields_def)

theorem bitmap_zero_area_first_witness:
  "\<exists>r. bitmap_find_next_zero_area [0xf0f, 0] 128 0 5 (mask 2) = Some r \<and> (r \<le> 128 \<longrightarrow> zero_area [0xf0f, 0] 128 0 5 4 r)"
  using bitmap_zero_area_first [of 128 "[0xf0f, 0]" 2 5 0] by auto

end
