(* ===== verification/SdCard.thy ===== *)
theory SdCard
  imports Bitmap Interfaces
begin

text \<open>
  The SD memory card, \<^verbatim>\<open>hw/sd/sd.c\<close>: its registers, the command interpreter, the data phases and
  the transfers to the block device behind it.

  The block layer is a parameter, a record of the functions the card calls (\<open>bdrv_ops\<close>): the geometry, whether a
  medium is inserted and read-only, and the transfer of one sector. A read returns whether it succeeded and the
  512 bytes the buffer holds afterwards; a write whether it succeeded and the new device. The arrays of the card are
  lists with checked accesses: \<open>None\<close> is an access outside an array, or the shift by 32 of \<open>CMD8\<close>. The card is
  modelled for media below \<open>2 ^ 52\<close> bytes, for which the number of write protection groups fits its \<open>int32_t\<close>, and
  on a little endian host, which shows in the two registers stored through a \<open>uint32_t\<close> pointer and in
  \<open>sd_crc16\<close>.
\<close>

record 'b bdrv_ops =
  bdrv_get_geometry :: "'b \<Rightarrow> u64"
  bdrv_is_read_only :: "'b \<Rightarrow> bool"
  bdrv_is_inserted :: "'b \<Rightarrow> bool"
  bdrv_read :: "'b \<Rightarrow> u64 \<Rightarrow> bool \<times> u8 list"
  bdrv_write :: "'b \<Rightarrow> u64 \<Rightarrow> u8 list \<Rightarrow> bool \<times> 'b"

datatype sd_rsp_type = sd_r0 | sd_r1 | sd_r2_i | sd_r2_s | sd_r3 | sd_r6 | sd_r7 | sd_r1b | sd_illegal

datatype SDCardModes = sd_inactive | sd_card_identification_mode | sd_data_transfer_mode

datatype SDCardStates = sd_inactive_state | sd_idle_state | sd_ready_state | sd_identification_state
  | sd_standby_state | sd_transfer_state | sd_sendingdata_state | sd_receivingdata_state
  | sd_programming_state | sd_disconnect_state

datatype sd_cmd_type_t = sd_none | sd_bc | sd_bcr | sd_ac | sd_adtc

record SDRequest =
  rq_cmd :: u8
  rq_arg :: u32
  rq_crc :: u8

record 'b SDState =
  sd_mode :: SDCardModes
  sd_state :: SDCardStates
  sd_ocr :: u32
  sd_scr :: "u8 list"
  sd_cid :: "u8 list"
  sd_csd :: "u8 list"
  sd_rca :: u16
  sd_card_status :: u32
  sd_sd_status :: "u8 list"
  sd_vhs :: u32
  sd_wp_switch :: bool
  sd_wp_groups :: "u64 list"
  sd_wpgrps_size :: nat
  sd_size :: u64
  sd_blk_len :: u32
  sd_erase_start :: u32
  sd_erase_end :: u32
  sd_pwd :: "u8 list"
  sd_pwd_len :: u32
  sd_function_group :: "u8 list"
  sd_spi :: bool
  sd_current_cmd :: u8
  sd_expecting_acmd :: bool
  sd_blk_written :: u32
  sd_data_start :: u64
  sd_data_offset :: u32
  sd_data :: "u8 list"
  sd_readonly_cb :: bool
  sd_inserted_cb :: bool
  sd_bdrv :: "'b option"
  sd_buf :: "u8 list"
  sd_enable :: bool

abbreviation OUT_OF_RANGE :: u32 where "OUT_OF_RANGE \<equiv> 0x80000000"
abbreviation ADDRESS_ERROR :: u32 where "ADDRESS_ERROR \<equiv> 0x40000000"
abbreviation BLOCK_LEN_ERROR :: u32 where "BLOCK_LEN_ERROR \<equiv> 0x20000000"
abbreviation ERASE_SEQ_ERROR :: u32 where "ERASE_SEQ_ERROR \<equiv> 0x10000000"
abbreviation ERASE_PARAM :: u32 where "ERASE_PARAM \<equiv> 0x08000000"
abbreviation WP_VIOLATION :: u32 where "WP_VIOLATION \<equiv> 0x04000000"
abbreviation CARD_IS_LOCKED :: u32 where "CARD_IS_LOCKED \<equiv> 0x02000000"
abbreviation LOCK_UNLOCK_FAILED :: u32 where "LOCK_UNLOCK_FAILED \<equiv> 0x01000000"
abbreviation COM_CRC_ERROR :: u32 where "COM_CRC_ERROR \<equiv> 0x00800000"
abbreviation ILLEGAL_COMMAND :: u32 where "ILLEGAL_COMMAND \<equiv> 0x00400000"
abbreviation CARD_ECC_FAILED :: u32 where "CARD_ECC_FAILED \<equiv> 0x00200000"
abbreviation CC_ERROR :: u32 where "CC_ERROR \<equiv> 0x00100000"
abbreviation SD_ERROR :: u32 where "SD_ERROR \<equiv> 0x00080000"
abbreviation CID_CSD_OVERWRITE :: u32 where "CID_CSD_OVERWRITE \<equiv> 0x00010000"
abbreviation WP_ERASE_SKIP :: u32 where "WP_ERASE_SKIP \<equiv> 0x00008000"
abbreviation ERASE_RESET :: u32 where "ERASE_RESET \<equiv> 0x00002000"
abbreviation CURRENT_STATE :: u32 where "CURRENT_STATE \<equiv> 0x00000e00"
abbreviation APP_CMD :: u32 where "APP_CMD \<equiv> 0x00000020"
abbreviation CARD_STATUS_B :: u32 where "CARD_STATUS_B \<equiv> 0x00c01e00"
abbreviation CARD_STATUS_C :: u32 where "CARD_STATUS_C \<equiv> 0xfd39a028"

definition memcpy :: "'a list \<Rightarrow> nat \<Rightarrow> 'a list \<Rightarrow> nat \<Rightarrow> nat \<Rightarrow> 'a list option" where
  "memcpy dst d src so n =
    (if d + n \<le> length dst \<and> so + n \<le> length src
     then Some (take d dst @ take n (drop so src) @ drop (d + n) dst) else None)"

definition memcmp :: "'a list \<Rightarrow> nat \<Rightarrow> 'a list \<Rightarrow> nat \<Rightarrow> nat \<Rightarrow> bool option" where
  "memcmp a i b j n =
    (if i + n \<le> length a \<and> j + n \<le> length b then Some (take n (drop i a) \<noteq> take n (drop j b)) else None)"

subsection \<open>Tables and registers\<close>

definition sd_set_mode :: "'b SDState \<Rightarrow> 'b SDState" where
  "sd_set_mode sd = sd\<lparr>sd_mode :=
    (case sd_state sd of
       sd_inactive_state \<Rightarrow> sd_inactive
     | sd_idle_state \<Rightarrow> sd_card_identification_mode
     | sd_ready_state \<Rightarrow> sd_card_identification_mode
     | sd_identification_state \<Rightarrow> sd_card_identification_mode
     | _ \<Rightarrow> sd_data_transfer_mode)\<rparr>"

definition sd_cmd_type :: "sd_cmd_type_t list" where
  "sd_cmd_type =
    [sd_bc,   sd_none, sd_bcr,  sd_bcr,  sd_none, sd_none, sd_none, sd_ac,
     sd_bcr,  sd_ac,   sd_ac,   sd_adtc, sd_ac,   sd_ac,   sd_none, sd_ac,
     sd_ac,   sd_adtc, sd_adtc, sd_none, sd_none, sd_none, sd_none, sd_none,
     sd_adtc, sd_adtc, sd_adtc, sd_adtc, sd_ac,   sd_ac,   sd_adtc, sd_none,
     sd_ac,   sd_ac,   sd_none, sd_none, sd_none, sd_none, sd_ac,   sd_none,
     sd_none, sd_none, sd_bc,   sd_none, sd_none, sd_none, sd_none, sd_none,
     sd_none, sd_none, sd_none, sd_none, sd_none, sd_none, sd_none, sd_ac,
     sd_adtc, sd_none, sd_none, sd_none, sd_none, sd_none, sd_none, sd_none]"

definition sd_cmd_class :: "nat list" where
  "sd_cmd_class =
    [0,  0,  0,  0,  0,  9, 10,  0,  0,  0,  0,  1,  0,  0,  0,  0,
     2,  2,  2,  2,  3,  3,  3,  3,  4,  4,  4,  4,  6,  6,  6,  6,
     5,  5, 10, 10, 10, 10,  5,  9,  9,  9,  7,  7,  7,  7,  7,  7,
     7,  7, 10,  7,  9,  9,  9,  8,  8, 10,  8,  8,  8,  8,  8,  8]"

definition crc7_bit :: "u8 \<Rightarrow> u8 \<Rightarrow> nat \<Rightarrow> u8" where
  "crc7_bit msg shift_reg i =
    (let shift_reg = push_bit 1 shift_reg
     in if drop_bit 7 shift_reg XOR (drop_bit i msg AND 1) \<noteq> 0 then shift_reg XOR 0x89 else shift_reg)"

definition sd_crc7 :: "u8 list \<Rightarrow> u8" where
  "sd_crc7 message = foldl (\<lambda>r msg. foldl (crc7_bit msg) r [7, 6, 5, 4, 3, 2, 1, 0]) 0 message"

definition crc16_bit :: "u16 \<Rightarrow> u16 \<Rightarrow> nat \<Rightarrow> u16" where
  "crc16_bit msg shift_reg i =
    (let shift_reg = push_bit 1 shift_reg
     in if drop_bit 15 shift_reg XOR (drop_bit i msg AND 1) \<noteq> 0 then shift_reg XOR 0x1011 else shift_reg)"

definition le16 :: "u8 list \<Rightarrow> nat \<Rightarrow> u16 option" where
  "le16 xs i = do { a \<leftarrow> nth_opt xs i; b \<leftarrow> nth_opt xs (i + 1); Some (ucast a OR push_bit 8 (ucast b)) }"

definition sd_crc16 :: "u8 list \<Rightarrow> nat \<Rightarrow> u16 option" where
  "sd_crc16 message width =
    exec_list (\<lambda>r i. do { msg \<leftarrow> le16 message (2 * i); Some (foldl (crc16_bit msg) r (rev [0..<16])) })
      0 [0..<2 * width]"

definition sd_set_scr :: "u8 list" where
  "sd_set_scr = [0x00, 0x2f, 0x00, 0x00, 0x00, 0x00, 0x00, 0x00]"

definition sd_set_cid :: "u8 list" where
  "sd_set_cid =
    (let c = [0xaa, 0x58, 0x59, 0x51, 0x45, 0x4d, 0x55, 0x21, 0x01, 0xde, 0xad, 0xbe, 0xef, 0x00, 0x62]
     in c @ [push_bit 1 (sd_crc7 c) OR 1])"

definition sd_csd_rw_mask :: "u8 list" where
  "sd_csd_rw_mask = [0, 0, 0, 0, 0, 0, 0, 0, 0, 0, 0, 0, 0, 0, 0xfc, 0xfe]"

definition sd_set_csd :: "u64 \<Rightarrow> u32 \<Rightarrow> u8 list \<times> u32" where
  "sd_set_csd sz ocr =
    (let csize = ucast (drop_bit 18 sz - 1) :: u32; sectsize = 63 :: u32; wpsize = 255 :: u32 in
     if sz \<le> 0x40000000 then
       let c = [0x00, 0x26, 0x00, 0x5a, 0x5f, 0x50 OR 9,
                0xe0 OR ucast (drop_bit 10 csize AND 0x03),
                ucast (drop_bit 2 csize AND 0xff),
                0x3f OR ucast (push_bit 6 csize AND 0xc0),
                0xfc OR 3, 0x40 OR 0x80 OR ucast (drop_bit 1 sectsize),
                ucast (push_bit 7 sectsize AND 0x80) OR ucast wpsize,
                0x90 OR 2, 0x20 OR 0x40, 0x00]
       in (c @ [push_bit 1 (sd_crc7 c) OR 1], ocr)
     else let n = sz div (512 * 1024) - 1 in
       ([0x40, 0x0e, 0x00, 0x32, 0x5b, 0x59, 0x00, ucast (drop_bit 16 n AND 0xff), ucast (drop_bit 8 n AND 0xff),
         ucast (n AND 0xff), 0x7f, 0x80, 0x0a, 0x40, 0x00, 0x00], ocr OR 0x40000000))"

definition be32_bytes :: "u32 \<Rightarrow> u8 list" where
  "be32_bytes w = [ucast (drop_bit 24 w AND 0xff), ucast (drop_bit 16 w AND 0xff),
     ucast (drop_bit 8 w AND 0xff), ucast (w AND 0xff)]"

definition le32_bytes :: "u32 \<Rightarrow> u8 list" where
  "le32_bytes w = [ucast w, ucast (drop_bit 8 w), ucast (drop_bit 16 w), ucast (drop_bit 24 w)]"

definition sd_req_crc_validate :: "SDRequest \<Rightarrow> bool" where
  "sd_req_crc_validate req = False"

definition sd_response_r1_make :: "'b SDState \<Rightarrow> u8 list \<times> 'b SDState" where
  "sd_response_r1_make sd =
    (be32_bytes (sd_card_status sd), sd\<lparr>sd_card_status := sd_card_status sd AND NOT CARD_STATUS_C\<rparr>)"

definition sd_response_r3_make :: "'b SDState \<Rightarrow> u8 list" where
  "sd_response_r3_make sd = be32_bytes (sd_ocr sd)"

definition sd_response_r6_make :: "'b SDState \<Rightarrow> u8 list \<times> 'b SDState" where
  "sd_response_r6_make sd =
    (let arg = sd_rca sd; cs = sd_card_status sd;
         status = ucast ((drop_bit 8 cs AND 0xc000) OR (drop_bit 6 cs AND 0x2000) OR (cs AND 0x1fff)) :: u16
     in ([ucast (drop_bit 8 arg AND 0xff), ucast (arg AND 0xff), ucast (drop_bit 8 status AND 0xff), ucast (status AND 0xff)],
         sd\<lparr>sd_card_status := cs AND NOT (CARD_STATUS_C AND 0xc81fff)\<rparr>))"

definition sd_response_r7_make :: "'b SDState \<Rightarrow> u8 list" where
  "sd_response_r7_make sd = be32_bytes (sd_vhs sd)"

definition sd_addr_to_wpnum :: "u64 \<Rightarrow> u64" where
  "sd_addr_to_wpnum addr = drop_bit 21 addr"

definition sd_reset :: "'b bdrv_ops \<Rightarrow> 'b SDState \<Rightarrow> 'b option \<Rightarrow> 'b SDState" where
  "sd_reset B sd bdrv =
    (let sz = push_bit 9 (case bdrv of None \<Rightarrow> 0 | Some b \<Rightarrow> bdrv_get_geometry B b);
         n = unat (sd_addr_to_wpnum sz + 1);
         (csd, ocr) = sd_set_csd sz 0x80ffff00
     in sd\<lparr>sd_state := sd_idle_state, sd_rca := 0, sd_ocr := ocr, sd_scr := sd_set_scr, sd_cid := sd_set_cid,
           sd_csd := csd, sd_card_status := 0x00000100, sd_sd_status := replicate 64 0, sd_bdrv := bdrv,
           sd_wp_switch := (case bdrv of None \<Rightarrow> False | Some b \<Rightarrow> bdrv_is_read_only B b),
           sd_wpgrps_size := n, sd_wp_groups := bitmap_new n, sd_function_group := replicate 6 0,
           sd_erase_start := 0, sd_erase_end := 0, sd_size := sz, sd_blk_len := 0x200, sd_pwd_len := 0,
           sd_expecting_acmd := False\<rparr>)"

definition sd_cardchange :: "'b bdrv_ops \<Rightarrow> 'b SDState \<Rightarrow> 'b SDState option" where
  "sd_cardchange B sd =
    do { b \<leftarrow> sd_bdrv sd;
         let ins = bdrv_is_inserted B b;
         let sd = sd\<lparr>sd_inserted_cb := ins\<rparr>;
         Some (if ins then let sd = sd_reset B sd (Some b) in sd\<lparr>sd_readonly_cb := sd_wp_switch sd\<rparr> else sd) }"

definition sd_zero :: "'b SDState" where
  "sd_zero = \<lparr>sd_mode = sd_inactive, sd_state = sd_idle_state, sd_ocr = 0, sd_scr = replicate 8 0,
     sd_cid = replicate 16 0, sd_csd = replicate 16 0, sd_rca = 0, sd_card_status = 0,
     sd_sd_status = replicate 64 0, sd_vhs = 0, sd_wp_switch = False, sd_wp_groups = [], sd_wpgrps_size = 0,
     sd_size = 0, sd_blk_len = 0, sd_erase_start = 0, sd_erase_end = 0, sd_pwd = replicate 16 0, sd_pwd_len = 0,
     sd_function_group = replicate 6 0, sd_spi = False, sd_current_cmd = 0, sd_expecting_acmd = False,
     sd_blk_written = 0, sd_data_start = 0, sd_data_offset = 0, sd_data = replicate 512 0, sd_readonly_cb = False,
     sd_inserted_cb = False, sd_bdrv = None, sd_buf = replicate 512 0, sd_enable = False\<rparr>"

definition sd_init :: "'b bdrv_ops \<Rightarrow> 'b option \<Rightarrow> bool \<Rightarrow> 'b SDState" where
  "sd_init B bs is_spi = sd_reset B (sd_zero\<lparr>sd_spi := is_spi, sd_enable := True\<rparr>) bs"

definition sd_set_cb :: "'b bdrv_ops \<Rightarrow> 'b SDState \<Rightarrow> 'b SDState" where
  "sd_set_cb B sd = sd\<lparr>
     sd_readonly_cb := (case sd_bdrv sd of None \<Rightarrow> False | Some b \<Rightarrow> bdrv_is_read_only B b),
     sd_inserted_cb := (case sd_bdrv sd of None \<Rightarrow> False | Some b \<Rightarrow> bdrv_is_inserted B b)\<rparr>"

subsection \<open>Erase, write protection, function switch and lock\<close>

definition sd_add_status :: "u32 \<Rightarrow> 'b SDState \<Rightarrow> 'b SDState" where
  "sd_add_status m sd = sd\<lparr>sd_card_status := sd_card_status sd OR m\<rparr>"

definition sd_erase :: "'b SDState \<Rightarrow> 'b SDState option" where
  "sd_erase sd =
    (let erase_start = ucast (sd_erase_start sd) :: u64; erase_end = ucast (sd_erase_end sd) :: u64 in
     if sd_erase_start sd = 0 \<or> sd_erase_end sd = 0 then Some (sd_add_status ERASE_SEQ_ERROR sd)
     else let hc = bit (sd_ocr sd) 30;
              erase_start = sd_addr_to_wpnum (if hc then erase_start * 512 else erase_start);
              erase_end = sd_addr_to_wpnum (if hc then erase_end * 512 else erase_end)
       in do { c \<leftarrow> nth_opt (sd_csd sd) 14;
               let sd = sd\<lparr>sd_erase_start := 0, sd_erase_end := 0, sd_csd := (sd_csd sd)[14 := c OR 0x40]\<rparr>;
               exec_list (\<lambda>sd i. do { b \<leftarrow> test_bit i (sd_wp_groups sd);
                                      Some (if b then sd_add_status WP_ERASE_SKIP sd else sd) })
                 sd [unat erase_start..<Suc (unat erase_end)] })"

definition sd_wpbit :: "'b SDState \<Rightarrow> u64 \<Rightarrow> u32 \<Rightarrow> nat \<Rightarrow> u32 option" where
  "sd_wpbit sd addr ret i =
    (let a = addr + of_nat i * 0x200000 in
     if a < sd_size sd then
       do { b \<leftarrow> test_bit (unat (ucast (sd_addr_to_wpnum addr) + of_nat i :: u32)) (sd_wp_groups sd);
            Some (or_if b (push_bit i 1) ret) }
     else Some ret)"

definition sd_wpbits :: "'b SDState \<Rightarrow> u64 \<Rightarrow> u32 option" where
  "sd_wpbits sd addr = exec_list (sd_wpbit sd addr) 0 [0..<32]"

definition sd_switch_group :: "u32 \<Rightarrow> 'b SDState \<Rightarrow> nat \<Rightarrow> 'b SDState option" where
  "sd_switch_group arg sd i =
    (let new_func = drop_bit (i * 4) arg AND 0x0f in
     do { fg \<leftarrow> (if bit arg 31 \<and> new_func \<noteq> 0x0f then set_opt (sd_function_group sd) i (ucast new_func)
                else Some (sd_function_group sd));
          d \<leftarrow> set_opt (sd_data sd) (14 + i div 2) (ucast (push_bit (i mod 2 * 4) new_func));
          Some (sd\<lparr>sd_function_group := fg, sd_data := d\<rparr>) })"

definition sd_function_switch :: "'b SDState \<Rightarrow> u32 \<Rightarrow> 'b SDState option" where
  "sd_function_switch sd arg =
    do { d \<leftarrow> memcpy (sd_data sd) 0
           [0x00, 0x01, 0x80, 0x01, 0x80, 0x01, 0x80, 0x01, 0x80, 0x01, 0x80, 0x43, 0x80, 0x03] 0 14;
         sd \<leftarrow> exec_list (sd_switch_group arg) (sd\<lparr>sd_data := d\<rparr>) [0..<6];
         d \<leftarrow> memcpy (sd_data sd) 17 (replicate 47 0) 0 47;
         crc \<leftarrow> sd_crc16 d 64;
         d \<leftarrow> set_opt d 65 (ucast (drop_bit 8 crc));
         d \<leftarrow> set_opt d 66 (ucast (crc AND 0xff));
         Some (sd\<lparr>sd_data := d\<rparr>) }"

definition sd_wp_addr :: "'b SDState \<Rightarrow> u64 \<Rightarrow> bool option" where
  "sd_wp_addr sd addr = test_bit (unat (sd_addr_to_wpnum addr)) (sd_wp_groups sd)"

definition sd_lock_command :: "'b SDState \<Rightarrow> 'b SDState option" where
  "sd_lock_command sd =
    do { d0 \<leftarrow> nth_opt (sd_data sd) 0;
         d1 \<leftarrow> nth_opt (sd_data sd) 1;
         c14 \<leftarrow> nth_opt (sd_csd sd) 14;
         let erase = bit d0 3;
         let lock = bit d0 2;
         let clr_pwd = bit d0 1;
         let set_pwd = bit d0 0;
         let pwd_len = (if sd_blk_len sd > 1 then ucast d1 else 0 :: u32);
         let locked = (sd_card_status sd AND CARD_IS_LOCKED \<noteq> 0);
         let failed = Some (sd_add_status LOCK_UNLOCK_FAILED sd);
         if erase then
           if \<not> locked \<or> sd_blk_len sd > 1 \<or> set_pwd \<or> clr_pwd \<or> lock \<or> sd_wp_switch sd \<or> c14 AND 0x20 \<noteq> 0 then failed
           else do { w \<leftarrow> bitmap_zero (sd_wp_groups sd) (sd_wpgrps_size sd);
                     Some (sd\<lparr>sd_wp_groups := w, sd_csd := (sd_csd sd)[14 := c14 AND NOT 0x10],
                              sd_card_status := sd_card_status sd AND NOT CARD_IS_LOCKED, sd_pwd_len := 0\<rparr>) }
         else if sd_blk_len sd < 2 + pwd_len \<or> pwd_len \<le> sd_pwd_len sd \<or> pwd_len > sd_pwd_len sd + 16 then failed
         else do {
           differ \<leftarrow> memcmp (sd_pwd sd) 0 (sd_data sd) 2 (unat (sd_pwd_len sd));
           let n = pwd_len - sd_pwd_len sd;
           if sd_pwd_len sd \<noteq> 0 \<and> differ then failed
           else if (n \<noteq> 0 \<and> \<not> set_pwd) \<or> (clr_pwd \<and> (set_pwd \<or> lock)) \<or> (lock \<and> sd_pwd_len sd = 0 \<and> \<not> set_pwd) \<or>
              (\<not> set_pwd \<and> \<not> clr_pwd \<and> ((locked \<and> lock) \<or> (\<not> locked \<and> \<not> lock))) then failed
           else do {
             sd \<leftarrow> (if set_pwd then
                      do { p \<leftarrow> memcpy (sd_pwd sd) 0 (sd_data sd) (2 + unat (sd_pwd_len sd)) (unat n);
                           Some (sd\<lparr>sd_pwd := p, sd_pwd_len := n\<rparr>) }
                    else Some sd);
             let sd = (if clr_pwd then sd\<lparr>sd_pwd_len := 0\<rparr> else sd);
             Some (if lock then sd_add_status CARD_IS_LOCKED sd
                   else sd\<lparr>sd_card_status := sd_card_status sd AND NOT CARD_IS_LOCKED\<rparr>) } } }"

subsection \<open>The command interpreter\<close>

definition ffs :: "u32 \<Rightarrow> nat" where
  "ffs x = (if x = 0 then 0 else ctz32 x + 1)"

definition sd_to :: "SDCardStates \<Rightarrow> 'b SDState \<Rightarrow> 'b SDState" where
  "sd_to st sd = sd\<lparr>sd_state := st\<rparr>"

definition sd_start_data :: "SDCardStates \<Rightarrow> u64 \<Rightarrow> 'b SDState \<Rightarrow> 'b SDState" where
  "sd_start_data st start sd = sd\<lparr>sd_state := st, sd_data_start := start, sd_data_offset := 0\<rparr>"

definition sd_check_range :: "'b SDState \<Rightarrow> 'b SDState" where
  "sd_check_range sd =
    (if sd_data_start sd + ucast (sd_blk_len sd) > sd_size sd then sd_add_status ADDRESS_ERROR sd else sd)"

definition sd_start_write :: "u64 \<Rightarrow> 'b SDState \<Rightarrow> 'b SDState option" where
  "sd_start_write addr sd =
    (let sd = sd_check_range ((sd_start_data sd_receivingdata_state addr sd)\<lparr>sd_blk_written := 0\<rparr>) in
     do { wp \<leftarrow> sd_wp_addr sd (sd_data_start sd);
          c \<leftarrow> nth_opt (sd_csd sd) 14;
          let sd = (if wp then sd_add_status WP_VIOLATION sd else sd);
          Some (if c AND 0x30 \<noteq> 0 then sd_add_status WP_VIOLATION sd else sd) })"

text \<open>\<open>CMD0\<close> to \<open>CMD7\<close>: reset, identification and selection.\<close>

definition sd_init_command ::
  "'b bdrv_ops \<Rightarrow> 'b SDState \<Rightarrow> nat \<Rightarrow> u32 \<Rightarrow> u32 \<Rightarrow> (sd_rsp_type \<times> 'b SDState) option"
where
  "sd_init_command B sd cmd arg rca =
    (let st = sd_state sd; illegal = Some (sd_illegal, sd); mine = (ucast (sd_rca sd) = rca) in
     if cmd = 0 then
       Some (if sd_spi sd then sd_r1 else sd_r0,
             if st = sd_inactive_state then sd else sd_reset B (sd_to sd_idle_state sd) (sd_bdrv sd))
     else if cmd = 1 then
       if \<not> sd_spi sd then illegal else Some (sd_r1, sd_to sd_transfer_state sd)
     else if cmd = 2 then
       if \<not> sd_spi sd \<and> st = sd_ready_state then Some (sd_r2_i, sd_to sd_identification_state sd) else illegal
     else if cmd = 3 then
       if \<not> sd_spi sd \<and> (st = sd_identification_state \<or> st = sd_standby_state)
       then Some (sd_r6, (sd_to sd_standby_state sd)\<lparr>sd_rca := sd_rca sd + 0x4567\<rparr>) else illegal
     else if cmd = 6 then
       if \<not> sd_spi sd \<and> sd_mode sd = sd_data_transfer_mode
       then do { sd \<leftarrow> sd_function_switch sd arg; Some (sd_r1, sd_start_data sd_sendingdata_state 0 sd) }
       else illegal
     else if cmd = 7 then
       if sd_spi sd then illegal
       else if st = sd_standby_state then
         Some (if mine then (sd_r1b, sd_to sd_transfer_state sd) else (sd_r0, sd))
       else if st = sd_transfer_state \<or> st = sd_sendingdata_state then
         if mine then illegal else Some (sd_r1b, sd_to sd_standby_state sd)
       else if st = sd_disconnect_state then
         Some (if mine then (sd_r1b, sd_to sd_programming_state sd) else (sd_r0, sd))
       else if st = sd_programming_state then
         if mine then illegal else Some (sd_r1b, sd_to sd_disconnect_state sd)
       else illegal
     else illegal)"

text \<open>\<open>CMD8\<close> to \<open>CMD15\<close>: the other basic commands.\<close>

definition sd_basic_command ::
  "'b SDState \<Rightarrow> nat \<Rightarrow> u32 \<Rightarrow> u64 \<Rightarrow> u32 \<Rightarrow> (sd_rsp_type \<times> 'b SDState) option"
where
  "sd_basic_command sd cmd arg addr rca =
    (let st = sd_state sd; illegal = Some (sd_illegal, sd); mine = (ucast (sd_rca sd) = rca) in
     if cmd = 8 then
       if st = sd_idle_state then
         let sd = sd\<lparr>sd_vhs := 0\<rparr>; none = Some (if sd_spi sd then sd_r7 else sd_r0, sd) in
         if drop_bit 8 arg = 0 then none
         else if ffs (arg AND NOT 0xff) \<ge> 32 then None
         else if drop_bit (ffs (arg AND NOT 0xff)) arg \<noteq> 0 then none
         else Some (sd_r7, sd\<lparr>sd_vhs := arg\<rparr>)
       else illegal
     else if cmd = 9 \<or> cmd = 10 then
       if st = sd_standby_state then
         Some (if mine then if cmd = 9 then sd_r2_s else sd_r2_i else sd_r0, sd)
       else if st = sd_transfer_state \<and> sd_spi sd then
         do { d \<leftarrow> memcpy (sd_data sd) 0 (if cmd = 9 then sd_csd sd else sd_cid sd) 0 16;
              Some (sd_r1, sd_start_data sd_sendingdata_state addr (sd\<lparr>sd_data := d\<rparr>)) }
       else illegal
     else if cmd = 11 then
       if \<not> sd_spi sd \<and> st = sd_transfer_state
       then Some (sd_r0, sd_check_range (sd_start_data sd_sendingdata_state (ucast arg) sd)) else illegal
     else if cmd = 12 then
       if st = sd_sendingdata_state \<or> st = sd_receivingdata_state then Some (sd_r1b, sd_to sd_transfer_state sd)
       else illegal
     else if cmd = 13 then
       if sd_mode sd = sd_data_transfer_mode then Some (if mine then sd_r1 else sd_r0, sd) else illegal
     else if cmd = 15 then
       if \<not> sd_spi sd \<and> sd_mode sd = sd_data_transfer_mode
       then Some (sd_r0, if mine then sd_to sd_inactive_state sd else sd) else illegal
     else illegal)"

text \<open>\<open>CMD16\<close> to \<open>CMD25\<close>: block transfers.\<close>

definition sd_block_command ::
  "'b SDState \<Rightarrow> nat \<Rightarrow> u32 \<Rightarrow> u64 \<Rightarrow> (sd_rsp_type \<times> 'b SDState) option"
where
  "sd_block_command sd cmd arg addr =
    (let illegal = Some (sd_illegal, sd) in
     if sd_state sd \<noteq> sd_transfer_state then illegal
     else if cmd = 16 then
       Some (sd_r1, if arg > 512 then sd_add_status BLOCK_LEN_ERROR sd else sd\<lparr>sd_blk_len := arg\<rparr>)
     else if cmd = 17 \<or> cmd = 18 then
       Some (sd_r1, sd_check_range (sd_start_data sd_sendingdata_state addr sd))
     else if cmd = 24 \<or> cmd = 25 then
       if sd_spi sd then illegal else do { sd \<leftarrow> sd_start_write addr sd; Some (sd_r1, sd) }
     else illegal)"

text \<open>\<open>CMD26\<close> to \<open>CMD30\<close>: programming the registers and the write protection.\<close>

definition sd_protect_command ::
  "'b SDState \<Rightarrow> nat \<Rightarrow> u32 \<Rightarrow> u64 \<Rightarrow> (sd_rsp_type \<times> 'b SDState) option"
where
  "sd_protect_command sd cmd arg addr =
    (let illegal = Some (sd_illegal, sd) in
     if sd_state sd \<noteq> sd_transfer_state then illegal
     else if cmd = 26 \<or> cmd = 27 then
       if sd_spi sd then illegal else Some (sd_r1, sd_start_data sd_receivingdata_state 0 sd)
     else if cmd = 28 \<or> cmd = 29 then
       if addr \<ge> sd_size sd then Some (sd_r1b, sd_add_status ADDRESS_ERROR sd)
       else do { w \<leftarrow> (if cmd = 28 then set_bit_map else clear_bit_map) (unat (sd_addr_to_wpnum addr)) (sd_wp_groups sd);
                 Some (sd_r1b, sd\<lparr>sd_wp_groups := w\<rparr>) }
     else if cmd = 30 then
       do { w \<leftarrow> sd_wpbits sd (ucast arg);
            d \<leftarrow> memcpy (sd_data sd) 0 (le32_bytes w) 0 4;
            Some (sd_r1b, sd_start_data sd_sendingdata_state addr (sd\<lparr>sd_data := d\<rparr>)) }
     else illegal)"

text \<open>\<open>CMD32\<close> to \<open>CMD56\<close>: erase, lock and application commands.\<close>

definition sd_other_command ::
  "'b SDState \<Rightarrow> nat \<Rightarrow> u32 \<Rightarrow> u32 \<Rightarrow> (sd_rsp_type \<times> 'b SDState) option"
where
  "sd_other_command sd cmd arg rca =
    (let illegal = Some (sd_illegal, sd) in
     if cmd = 55 then
       Some (if ucast (sd_rca sd) \<noteq> rca then (sd_r0, sd)
             else (sd_r1, sd_add_status APP_CMD (sd\<lparr>sd_expecting_acmd := True\<rparr>)))
     else if sd_state sd \<noteq> sd_transfer_state then illegal
     else if cmd = 32 then Some (sd_r1, sd\<lparr>sd_erase_start := arg\<rparr>)
     else if cmd = 33 then Some (sd_r1, sd\<lparr>sd_erase_end := arg\<rparr>)
     else if cmd = 38 then
       do { c \<leftarrow> nth_opt (sd_csd sd) 14;
            if c AND 0x30 \<noteq> 0 then Some (sd_r1b, sd_add_status WP_VIOLATION sd)
            else do { sd \<leftarrow> sd_erase (sd_to sd_programming_state sd); Some (sd_r1b, sd_to sd_transfer_state sd) } }
     else if cmd = 42 then
       if sd_spi sd then illegal else Some (sd_r1, sd_start_data sd_receivingdata_state 0 sd)
     else if cmd = 56 then
       Some (sd_r1, sd\<lparr>sd_data_offset := 0,
         sd_state := (if bit arg 0 then sd_sendingdata_state else sd_receivingdata_state)\<rparr>)
     else illegal)"

definition sd_normal_command :: "'b bdrv_ops \<Rightarrow> 'b SDState \<Rightarrow> SDRequest \<Rightarrow> (sd_rsp_type \<times> 'b SDState) option" where
  "sd_normal_command B sd req =
    (let cmd = unat (rq_cmd req); arg = rq_arg req;
         addr = (if bit (sd_ocr sd) 30 then push_bit 9 (ucast arg) else ucast arg);
         sd = sd\<lparr>sd_card_status := sd_card_status sd AND NOT APP_CMD\<rparr> in
     do { ty \<leftarrow> nth_opt sd_cmd_type cmd;
          let rca = (if ty = sd_ac \<or> ty = sd_adtc then drop_bit 16 arg else 0);
          if cmd < 8 then sd_init_command B sd cmd arg rca
          else if cmd < 16 then sd_basic_command sd cmd arg addr rca
          else if cmd < 26 then sd_block_command sd cmd arg addr
          else if cmd < 32 then sd_protect_command sd cmd arg addr
          else sd_other_command sd cmd arg rca })"

definition sd_app_command :: "'b bdrv_ops \<Rightarrow> 'b SDState \<Rightarrow> SDRequest \<Rightarrow> (sd_rsp_type \<times> 'b SDState) option" where
  "sd_app_command B sd req =
    (let cmd = unat (rq_cmd req); arg = rq_arg req; sd = sd_add_status APP_CMD sd;
         illegal = Some (sd_illegal, sd); transfer = (sd_state sd = sd_transfer_state) in
     if cmd = 6 then
       if transfer then
         do { b \<leftarrow> nth_opt (sd_sd_status sd) 0;
              Some (sd_r1, sd\<lparr>sd_sd_status := (sd_sd_status sd)[0 := (b AND 0x3f) OR ucast (push_bit 6 (arg AND 0x03))]\<rparr>) }
       else illegal
     else if cmd = 13 then
       if transfer then Some (sd_r1, sd_start_data sd_sendingdata_state 0 sd) else illegal
     else if cmd = 22 then
       if transfer then
         do { d \<leftarrow> memcpy (sd_data sd) 0 (le32_bytes (sd_blk_written sd)) 0 4;
              Some (sd_r1, sd_start_data sd_sendingdata_state 0 (sd\<lparr>sd_data := d\<rparr>)) }
       else illegal
     else if cmd = 23 \<or> cmd = 42 then
       if transfer then Some (sd_r1, sd) else illegal
     else if cmd = 41 then
       if sd_spi sd then Some (sd_r1, sd_to sd_transfer_state sd)
       else if sd_state sd = sd_idle_state
       then Some (sd_r3, if arg AND 0x00ffffff \<noteq> 0 then sd_to sd_ready_state sd else sd)
       else illegal
     else if cmd = 51 then
       if transfer then Some (sd_r1, sd_start_data sd_sendingdata_state 0 sd) else illegal
     else sd_normal_command B sd req)"

definition cmd_valid_while_locked :: "'b SDState \<Rightarrow> SDRequest \<Rightarrow> bool option" where
  "cmd_valid_while_locked sd req =
    (let cmd = unat (rq_cmd req) in
     if sd_expecting_acmd sd then Some (cmd = 41 \<or> cmd = 42)
     else if cmd = 16 \<or> cmd = 55 then Some True
     else do { c \<leftarrow> nth_opt sd_cmd_class cmd; Some (c = 0 \<or> c = 7) })"

definition sd_state_bits :: "SDCardStates \<Rightarrow> u32" where
  "sd_state_bits st = push_bit 9 (case st of
     sd_inactive_state \<Rightarrow> - 1 | sd_idle_state \<Rightarrow> 0 | sd_ready_state \<Rightarrow> 1 | sd_identification_state \<Rightarrow> 2
   | sd_standby_state \<Rightarrow> 3 | sd_transfer_state \<Rightarrow> 4 | sd_sendingdata_state \<Rightarrow> 5 | sd_receivingdata_state \<Rightarrow> 6
   | sd_programming_state \<Rightarrow> 7 | sd_disconnect_state \<Rightarrow> 8)"

text \<open>\<open>send_response\<close>: the response bytes; the length the caller gets is the length of the list.\<close>

definition sd_send_response :: "sd_rsp_type \<Rightarrow> 'b SDState \<Rightarrow> u8 list \<times> 'b SDState" where
  "sd_send_response rtype sd =
    (let (rsp, sd) =
       (case rtype of
          sd_r1 \<Rightarrow> sd_response_r1_make sd
        | sd_r1b \<Rightarrow> sd_response_r1_make sd
        | sd_r2_i \<Rightarrow> (sd_cid sd, sd)
        | sd_r2_s \<Rightarrow> (sd_csd sd, sd)
        | sd_r3 \<Rightarrow> (sd_response_r3_make sd, sd)
        | sd_r6 \<Rightarrow> sd_response_r6_make sd
        | sd_r7 \<Rightarrow> (sd_response_r7_make sd, sd)
        | _ \<Rightarrow> ([], sd))
     in (rsp, if rtype \<noteq> sd_illegal then sd\<lparr>sd_card_status := sd_card_status sd AND NOT CARD_STATUS_B\<rparr> else sd))"

definition sd_present :: "'b bdrv_ops \<Rightarrow> 'b SDState \<Rightarrow> bool" where
  "sd_present B sd \<longleftrightarrow> (case sd_bdrv sd of None \<Rightarrow> False | Some b \<Rightarrow> bdrv_is_inserted B b) \<and> sd_enable sd"

definition sd_do_command :: "'b bdrv_ops \<Rightarrow> 'b SDState \<Rightarrow> SDRequest \<Rightarrow> (u8 list \<times> 'b SDState) option" where
  "sd_do_command B sd req =
    (if \<not> sd_present B sd then Some ([], sd)
     else if sd_req_crc_validate req then Some (sd_send_response sd_illegal (sd_add_status COM_CRC_ERROR sd))
     else do {
       ok \<leftarrow> (if sd_card_status sd AND CARD_IS_LOCKED \<noteq> 0 then cmd_valid_while_locked sd req else Some True);
       if \<not> ok then Some (sd_send_response sd_illegal ((sd_add_status ILLEGAL_COMMAND sd)\<lparr>sd_expecting_acmd := False\<rparr>))
       else do {
         let last_state = sd_state sd;
         let sd = sd_set_mode sd;
         (rtype, sd) \<leftarrow> (if sd_expecting_acmd sd then sd_app_command B (sd\<lparr>sd_expecting_acmd := False\<rparr>) req
                        else sd_normal_command B sd req);
         let sd = (if rtype = sd_illegal then sd_add_status ILLEGAL_COMMAND sd
                   else sd\<lparr>sd_current_cmd := rq_cmd req,
                           sd_card_status := (sd_card_status sd AND NOT CURRENT_STATE) OR sd_state_bits last_state\<rparr>);
         Some (sd_send_response rtype sd) } })"

subsection \<open>Transfers to the block device\<close>

definition sd_blk_read :: "'b bdrv_ops \<Rightarrow> 'b SDState \<Rightarrow> u64 \<Rightarrow> u32 \<Rightarrow> 'b SDState option" where
  "sd_blk_read B sd addr len =
    (case sd_bdrv sd of None \<Rightarrow> Some sd
     | Some b \<Rightarrow>
       let e = addr + ucast len; off = unat (addr AND 511);
           (ok, buf) = bdrv_read B b (drop_bit 9 addr); sd = sd\<lparr>sd_buf := buf\<rparr> in
       if \<not> ok then Some sd
       else if e > (addr AND NOT 511) + 512 then
         do { d \<leftarrow> memcpy (sd_data sd) 0 buf off (512 - off);
              let sd = sd\<lparr>sd_data := d\<rparr>;
              let (ok, buf) = bdrv_read B b (drop_bit 9 e);
              let sd = sd\<lparr>sd_buf := buf\<rparr>;
              if \<not> ok then Some sd
              else do { d \<leftarrow> memcpy (sd_data sd) (512 - off) buf 0 (unat (e AND 511)); Some (sd\<lparr>sd_data := d\<rparr>) } }
       else do { d \<leftarrow> memcpy (sd_data sd) 0 buf off (unat len); Some (sd\<lparr>sd_data := d\<rparr>) })"

definition sd_blk_write :: "'b bdrv_ops \<Rightarrow> 'b SDState \<Rightarrow> u64 \<Rightarrow> u32 \<Rightarrow> 'b SDState option" where
  "sd_blk_write B sd addr len =
    (let e = addr + ucast len; off = unat (addr AND 511);
         (ok, buf) = (if addr AND 511 \<noteq> 0 \<or> len < 512
                      then case sd_bdrv sd of None \<Rightarrow> (False, sd_buf sd) | Some b \<Rightarrow> bdrv_read B b (drop_bit 9 addr)
                      else (True, sd_buf sd));
         sd = sd\<lparr>sd_buf := buf\<rparr> in
     if \<not> ok then Some sd
     else if e > (addr AND NOT 511) + 512 then
       do { buf \<leftarrow> memcpy (sd_buf sd) off (sd_data sd) 0 (512 - off);
            b \<leftarrow> sd_bdrv sd;
            let (ok, b) = bdrv_write B b (drop_bit 9 addr) buf;
            let sd = sd\<lparr>sd_buf := buf, sd_bdrv := Some b\<rparr>;
            if \<not> ok then Some sd
            else do {
              let (ok, buf) = bdrv_read B b (drop_bit 9 e);
              let sd = sd\<lparr>sd_buf := buf\<rparr>;
              if \<not> ok then Some sd
              else do { buf \<leftarrow> memcpy (sd_buf sd) 0 (sd_data sd) (512 - off) (unat (e AND 511));
                        Some (sd\<lparr>sd_buf := buf, sd_bdrv := Some (snd (bdrv_write B b (drop_bit 9 e) buf))\<rparr>) } } }
     else do { buf \<leftarrow> memcpy (sd_buf sd) off (sd_data sd) 0 (unat len);
               Some (sd\<lparr>sd_buf := buf,
                 sd_bdrv := map_option (\<lambda>b. snd (bdrv_write B b (drop_bit 9 addr) buf)) (sd_bdrv sd)\<rparr>) })"

subsection \<open>The data phases\<close>

definition sd_put_byte :: "'b SDState \<Rightarrow> u8 \<Rightarrow> 'b SDState option" where
  "sd_put_byte sd v =
    do { d \<leftarrow> set_opt (sd_data sd) (unat (sd_data_offset sd)) v;
         Some (sd\<lparr>sd_data := d, sd_data_offset := sd_data_offset sd + 1\<rparr>) }"

definition sd_mark_written :: "'b SDState \<Rightarrow> 'b SDState option" where
  "sd_mark_written sd =
    do { c \<leftarrow> nth_opt (sd_csd sd) 14;
         Some (sd\<lparr>sd_blk_written := sd_blk_written sd + 1, sd_csd := (sd_csd sd)[14 := c OR 0x40]\<rparr>) }"

definition sd_program_cid :: "'b SDState \<Rightarrow> 'b SDState option" where
  "sd_program_cid sd =
    (if length (sd_data sd) < 16 then None
     else let d = take 16 (sd_data sd);
              sd = (if sd_cid sd \<noteq> d then sd_add_status CID_CSD_OVERWRITE sd else sd)
       in Some (if sd_card_status sd AND CID_CSD_OVERWRITE = 0
                then sd\<lparr>sd_cid := map2 (AND) (sd_cid sd) d\<rparr> else sd))"

definition sd_program_csd :: "'b SDState \<Rightarrow> 'b SDState option" where
  "sd_program_csd sd =
    (if length (sd_data sd) < 16 then None
     else let d = take 16 (sd_data sd);
              bad = (map2 (OR) (sd_csd sd) sd_csd_rw_mask \<noteq> map2 (OR) d sd_csd_rw_mask \<or>
                     sd_csd sd ! 14 AND NOT (d ! 14) AND 0x60 \<noteq> 0);
              sd = (if bad then sd_add_status CID_CSD_OVERWRITE sd else sd)
       in Some (if sd_card_status sd AND CID_CSD_OVERWRITE = 0
                then sd\<lparr>sd_csd := map2 (AND) (map2 (OR) (sd_csd sd) sd_csd_rw_mask) d\<rparr> else sd))"

text \<open>The end of a block of \<open>CMD24\<close> and \<open>CMD25\<close>: it goes to the medium.\<close>

definition sd_commit :: "'b bdrv_ops \<Rightarrow> 'b SDState \<Rightarrow> 'b SDState option" where
  "sd_commit B sd =
    do { sd \<leftarrow> sd_blk_write B (sd_to sd_programming_state sd) (sd_data_start sd) (sd_data_offset sd);
         sd_mark_written sd }"

definition sd_write_single :: "'b bdrv_ops \<Rightarrow> 'b SDState \<Rightarrow> u8 \<Rightarrow> 'b SDState option" where
  "sd_write_single B sd v =
    do { sd \<leftarrow> sd_put_byte sd v;
         if sd_data_offset sd \<ge> sd_blk_len sd then map_option (sd_to sd_transfer_state) (sd_commit B sd)
         else Some sd }"

definition sd_write_multiple :: "'b bdrv_ops \<Rightarrow> 'b SDState \<Rightarrow> u8 \<Rightarrow> 'b SDState option" where
  "sd_write_multiple B sd v =
    (if sd_data_offset sd = 0 \<and> sd_data_start sd + ucast (sd_blk_len sd) > sd_size sd
     then Some (sd_add_status ADDRESS_ERROR sd)
     else do {
       wp \<leftarrow> (if sd_data_offset sd = 0 then sd_wp_addr sd (sd_data_start sd) else Some False);
       if wp then Some (sd_add_status WP_VIOLATION sd)
       else do {
         sd \<leftarrow> sd_put_byte sd v;
         if sd_data_offset sd \<ge> sd_blk_len sd then
           do { sd \<leftarrow> sd_commit B sd;
                Some (sd_start_data sd_receivingdata_state (sd_data_start sd + ucast (sd_blk_len sd)) sd) }
         else Some sd } })"

definition sd_write_data :: "'b bdrv_ops \<Rightarrow> 'b SDState \<Rightarrow> u8 \<Rightarrow> 'b SDState option" where
  "sd_write_data B sd v =
    (let cmd = unat (sd_current_cmd sd) in
     if \<not> sd_present B sd then Some sd
     else if sd_state sd \<noteq> sd_receivingdata_state then Some sd
     else if sd_card_status sd AND (ADDRESS_ERROR OR WP_VIOLATION) \<noteq> 0 then Some sd
     else if cmd = 24 then sd_write_single B sd v
     else if cmd = 25 then sd_write_multiple B sd v
     else if cmd = 26 \<or> cmd = 27 then
       do { sd \<leftarrow> sd_put_byte sd v;
            if sd_data_offset sd \<ge> 16
            then map_option (sd_to sd_transfer_state) (if cmd = 26 then sd_program_cid sd else sd_program_csd sd)
            else Some sd }
     else if cmd = 42 then
       do { sd \<leftarrow> sd_put_byte sd v;
            if sd_data_offset sd \<ge> sd_blk_len sd
            then map_option (sd_to sd_transfer_state) (sd_lock_command (sd_to sd_programming_state sd))
            else Some sd }
     else if cmd = 56 then
       do { sd \<leftarrow> sd_put_byte sd v;
            Some (if sd_data_offset sd \<ge> sd_blk_len sd then sd_to sd_transfer_state sd else sd) }
     else Some sd)"

definition sd_get_byte :: "u8 list \<Rightarrow> 'b SDState \<Rightarrow> (u8 \<times> 'b SDState) option" where
  "sd_get_byte xs sd =
    do { v \<leftarrow> nth_opt xs (unat (sd_data_offset sd)); Some (v, sd\<lparr>sd_data_offset := sd_data_offset sd + 1\<rparr>) }"

definition sd_get_until :: "u8 list \<Rightarrow> u32 \<Rightarrow> 'b SDState \<Rightarrow> (u8 \<times> 'b SDState) option" where
  "sd_get_until xs n sd =
    do { (v, sd) \<leftarrow> sd_get_byte xs sd;
         Some (v, if sd_data_offset sd \<ge> n then sd_to sd_transfer_state sd else sd) }"

definition sd_io_len :: "'b SDState \<Rightarrow> u32" where
  "sd_io_len sd = (if bit (sd_ocr sd) 30 then 512 else sd_blk_len sd)"

definition sd_fetch :: "'b bdrv_ops \<Rightarrow> 'b SDState \<Rightarrow> 'b SDState option" where
  "sd_fetch B sd = (if sd_data_offset sd = 0 then sd_blk_read B sd (sd_data_start sd) (sd_io_len sd) else Some sd)"

definition sd_read_multiple :: "'b bdrv_ops \<Rightarrow> 'b SDState \<Rightarrow> (u8 \<times> 'b SDState) option" where
  "sd_read_multiple B sd =
    (let io_len = sd_io_len sd in
     do { sd \<leftarrow> sd_fetch B sd;
          (v, sd) \<leftarrow> sd_get_byte (sd_data sd) sd;
          Some (v,
            if sd_data_offset sd \<ge> io_len then
              let sd = sd\<lparr>sd_data_start := sd_data_start sd + ucast io_len, sd_data_offset := 0\<rparr>
              in if sd_data_start sd + ucast io_len > sd_size sd then sd_add_status ADDRESS_ERROR sd else sd
            else sd) })"

definition sd_read_data :: "'b bdrv_ops \<Rightarrow> 'b SDState \<Rightarrow> (u8 \<times> 'b SDState) option" where
  "sd_read_data B sd =
    (let cmd = unat (sd_current_cmd sd); io_len = sd_io_len sd in
     if \<not> sd_present B sd then Some (0, sd)
     else if sd_state sd \<noteq> sd_sendingdata_state then Some (0, sd)
     else if sd_card_status sd AND (ADDRESS_ERROR OR WP_VIOLATION) \<noteq> 0 then Some (0, sd)
     else if cmd = 6 then sd_get_until (sd_data sd) 64 sd
     else if cmd = 9 \<or> cmd = 10 then sd_get_until (sd_data sd) 16 sd
     else if cmd = 11 \<or> cmd = 18 then sd_read_multiple B sd
     else if cmd = 13 then sd_get_until (sd_sd_status sd) 64 sd
     else if cmd = 17 then do { sd \<leftarrow> sd_fetch B sd; sd_get_until (sd_data sd) io_len sd }
     else if cmd = 22 \<or> cmd = 30 then sd_get_until (sd_data sd) 4 sd
     else if cmd = 51 then sd_get_until (sd_scr sd) 8 sd
     else if cmd = 56 then
       do { d \<leftarrow> (if sd_data_offset sd = 0
                then memcpy (sd_data sd) 0 (replicate (unat (sd_blk_len sd)) 0xec) 0 (unat (sd_blk_len sd))
                else Some (sd_data sd));
            sd_get_until d (sd_blk_len sd) (sd\<lparr>sd_data := d\<rparr>) }
     else Some (0, sd))"

definition sd_data_ready :: "'b SDState \<Rightarrow> bool" where
  "sd_data_ready sd \<longleftrightarrow> sd_state sd = sd_sendingdata_state"

definition sd_set_enable :: "'b SDState \<Rightarrow> bool \<Rightarrow> 'b SDState" where
  "sd_set_enable sd b = sd\<lparr>sd_enable := b\<rparr>"

end
