(* ===== verification/SdCardSafe.thy ===== *)
theory SdCardSafe
  imports SdCard
begin

text \<open>
  No sequence of commands, data bytes and medium changes takes the card of \<^verbatim>\<open>hw/sd/sd.c\<close> outside its arrays, as
  long as four kinds of command are kept out (\<open>sd_event_ok\<close>); the theorems at the end show that each of them
  is a real exception. The invariant \<open>sd_inv\<close> has a static part, the sizes of the arrays (\<open>sd_shape\<close>), and one
  that follows the data phase (\<open>sd_phase\<close>).
\<close>

datatype 'b sd_event = SdCommand SDRequest | SdWrite u8 | SdRead | SdEnable bool | SdChange 'b

primrec sd_event_step :: "'b bdrv_ops \<Rightarrow> 'b SDState \<Rightarrow> 'b sd_event \<Rightarrow> 'b SDState option" where
  "sd_event_step B sd (SdCommand req) = map_option snd (sd_do_command B sd req)"
| "sd_event_step B sd (SdWrite v) = sd_write_data B sd v"
| "sd_event_step B sd SdRead = map_option snd (sd_read_data B sd)"
| "sd_event_step B sd (SdEnable b) = Some (sd_set_enable sd b)"
| "sd_event_step B sd (SdChange b) = sd_cardchange B (sd\<lparr>sd_bdrv := Some b\<rparr>)"

definition sd_wide :: "'b SDState \<Rightarrow> u32 \<Rightarrow> u64" where
  "sd_wide sd arg = (if bit (sd_ocr sd) 30 then push_bit 9 (ucast arg) else ucast arg)"

definition sd_in_groups :: "'b SDState \<Rightarrow> u64 \<Rightarrow> bool" where
  "sd_in_groups sd addr \<longleftrightarrow> unat (sd_addr_to_wpnum addr) < BITS_PER_LONG * length (sd_wp_groups sd)"

definition sd_request_ok :: "'b SDState \<Rightarrow> SDRequest \<Rightarrow> bool" where
  "sd_request_ok sd req \<longleftrightarrow>
    (let cmd = unat (rq_cmd req); arg = rq_arg req in
     cmd < 64 \<and>
     (cmd = 8 \<longrightarrow> ffs (arg AND NOT 0xff) < 32) \<and>
     (cmd = 24 \<or> cmd = 25 \<longrightarrow> sd_in_groups sd (sd_wide sd arg)) \<and>
     (cmd = 38 \<longrightarrow> sd_in_groups sd (sd_wide sd (sd_erase_end sd))) \<and>
     (cmd = 13 \<and> sd_state sd = sd_sendingdata_state \<longrightarrow> sd_data_offset sd < 64))"

primrec sd_event_ok :: "'b SDState \<Rightarrow> 'b sd_event \<Rightarrow> bool" where
  "sd_event_ok sd (SdCommand req) = sd_request_ok sd req"
| "sd_event_ok sd (SdWrite v) = True"
| "sd_event_ok sd SdRead = True"
| "sd_event_ok sd (SdEnable b) = True"
| "sd_event_ok sd (SdChange b) = True"

definition sd_shape :: "'b SDState \<Rightarrow> bool" where
  "sd_shape sd \<longleftrightarrow> length (sd_scr sd) = 8 \<and> length (sd_cid sd) = 16 \<and> length (sd_csd sd) = 16 \<and>
     length (sd_sd_status sd) = 64 \<and> length (sd_pwd sd) = 16 \<and> length (sd_function_group sd) = 6 \<and>
     length (sd_data sd) = 512 \<and> length (sd_buf sd) = 512 \<and>
     unat (sd_blk_len sd) \<le> 512 \<and> unat (sd_pwd_len sd) \<le> 16 \<and> unat (sd_size sd) < 2 ^ 52 \<and>
     unat (sd_size sd) div 2 ^ 21 < BITS_PER_LONG * length (sd_wp_groups sd) \<and>
     BITS_TO_LONGS (sd_wpgrps_size sd) \<le> length (sd_wp_groups sd)"

definition sd_phase :: "nat \<Rightarrow> bool \<Rightarrow> 'b SDState \<Rightarrow> bool" where
  "sd_phase c lost sd \<longleftrightarrow>
    (let off = unat (sd_data_offset sd); start = unat (sd_data_start sd);
         snd = (sd_state sd = sd_sendingdata_state); rcv = (sd_state sd = sd_receivingdata_state) in
     (snd \<or> rcv \<longrightarrow> off < 512) \<and> (snd \<and> c = 13 \<longrightarrow> off < 64) \<and> (snd \<and> c = 51 \<longrightarrow> off < 8) \<and> start < 2 ^ 53 \<and>
     (\<not> lost \<and> (snd \<and> (c = 11 \<or> c = 18) \<or> rcv \<and> c = 25 \<and> off \<noteq> 0) \<longrightarrow> start \<le> 2 ^ 52))"

definition sd_lost :: "'b SDState \<Rightarrow> bool" where
  "sd_lost sd \<longleftrightarrow> bit (sd_card_status sd) 30"

definition sd_inv :: "'b SDState \<Rightarrow> bool" where
  "sd_inv sd \<longleftrightarrow> sd_shape sd \<and> sd_phase (unat (sd_current_cmd sd)) (sd_lost sd) sd"

text \<open>What the card relies on of the block layer: sectors of 512 bytes, and a medium below \<open>2 ^ 52\<close> bytes.\<close>

definition bdrv_bounded :: "'b bdrv_ops \<Rightarrow> bool" where
  "bdrv_bounded B \<longleftrightarrow> (\<forall>b. unat (bdrv_get_geometry B b) < 2 ^ 43) \<and> (\<forall>b s. length (snd (bdrv_read B b s)) = 512)"

definition sd_result :: "'b SDState \<Rightarrow> nat \<Rightarrow> sd_rsp_type \<times> 'b SDState \<Rightarrow> bool" where
  "sd_result sd c = (\<lambda>(r, t). sd_shape t \<and>
     (if r = sd_illegal
      then sd_state t = sd_state sd \<and> sd_data_offset t = sd_data_offset sd \<and> sd_data_start t = sd_data_start sd \<and>
           sd_current_cmd t = sd_current_cmd sd \<and> (sd_lost sd \<longrightarrow> sd_lost t)
      else sd_phase c False t))"

subsection \<open>The array operations\<close>

lemma memcpy_ok:
  "d + n \<le> length dst \<Longrightarrow> so + n \<le> length src \<Longrightarrow>
   yields (memcpy dst d src so n) (\<lambda>r. length r = length dst)"
  by (simp add: memcpy_def)

lemma memcmp_ok: "i + n \<le> length a \<Longrightarrow> j + n \<le> length b \<Longrightarrow> yields (memcmp a i b j n) (\<lambda>_. True)"
  by (simp add: memcmp_def)

lemma set_opt_ok: "i < length xs \<Longrightarrow> yields (set_opt xs i x) (\<lambda>r. length r = length xs)"
  by simp

lemma bitmap_zero_ok:
  "BITS_TO_LONGS n \<le> length xs \<Longrightarrow> xs \<noteq> [] \<Longrightarrow> yields (bitmap_zero xs n) (\<lambda>r. length r = length xs)"
  by (simp add: bitmap_zero_def)

lemma sd_crc16_ok: "4 * w \<le> length xs \<Longrightarrow> yields (sd_crc16 xs w) (\<lambda>_. True)"
  unfolding sd_crc16_def by (rule yields_exec_list) (simp_all add: le16_def)

lemma sd_shape_updates [simp]:
  "sd_shape (sd\<lparr>sd_mode := m\<rparr>) = sd_shape sd"
  "sd_shape (sd\<lparr>sd_state := st\<rparr>) = sd_shape sd"
  "sd_shape (sd\<lparr>sd_rca := rca\<rparr>) = sd_shape sd"
  "sd_shape (sd\<lparr>sd_card_status := cs\<rparr>) = sd_shape sd"
  "sd_shape (sd\<lparr>sd_vhs := v\<rparr>) = sd_shape sd"
  "sd_shape (sd\<lparr>sd_erase_start := es\<rparr>) = sd_shape sd"
  "sd_shape (sd\<lparr>sd_erase_end := ee\<rparr>) = sd_shape sd"
  "sd_shape (sd\<lparr>sd_current_cmd := cc\<rparr>) = sd_shape sd"
  "sd_shape (sd\<lparr>sd_expecting_acmd := ea\<rparr>) = sd_shape sd"
  "sd_shape (sd\<lparr>sd_blk_written := bw\<rparr>) = sd_shape sd"
  "sd_shape (sd\<lparr>sd_data_start := ds\<rparr>) = sd_shape sd"
  "sd_shape (sd\<lparr>sd_data_offset := off\<rparr>) = sd_shape sd"
  "sd_shape (sd\<lparr>sd_readonly_cb := rc\<rparr>) = sd_shape sd"
  "sd_shape (sd\<lparr>sd_inserted_cb := ic\<rparr>) = sd_shape sd"
  "sd_shape (sd\<lparr>sd_bdrv := b\<rparr>) = sd_shape sd"
  "sd_shape (sd\<lparr>sd_enable := e\<rparr>) = sd_shape sd"
  by (simp_all add: sd_shape_def)

lemma sd_shape_arrays:
  "sd_shape sd \<Longrightarrow> length d = 512 \<Longrightarrow> sd_shape (sd\<lparr>sd_data := d\<rparr>)"
  "sd_shape sd \<Longrightarrow> length d = 512 \<Longrightarrow> sd_shape (sd\<lparr>sd_buf := d\<rparr>)"
  "sd_shape sd \<Longrightarrow> length d = 16 \<Longrightarrow> sd_shape (sd\<lparr>sd_csd := d\<rparr>)"
  "sd_shape sd \<Longrightarrow> length d = 16 \<Longrightarrow> sd_shape (sd\<lparr>sd_cid := d\<rparr>)"
  "sd_shape sd \<Longrightarrow> length d = 64 \<Longrightarrow> sd_shape (sd\<lparr>sd_sd_status := d\<rparr>)"
  "sd_shape sd \<Longrightarrow> length d = 6 \<Longrightarrow> sd_shape (sd\<lparr>sd_function_group := d\<rparr>)"
  "sd_shape sd \<Longrightarrow> length d = 16 \<Longrightarrow> sd_shape (sd\<lparr>sd_pwd := d\<rparr>)"
  "sd_shape sd \<Longrightarrow> length w = length (sd_wp_groups sd) \<Longrightarrow> sd_shape (sd\<lparr>sd_wp_groups := w\<rparr>)"
  "sd_shape sd \<Longrightarrow> unat n \<le> 16 \<Longrightarrow> sd_shape (sd\<lparr>sd_pwd_len := n\<rparr>)"
  "sd_shape sd \<Longrightarrow> unat n \<le> 512 \<Longrightarrow> sd_shape (sd\<lparr>sd_blk_len := n\<rparr>)"
  by (simp_all add: sd_shape_def)

lemma sd_shape_lengths:
  assumes "sd_shape sd"
  shows "length (sd_scr sd) = 8" "length (sd_cid sd) = 16" "length (sd_csd sd) = 16" "length (sd_sd_status sd) = 64"
    "length (sd_pwd sd) = 16" "length (sd_function_group sd) = 6" "length (sd_data sd) = 512"
    "length (sd_buf sd) = 512" "unat (sd_blk_len sd) \<le> 512" "unat (sd_pwd_len sd) \<le> 16"
    "BITS_TO_LONGS (sd_wpgrps_size sd) \<le> length (sd_wp_groups sd)" "sd_wp_groups sd \<noteq> []"
  using assms by (auto simp: sd_shape_def)

lemma sd_add_status_simps [simp]:
  "sd_shape (sd_add_status m sd) = sd_shape sd"
  "sd_state (sd_add_status m sd) = sd_state sd"
  "sd_data_offset (sd_add_status m sd) = sd_data_offset sd"
  "sd_data_start (sd_add_status m sd) = sd_data_start sd"
  "sd_current_cmd (sd_add_status m sd) = sd_current_cmd sd"
  "sd_wp_groups (sd_add_status m sd) = sd_wp_groups sd"
  "sd_csd (sd_add_status m sd) = sd_csd sd"
  "sd_blk_len (sd_add_status m sd) = sd_blk_len sd"
  "sd_size (sd_add_status m sd) = sd_size sd"
  "sd_data (sd_add_status m sd) = sd_data sd"
  "sd_bdrv (sd_add_status m sd) = sd_bdrv sd"
  "sd_phase c l (sd_add_status m sd) = sd_phase c l sd"
  by (simp_all add: sd_add_status_def sd_phase_def)

subsection \<open>Reset, erase, write protection, function switch and lock\<close>

lemma sd_set_csd_length: "length (fst (sd_set_csd sz ocr)) = 16"
  by (simp add: sd_set_csd_def Let_def)

lemma unat_wpnum: "unat (sd_addr_to_wpnum a) = unat a div 2 ^ 21"
  by (simp add: sd_addr_to_wpnum_def unat_drop_bit_div)

lemma sd_in_groups_le: "sd_shape sd \<Longrightarrow> unat a \<le> unat (sd_size sd) \<Longrightarrow> sd_in_groups sd a"
  unfolding sd_in_groups_def unat_wpnum sd_shape_def by (meson div_le_mono le_less_trans)

lemma sd_wp_addr_ok: "sd_in_groups sd a \<Longrightarrow> yields (sd_wp_addr sd a) (\<lambda>_. True)"
  by (simp add: sd_wp_addr_def sd_in_groups_def test_bit_ok)

lemma unat_push_bit_9: "unat x < 2 ^ 55 \<Longrightarrow> unat (push_bit 9 (x::u64)) = unat x * 512"
  by (simp add: push_bit_eq_mult unat_word_mult)

lemma sd_reset_ok:
  assumes "bdrv_bounded B" "length (sd_pwd sd) = 16" "length (sd_data sd) = 512" "length (sd_buf sd) = 512"
  shows "sd_shape (sd_reset B sd b)"
proof -
  define sz where "sz = push_bit 9 (case b of None \<Rightarrow> 0 | Some b \<Rightarrow> bdrv_get_geometry B b)"
  have "unat (case b of None \<Rightarrow> 0 | Some b \<Rightarrow> bdrv_get_geometry B b) < 2 ^ 43"
    using assms(1) by (simp add: bdrv_bounded_def split: option.split)
  then have sz: "unat sz < 2 ^ 52"
    by (simp add: sz_def unat_push_bit_9)
  then have n: "unat (sd_addr_to_wpnum sz + 1) = unat sz div 2 ^ 21 + 1"
    by (simp add: unat_word_add unat_wpnum)
  show ?thesis
    using assms(2-) sz unfolding sd_reset_def sz_def [symmetric] Let_def
    by (simp add: sd_shape_def case_prod_beta sd_set_csd_length n bitmap_new_def BITS_TO_LONGS_def
        sd_set_scr_def sd_set_cid_def Let_def)
qed

lemma sd_erase_ok:
  assumes "sd_shape sd" "sd_in_groups sd (sd_wide sd (sd_erase_end sd))"
  shows "yields (sd_erase sd) (\<lambda>t. sd_shape t \<and> sd_data_start t = sd_data_start sd)"
proof -
  let ?I = "\<lambda>t. sd_shape t \<and> sd_data_start t = sd_data_start sd \<and> sd_wp_groups t = sd_wp_groups sd"
  have loop: "yields (exec_list (\<lambda>sd i. do { b \<leftarrow> test_bit i (sd_wp_groups sd);
      Some (if b then sd_add_status WP_ERASE_SKIP sd else sd) }) t [a..<Suc (unat (sd_addr_to_wpnum e))]) ?I"
    if "?I t" "sd_in_groups sd e" for t a e
    using that by (intro yields_exec_list) (auto simp: test_bit_ok sd_in_groups_def)
  have wide: "sd_wide sd x = (if bit (sd_ocr sd) 30 then ucast x * 512 else ucast x)" for x
    by (simp add: sd_wide_def push_bit_eq_mult mult.commute)
  show ?thesis
    unfolding sd_erase_def Let_def
    by (intro yields_if) (use assms sd_shape_lengths(3) [OF assms(1)] in
      \<open>auto simp: sd_shape_arrays simp flip: wide simp del: upt_Suc intro!: yields_mono [OF loop]\<close>)
qed

lemma sd_wpbits_ok:
  assumes "sd_shape sd" "unat addr < 2 ^ 32"
  shows "yields (sd_wpbits sd addr) (\<lambda>_. True)"
proof -
  have "yields (sd_wpbit sd addr r i) (\<lambda>_. True)" if i: "i < 32" for r i
  proof -
    have a: "unat (addr + of_nat i * 0x200000) = unat addr + i * 2 ^ 21"
      using assms(2) i by (simp add: unat_word_add unat_word_mult unat_of_nat)
    have w: "unat (ucast (sd_addr_to_wpnum addr) + of_nat i :: u32) = unat addr div 2 ^ 21 + i"
      using assms(2) i by (simp add: unat_word_add unat_ucast_down unat_wpnum unat_of_nat)
    have "unat addr div 2 ^ 21 + i = (unat addr + i * 2 ^ 21) div 2 ^ 21" by simp
    then have "unat addr div 2 ^ 21 + i < BITS_PER_LONG * length (sd_wp_groups sd)"
      if "addr + of_nat i * 0x200000 < sd_size sd"
      using that sd_in_groups_le [OF assms(1), of "addr + of_nat i * 0x200000"]
      by (simp add: word_less_nat_alt a sd_in_groups_def unat_wpnum)
    then show ?thesis unfolding sd_wpbit_def Let_def by (simp add: test_bit_ok w)
  qed
  then show ?thesis unfolding sd_wpbits_def by (intro yields_exec_list) simp_all
qed

lemma sd_function_switch_ok:
  assumes "sd_shape sd"
  shows "yields (sd_function_switch sd arg) sd_shape"
proof -
  have g: "yields (sd_switch_group arg t i) sd_shape" if "sd_shape t" "i < 6" for t i
    using that sd_shape_lengths [OF that(1)] by (auto simp: sd_switch_group_def Let_def intro!: sd_shape_arrays)
  have loop: "yields (exec_list (sd_switch_group arg) t [0..<6]) sd_shape" if "sd_shape t" for t
    using that g by (intro yields_exec_list) simp_all
  have fin: "yields (do { d \<leftarrow> memcpy (sd_data t) 17 (replicate 47 0) 0 47;
         crc \<leftarrow> sd_crc16 d 64;
         d \<leftarrow> set_opt d 65 (ucast (drop_bit 8 crc));
         d \<leftarrow> set_opt d 66 (ucast (crc AND 0xff));
         Some (t\<lparr>sd_data := d\<rparr>) }) sd_shape" if "sd_shape t" for t
    using sd_shape_lengths(7) [OF that] that
    by (auto intro!: yields_mono [OF memcpy_ok] yields_mono [OF sd_crc16_ok] sd_shape_arrays)
  show ?thesis
    unfolding sd_function_switch_def
    by (subst yields_bind, rule yields_mono [OF memcpy_ok], simp add: sd_shape_lengths [OF assms], simp,
        subst yields_bind, rule yields_mono [OF loop])
      (use assms sd_shape_lengths(7) [OF assms] in \<open>simp add: sd_shape_arrays\<close>, rule fin)
qed

lemma sd_lock_command_ok:
  assumes "sd_shape sd"
  shows "yields (sd_lock_command sd) (\<lambda>t. sd_shape t \<and> sd_data_start t = sd_data_start sd)"
proof -
  note l = sd_shape_lengths [OF assms]
  let ?I = "\<lambda>t. sd_shape t \<and> sd_data_start t = sd_data_start sd"
  have zero: "yields (do { w \<leftarrow> bitmap_zero (sd_wp_groups sd) (sd_wpgrps_size sd); Some (sd\<lparr>sd_wp_groups := w,
      sd_csd := (sd_csd sd)[14 := c], sd_card_status := cs, sd_pwd_len := 0\<rparr>) }) ?I" for c cs
    using assms l by (auto intro!: yields_mono [OF bitmap_zero_ok] sd_shape_arrays)
  have diff: "unat (n - sd_pwd_len sd) \<le> 16" if "\<not> n \<le> sd_pwd_len sd" "\<not> n > sd_pwd_len sd + 16" for n
    using that l(10) by (simp add: word_less_nat_alt word_le_nat_alt unat_sub unat_word_add)
  have copy: "yields (if c then do { p \<leftarrow> memcpy (sd_pwd sd) 0 (sd_data sd) (2 + unat (sd_pwd_len sd)) (unat (n - sd_pwd_len sd));
      Some (sd\<lparr>sd_pwd := p, sd_pwd_len := n - sd_pwd_len sd\<rparr>) } else Some sd) ?I"
    if "\<not> n \<le> sd_pwd_len sd" "\<not> n > sd_pwd_len sd + 16" for n c
    using diff [OF that] assms l by (auto intro!: yields_mono [OF memcpy_ok] sd_shape_arrays)
  have cmp: "yields (memcmp (sd_pwd sd) 0 (sd_data sd) 2 (unat (sd_pwd_len sd))) (\<lambda>_. True)"
    using l by (intro memcmp_ok) simp_all
  have fin: "?I t \<Longrightarrow> ?I (let sd = (if a then t\<lparr>sd_pwd_len := 0\<rparr> else t) in if b then sd_add_status CARD_IS_LOCKED sd
      else sd\<lparr>sd_card_status := sd_card_status sd AND NOT CARD_IS_LOCKED\<rparr>)" for t a b
    by (simp add: Let_def sd_shape_arrays)
  have d: "nth_opt (sd_data sd) 0 = Some (sd_data sd ! 0)" "nth_opt (sd_data sd) 1 = Some (sd_data sd ! 1)"
    "nth_opt (sd_csd sd) 14 = Some (sd_csd sd ! 14)" using l by simp_all
  show ?thesis
    unfolding sd_lock_command_def d Let_def bind.bind_lunit
    apply (intro yields_if)
    apply (use assms in simp)
    apply (rule zero)
    apply (use assms in simp)
    apply (subst yields_bind, rule yields_mono [OF cmp])
    apply (intro yields_if)
    apply (use assms in simp)
    apply (use assms in simp)
    apply (subst yields_bind, rule yields_mono [OF copy])
    apply blast
    apply blast
    apply (subst yields_Some)
    apply (erule fin [unfolded Let_def])
    done
qed

subsection \<open>The commands\<close>

lemma sd_phase_start: "unat start \<le> 2 ^ 52 \<Longrightarrow> sd_phase c l (sd_start_data st start sd)"
  by (simp add: sd_phase_def sd_start_data_def Let_def)

lemma sd_phase_idle:
  "sd_phase c' l' sd \<Longrightarrow> sd_state t \<noteq> sd_sendingdata_state \<Longrightarrow> sd_state t \<noteq> sd_receivingdata_state \<Longrightarrow>
   sd_data_start t = sd_data_start sd \<Longrightarrow> sd_phase c l t"
  by (simp add: sd_phase_def Let_def)

lemma sd_phase_to:
  "sd_phase c' l' sd \<Longrightarrow> st \<notin> {sd_sendingdata_state, sd_receivingdata_state} \<Longrightarrow> sd_phase c l (sd_to st sd)"
  by (simp add: sd_phase_def sd_to_def Let_def)

lemma sd_phase_other: "sd_phase c' l' sd \<Longrightarrow> c \<notin> {11, 13, 18, 25, 51} \<Longrightarrow> sd_phase c l sd"
  by (auto simp: sd_phase_def Let_def)

lemma sd_phase_updates [simp]:
  "sd_phase c l (sd\<lparr>sd_mode := m\<rparr>) = sd_phase c l sd"
  "sd_phase c l (sd\<lparr>sd_rca := rca\<rparr>) = sd_phase c l sd"
  "sd_phase c l (sd\<lparr>sd_card_status := cs\<rparr>) = sd_phase c l sd"
  "sd_phase c l (sd\<lparr>sd_vhs := v\<rparr>) = sd_phase c l sd"
  "sd_phase c l (sd\<lparr>sd_erase_start := es\<rparr>) = sd_phase c l sd"
  "sd_phase c l (sd\<lparr>sd_erase_end := ee\<rparr>) = sd_phase c l sd"
  "sd_phase c l (sd\<lparr>sd_current_cmd := cc\<rparr>) = sd_phase c l sd"
  "sd_phase c l (sd\<lparr>sd_expecting_acmd := ea\<rparr>) = sd_phase c l sd"
  "sd_phase c l (sd\<lparr>sd_blk_written := bw\<rparr>) = sd_phase c l sd"
  "sd_phase c l (sd\<lparr>sd_blk_len := bl\<rparr>) = sd_phase c l sd"
  "sd_phase c l (sd\<lparr>sd_wp_groups := w\<rparr>) = sd_phase c l sd"
  "sd_phase c l (sd\<lparr>sd_sd_status := ss\<rparr>) = sd_phase c l sd"
  "sd_phase c l (sd\<lparr>sd_data := d\<rparr>) = sd_phase c l sd"
  "sd_phase c l (sd\<lparr>sd_enable := e\<rparr>) = sd_phase c l sd"
  "sd_phase c l (sd\<lparr>sd_bdrv := b\<rparr>) = sd_phase c l sd"
  "sd_phase c l (sd\<lparr>sd_inserted_cb := ic\<rparr>) = sd_phase c l sd"
  "sd_phase c l (sd\<lparr>sd_readonly_cb := rc\<rparr>) = sd_phase c l sd"
  by (simp_all add: sd_phase_def)

lemma sd_result_illegal: "sd_shape sd \<Longrightarrow> sd_result sd c (sd_illegal, sd)"
  by (simp add: sd_result_def)

lemma sd_result_legal: "r \<noteq> sd_illegal \<Longrightarrow> sd_shape t \<Longrightarrow> sd_phase c False t \<Longrightarrow> sd_result sd c (r, t)"
  by (simp add: sd_result_def)

lemma sd_to_simps [simp]:
  "sd_shape (sd_to st sd) = sd_shape sd" "sd_state (sd_to st sd) = st" "sd_data_start (sd_to st sd) = sd_data_start sd"
  "sd_data_offset (sd_to st sd) = sd_data_offset sd" "sd_wp_groups (sd_to st sd) = sd_wp_groups sd"
  "sd_ocr (sd_to st sd) = sd_ocr sd" "sd_erase_end (sd_to st sd) = sd_erase_end sd" "sd_csd (sd_to st sd) = sd_csd sd"
  "sd_in_groups (sd_to st sd) a = sd_in_groups sd a" "sd_wide (sd_to st sd) x = sd_wide sd x"
  by (simp_all add: sd_to_def sd_in_groups_def sd_wide_def)

lemma sd_start_data_shape [simp]: "sd_shape (sd_start_data st a sd) = sd_shape sd"
  by (simp add: sd_start_data_def)

lemma sd_check_range_simps [simp]:
  "sd_shape (sd_check_range sd) = sd_shape sd" "sd_phase c l (sd_check_range sd) = sd_phase c l sd"
  "sd_data_start (sd_check_range sd) = sd_data_start sd" "sd_wp_groups (sd_check_range sd) = sd_wp_groups sd"
  "sd_csd (sd_check_range sd) = sd_csd sd"
  by (simp_all add: sd_check_range_def)

lemma unat_wide: "unat (sd_wide sd arg) < 2 ^ 41" "unat (ucast (arg::u32) :: u64) < 2 ^ 32"
proof -
  have u: "unat (ucast (arg::u32) :: u64) < 2 ^ 32" using unat_lt2p [of arg] by (simp add: unat_ucast_up)
  then show "unat (ucast (arg::u32) :: u64) < 2 ^ 32" .
  from u show "unat (sd_wide sd arg) < 2 ^ 41" unfolding sd_wide_def by (subst (2) if_distrib) (simp add: unat_push_bit_9)
qed

lemma sd_init_command_ok:
  assumes "sd_shape sd" "sd_phase c' l' sd" "bdrv_bounded B" "cmd < 8"
  shows "yields (sd_init_command B sd cmd arg rca) (sd_result sd cmd)"
proof -
  note ph = sd_phase_to [OF assms(2)] sd_phase_other [OF assms(2)] and i = sd_result_illegal [OF assms(1), of cmd]
  have r: "sd_state (sd_reset B sd b) = sd_idle_state" "sd_data_start (sd_reset B sd b) = sd_data_start sd" for sd b
    by (simp_all add: sd_reset_def Let_def case_prod_beta)
  have sw: "yields (do { t \<leftarrow> sd_function_switch sd arg; Some (sd_r1, sd_start_data sd_sendingdata_state 0 t) })
      (sd_result sd cmd)"
    using assms(1) by (auto intro!: yields_mono [OF sd_function_switch_ok] sd_result_legal sd_phase_start)
  show ?thesis
    unfolding sd_init_command_def Let_def
    by (intro yields_if) (use i sw assms(1,3) in
      \<open>auto intro!: sd_result_legal sd_reset_ok sd_shape_lengths ph sd_phase_idle [OF assms(2), of "sd_reset _ _ _"] simp: r\<close>)
qed

lemma sd_basic_command_ok:
  assumes "sd_shape sd" "sd_phase c' l' sd" "cmd < 16" "unat addr \<le> 2 ^ 52"
    and "cmd = 8 \<Longrightarrow> ffs (arg AND NOT 0xff) < 32"
    and "cmd = 13 \<Longrightarrow> sd_state sd = sd_sendingdata_state \<Longrightarrow> sd_data_offset sd < 64"
  shows "yields (sd_basic_command sd cmd arg addr rca) (sd_result sd cmd)"
proof -
  note i = sd_result_illegal [OF assms(1), of cmd]
    and ph = sd_phase_to [OF assms(2)] sd_phase_other [OF assms(2)]
  have sw: "yields (do { d \<leftarrow> memcpy (sd_data sd) 0 (if cmd = 9 then sd_csd sd else sd_cid sd) 0 16;
      Some (sd_r1, sd_start_data sd_sendingdata_state addr (sd\<lparr>sd_data := d\<rparr>)) }) (sd_result sd cmd)"
    using assms(1,4) sd_shape_lengths [OF assms(1)]
    by (auto intro!: yields_mono [OF memcpy_ok] sd_result_legal sd_phase_start sd_shape_arrays)
  have c13: "sd_phase 13 False sd" if "cmd = 13"
    using assms(2) assms(6) [OF that] by (auto simp: sd_phase_def Let_def word_less_nat_alt)
  have small: "unat (ucast arg :: u64) \<le> 2 ^ 52" using unat_wide(2) [of arg] by simp
  show ?thesis
    unfolding sd_basic_command_def Let_def
    by (intro yields_if) (use i sw assms(1,5) c13 small in
      \<open>auto intro!: sd_result_legal ph sd_phase_start\<close>)
qed

lemma sd_start_write_ok:
  assumes "sd_shape sd" "unat addr \<le> 2 ^ 52" "sd_in_groups sd addr"
  shows "yields (sd_start_write addr sd) (\<lambda>t. sd_shape t \<and> sd_phase c l t)"
proof -
  let ?t = "sd_check_range ((sd_start_data sd_receivingdata_state addr sd)\<lparr>sd_blk_written := 0\<rparr>)"
  have g: "sd_in_groups ?t (sd_data_start ?t)" using assms(3) by (simp add: sd_in_groups_def sd_start_data_def)
  have t: "sd_shape ?t" "sd_phase c l ?t"
    using assms sd_phase_start [OF assms(2), of c l sd_receivingdata_state sd] by simp_all
  have c: "nth_opt (sd_csd ?t) 14 = Some (sd_csd ?t ! 14)" using sd_shape_lengths(3) [OF t(1)] by simp
  show ?thesis
    unfolding sd_start_write_def Let_def c
    by (subst yields_bind, rule yields_mono [OF sd_wp_addr_ok [OF g]]) (use t in simp)
qed

lemma sd_block_command_ok:
  assumes "sd_shape sd" "sd_phase c' l' sd" "cmd < 26" "unat addr \<le> 2 ^ 52"
    and "cmd = 24 \<or> cmd = 25 \<Longrightarrow> sd_in_groups sd addr"
  shows "yields (sd_block_command sd cmd arg addr) (sd_result sd cmd)"
proof -
  note i = sd_result_illegal [OF assms(1), of cmd]
    and ph = sd_phase_to [OF assms(2)] sd_phase_other [OF assms(2)]
  have wr: "yields (do { t \<leftarrow> sd_start_write addr sd; Some (sd_r1, t) }) (sd_result sd cmd)"
    if "cmd = 24 \<or> cmd = 25"
    unfolding yields_bind
    by (rule yields_mono [OF sd_start_write_ok [where c = cmd and l = False]]) (use assms(1,4,5) that in \<open>auto intro!: sd_result_legal\<close>)
  have blk: "sd_shape (sd\<lparr>sd_blk_len := arg\<rparr>)" if "\<not> arg > 512"
    using that assms(1) by (intro sd_shape_arrays) (simp_all add: word_less_nat_alt)
  show ?thesis
    unfolding sd_block_command_def Let_def
    by (intro yields_if) (use i wr assms(1,4) blk in
      \<open>auto intro!: sd_result_legal ph sd_phase_start\<close>)
qed

lemma sd_protect_command_ok:
  assumes "sd_shape sd" "sd_phase c' l' sd" "26 \<le> cmd" "cmd < 32" "unat addr \<le> 2 ^ 52"
  shows "yields (sd_protect_command sd cmd arg addr) (sd_result sd cmd)"
proof -
  note i = sd_result_illegal [OF assms(1), of cmd]
    and ph = sd_phase_other [OF assms(2)]
  have wp: "yields (do { w \<leftarrow> (if cmd = 28 then set_bit_map else clear_bit_map) (unat (sd_addr_to_wpnum addr)) (sd_wp_groups sd);
      Some (sd_r1b, sd\<lparr>sd_wp_groups := w\<rparr>) }) (sd_result sd cmd)" if "\<not> addr \<ge> sd_size sd"
  proof -
    from that have "sd_in_groups sd addr"
      by (intro sd_in_groups_le [OF assms(1)]) (simp add: word_le_nat_alt)
    note g = set_clear_bit_ok [OF this [unfolded sd_in_groups_def]]
    have "yields ((if cmd = 28 then set_bit_map else clear_bit_map) (unat (sd_addr_to_wpnum addr)) (sd_wp_groups sd))
        (\<lambda>w. length w = length (sd_wp_groups sd))"
      by (cases "cmd = 28") (use yields_mono [OF g(1)] yields_mono [OF g(2)] in simp_all)
    then show ?thesis
      unfolding yields_bind
      by (rule yields_mono) (use assms(1,3,4) in \<open>simp add: sd_result_legal ph sd_shape_arrays\<close>)
  qed
  have st: "yields (do { w \<leftarrow> sd_wpbits sd (ucast arg); d \<leftarrow> memcpy (sd_data sd) 0 (le32_bytes w) 0 4;
      Some (sd_r1b, sd_start_data sd_sendingdata_state addr (sd\<lparr>sd_data := d\<rparr>)) }) (sd_result sd cmd)"
    using assms(1,5) sd_shape_lengths [OF assms(1)] unat_wide(2) [of arg]
    by (auto intro!: yields_mono [OF sd_wpbits_ok] yields_mono [OF memcpy_ok] sd_result_legal sd_phase_start sd_shape_arrays
        simp: le32_bytes_def)
  show ?thesis
    unfolding sd_protect_command_def Let_def
    by (intro yields_if) (use i wp st assms in
      \<open>auto intro!: sd_result_legal ph sd_phase_start\<close>)
qed

lemma sd_other_command_ok:
  assumes "sd_shape sd" "sd_phase c' l' sd" "32 \<le> cmd"
    and "cmd = 38 \<Longrightarrow> sd_in_groups sd (sd_wide sd (sd_erase_end sd))"
  shows "yields (sd_other_command sd cmd arg rca) (sd_result sd cmd)"
proof -
  note i = sd_result_illegal [OF assms(1), of cmd]
    and ph = sd_phase_to [OF assms(2)] sd_phase_other [OF assms(2)]
  have er: "yields (do { t \<leftarrow> sd_erase (sd_to sd_programming_state sd); Some (sd_r1b, sd_to sd_transfer_state t) })
      (sd_result sd cmd)" if "cmd = 38"
    using assms(1,4) that by (auto intro!: yields_mono [OF sd_erase_ok] sd_result_legal sd_phase_idle [OF assms(2)])
  have c: "nth_opt (sd_csd sd) 14 = Some (sd_csd sd ! 14)" using sd_shape_lengths(3) [OF assms(1)] by simp
  have gen: "sd_phase 56 False (sd\<lparr>sd_data_offset := 0, sd_state := st\<rparr>)" for st
    using assms(2) by (auto simp: sd_phase_def Let_def)
  show ?thesis
    unfolding sd_other_command_def Let_def c bind.bind_lunit
    by (intro yields_if) (use i er assms(1) gen in
      \<open>auto intro!: sd_result_legal ph sd_phase_start\<close>)
qed

lemma sd_result_status:
  "sd_result (sd\<lparr>sd_card_status := cs\<rparr>) c = sd_result sd c" if "bit cs 30 = sd_lost sd"
  using that by (simp add: sd_result_def sd_lost_def)

lemma sd_cmd_tables: "length sd_cmd_type = 64" "length sd_cmd_class = 64"
  by (simp_all add: sd_cmd_type_def sd_cmd_class_def)

lemma sd_wide_status [simp]: "sd_wide (sd\<lparr>sd_card_status := cs\<rparr>) = sd_wide sd"
  "sd_in_groups (sd\<lparr>sd_card_status := cs\<rparr>) = sd_in_groups sd"
  by (simp_all add: sd_wide_def sd_in_groups_def fun_eq_iff)

lemma sd_normal_command_ok:
  assumes "sd_shape sd" "sd_phase c' l' sd" "bdrv_bounded B" "sd_request_ok sd req"
  shows "yields (sd_normal_command B sd req) (sd_result sd (unat (rq_cmd req)))"
proof -
  define t where "t = sd\<lparr>sd_card_status := sd_card_status sd AND NOT APP_CMD\<rparr>"
  have t: "sd_shape t" "sd_phase c' l' t" using assms by (simp_all add: t_def)
  have r: "sd_result sd = sd_result t"
    by (rule ext) (simp add: t_def sd_result_status sd_lost_def bit_simps)
  note req = assms(4) [unfolded sd_request_ok_def Let_def]
  have a: "unat (sd_wide sd (rq_arg req)) \<le> 2 ^ 52" using unat_wide(1) [of sd "rq_arg req"] by simp
  have ty: "nth_opt sd_cmd_type (unat (rq_cmd req)) = Some (sd_cmd_type ! unat (rq_cmd req))"
    using req by (simp add: sd_cmd_tables)
  show ?thesis
    unfolding sd_normal_command_def Let_def sd_wide_def [symmetric] t_def [symmetric] ty bind.bind_lunit r
    by (intro yields_if sd_init_command_ok [OF t] sd_basic_command_ok [OF t] sd_block_command_ok [OF t]
        sd_protect_command_ok [OF t] sd_other_command_ok [OF t])
      (use assms(3) req a in \<open>auto simp: t_def\<close>)
qed

lemma sd_app_command_ok:
  assumes "sd_shape sd" "sd_phase c' l' sd" "bdrv_bounded B" "sd_request_ok sd req"
  shows "yields (sd_app_command B sd req) (sd_result sd (unat (rq_cmd req)))"
proof -
  define t where "t = sd_add_status APP_CMD sd"
  have t: "sd_shape t" "sd_phase c' l' t" "sd_request_ok t req"
    using assms by (simp_all add: t_def) (simp add: sd_add_status_def sd_request_ok_def)
  have r: "sd_result sd = sd_result t"
    by (rule ext) (simp add: t_def sd_add_status_def sd_result_status sd_lost_def bit_simps)
  note i = sd_result_illegal [OF t(1)]
  note l = sd_shape_lengths [OF t(1)]
  have b: "nth_opt (sd_sd_status t) 0 = Some (sd_sd_status t ! 0)" using l by simp
  have w: "yields (do { d \<leftarrow> memcpy (sd_data t) 0 (le32_bytes (sd_blk_written t)) 0 4;
      Some (sd_r1, sd_start_data sd_sendingdata_state 0 (t\<lparr>sd_data := d\<rparr>)) }) (sd_result t c)" for c
    using t(1) l by (auto intro!: yields_mono [OF memcpy_ok] sd_result_legal sd_phase_start sd_shape_arrays simp: le32_bytes_def)
  have normal: "yields (sd_normal_command B t req) (sd_result t (unat (rq_cmd req)))"
    by (rule sd_normal_command_ok) (use t assms(3) in auto)
  show ?thesis
    unfolding sd_app_command_def Let_def t_def [symmetric] r b bind.bind_lunit
    by (intro yields_if) (use i w normal t(1) l in
      \<open>auto intro!: sd_result_legal sd_phase_to [OF t(2)] sd_phase_other [OF t(2)] sd_phase_start sd_shape_arrays\<close>)
qed

text \<open>A response has no bytes, four or sixteen.\<close>

definition sd_reply :: "u8 list \<times> 'b SDState \<Rightarrow> bool" where
  "sd_reply rt \<longleftrightarrow> sd_inv (snd rt) \<and> length (fst rt) \<in> {0, 4, 16}"

lemma sd_send_response_ok:
  "sd_reply (sd_send_response r sd)" if "sd_shape sd" "sd_phase (unat (sd_current_cmd sd)) (r = sd_illegal \<and> sd_lost sd) sd"
proof (cases "r = sd_illegal")
  case True
  with that show ?thesis by (simp add: sd_send_response_def sd_inv_def sd_reply_def)
next
  case False
  with that(2) have "sd_phase (unat (sd_current_cmd sd)) l sd" for l by (auto simp: sd_phase_def Let_def)
  with that(1) show ?thesis
    using sd_shape_lengths(2,3) [OF that(1)]
    by (cases r) (simp_all add: sd_send_response_def sd_inv_def sd_reply_def sd_response_r1_make_def sd_response_r3_make_def
        sd_response_r6_make_def sd_response_r7_make_def be32_bytes_def Let_def)
qed

lemma sd_phase_weaken: "sd_phase c l sd \<Longrightarrow> (l \<Longrightarrow> l') \<Longrightarrow> sd_phase c l' sd"
  by (auto simp: sd_phase_def Let_def)

definition sd_finish :: "u8 \<Rightarrow> u32 \<Rightarrow> sd_rsp_type \<times> 'b SDState \<Rightarrow> u8 list \<times> 'b SDState" where
  "sd_finish c bits = (\<lambda>(rtype, sd).
     sd_send_response rtype
       (if rtype = sd_illegal then sd_add_status ILLEGAL_COMMAND sd
        else sd\<lparr>sd_current_cmd := c, sd_card_status := (sd_card_status sd AND NOT CURRENT_STATE) OR bits\<rparr>))"

lemma sd_finish_ok:
  assumes "sd_result sd (unat c) rt" "sd_phase (unat (sd_current_cmd sd)) (sd_lost sd) sd"
  shows "sd_reply (sd_finish c bits rt)"
proof (cases rt)
  case (Pair r t)
  show ?thesis
  proof (cases "r = sd_illegal")
    case True
    with Pair assms(1) have t: "sd_shape t" "sd_state t = sd_state sd" "sd_data_offset t = sd_data_offset sd"
      "sd_data_start t = sd_data_start sd" "sd_current_cmd t = sd_current_cmd sd" "sd_lost sd \<Longrightarrow> sd_lost t"
      by (simp_all add: sd_result_def)
    have "sd_phase (unat (sd_current_cmd t)) (sd_lost sd) t" using assms(2) t(2-5) by (simp add: sd_phase_def)
    then have "sd_phase (unat (sd_current_cmd t)) (sd_lost (sd_add_status ILLEGAL_COMMAND t)) t"
      by (rule sd_phase_weaken) (use t(6) in \<open>simp add: sd_lost_def sd_add_status_def bit_simps\<close>)
    with True Pair t(1) show ?thesis by (simp add: sd_finish_def sd_send_response_ok)
  next
    case False
    with Pair assms(1) have "sd_shape t" "sd_phase (unat c) False t" by (simp_all add: sd_result_def)
    with False Pair show ?thesis by (simp add: sd_finish_def sd_send_response_ok)
  qed
qed

lemma cmd_valid_ok: "unat (rq_cmd req) < 64 \<Longrightarrow> yields (cmd_valid_while_locked sd req) (\<lambda>_. True)"
  by (simp add: cmd_valid_while_locked_def Let_def sd_cmd_tables)

lemma sd_do_command_ok:
  assumes "sd_inv sd" "bdrv_bounded B" "sd_request_ok sd req"
  shows "yields (sd_do_command B sd req) sd_reply"
proof -
  note inv = assms(1) [unfolded sd_inv_def]
  define t where "t = sd_set_mode sd"
  have t: "sd_shape t" "sd_phase (unat (sd_current_cmd t)) (sd_lost t) t" "sd_request_ok t req"
    using inv assms(3) by (simp_all add: t_def sd_set_mode_def sd_lost_def)
      (simp_all add: sd_request_ok_def sd_wide_def sd_in_groups_def)
  define u where "u = t\<lparr>sd_expecting_acmd := False\<rparr>"
  have u: "sd_shape u" "sd_phase (unat (sd_current_cmd u)) (sd_lost u) u" "sd_request_ok u req"
    using t by (simp_all add: u_def sd_lost_def) (simp_all add: sd_request_ok_def sd_wide_def sd_in_groups_def)
  have run: "yields (if sd_expecting_acmd t then sd_app_command B u req else sd_normal_command B t req)
      (\<lambda>rt. sd_reply (sd_finish (rq_cmd req) bits rt))" for bits
    by (intro yields_if yields_mono [OF sd_app_command_ok [OF u(1,2) assms(2) u(3)]]
        yields_mono [OF sd_normal_command_ok [OF t(1,2) assms(2) t(3)]])
      (auto intro: sd_finish_ok t u)
  have bad: "sd_reply (sd_send_response sd_illegal ((sd_add_status ILLEGAL_COMMAND sd)\<lparr>sd_expecting_acmd := False\<rparr>))"
    using inv by (simp add: sd_send_response_ok sd_lost_def sd_add_status_def bit_simps)
  have locked: "yields (if c then cmd_valid_while_locked sd req else Some True) (\<lambda>_. True)" for c
    using assms(3) cmd_valid_ok [of req sd] by (simp add: sd_request_ok_def Let_def)
  show ?thesis
    unfolding sd_do_command_def sd_req_crc_validate_def Let_def t_def [symmetric] u_def [symmetric]
    by (intro yields_if, simp add: assms(1) sd_reply_def, simp, subst yields_bind, rule yields_mono [OF locked], rule yields_if,
        simp add: bad, subst yields_bind, rule yields_mono [OF run])
      (auto simp: sd_finish_def)
qed

subsection \<open>Block transfers\<close>

lemma unat_and_511: "unat (x AND 511 :: u64) = unat x mod 512"
proof -
  have "x AND 511 = take_bit 9 x" by (simp add: take_bit_eq_mask mask_eq_exp_minus_1)
  then show ?thesis by (simp add: take_bit_eq_mod unat_mod)
qed

lemma unat_and_not_511: "unat (x AND NOT 511 :: u64) = unat x div 512 * 512"
proof -
  have m: "511 = (mask 9 :: u64)" by (simp add: mask_eq_exp_minus_1)
  have e: "x AND NOT 511 = push_bit 9 (drop_bit 9 x)"
    unfolding m by (rule bit_word_eqI) (auto simp: bit_simps)
  have "unat x div 512 < 2 ^ 55" using unat_lt2p [of x] by simp
  then have "unat (push_bit 9 (drop_bit 9 x)) = unat (drop_bit 9 x) * 512"
    by (intro unat_push_bit_9) (simp add: unat_drop_bit_div)
  with e show ?thesis by (simp only: unat_drop_bit_div) simp
qed

text \<open>The address arithmetic of both block transfers: the second sector is touched exactly when the block crosses into it.\<close>

lemma blk_split:
  assumes "unat addr < 2 ^ 53" "unat len \<le> 512"
  shows "unat (addr + ucast (len::u32) :: u64) = unat addr + unat len"
    "addr + ucast len > (addr AND NOT 511) + 512 \<longleftrightarrow> 512 < unat addr mod 512 + unat len"
    "512 < unat addr mod 512 + unat len \<Longrightarrow>
       unat ((addr + ucast len) AND 511) = unat addr mod 512 + unat len - 512"
    "512 < unat addr mod 512 + unat len \<Longrightarrow>
       unat (drop_bit 9 (addr + ucast len)) = unat (drop_bit 9 addr) + 1"
proof -
  have e: "unat (addr + ucast len :: u64) = unat addr + unat len"
    using assms by (simp add: unat_word_add unat_ucast_up)
  then show "unat (addr + ucast len :: u64) = unat addr + unat len" .
  have "unat addr div 512 * 512 \<le> unat addr" by simp
  then have "unat (addr AND NOT 511) + unat (512::u64) < 2 ^ LENGTH(64)"
    unfolding unat_and_not_511 using assms(1) by simp
  then have "unat ((addr AND NOT 511) + 512) = unat (addr AND NOT 511) + unat (512::u64)" by (rule unat_word_add)
  then have "unat ((addr AND NOT 511) + 512) = unat addr div 512 * 512 + 512"
    unfolding unat_and_not_511 by simp
  then show "addr + ucast len > (addr AND NOT 511) + 512 \<longleftrightarrow> 512 < unat addr mod 512 + unat len"
    unfolding word_less_nat_alt e using div_mult_mod_eq [of "unat addr" 512] by linarith
  assume c: "512 < unat addr mod 512 + unat len"
  have d: "unat addr + unat len = (unat addr div 512 + 1) * 512 + (unat addr mod 512 + unat len - 512)"
    using c div_mult_mod_eq [of "unat addr" 512] by simp
  have m: "unat addr mod 512 + unat len - 512 < 512" using assms(2) c mod_less_divisor [of 512 "unat addr"] by linarith
  have dm: "(unat addr + unat len) div 512 = unat addr div 512 + 1"
    "(unat addr + unat len) mod 512 = unat addr mod 512 + unat len - 512"
    by (subst d, simp only: div_mult_self3 m, simp add: m) (subst d, simp only: mod_mult_self3 m mod_less)
  then show "unat ((addr + ucast len) AND 511) = unat addr mod 512 + unat len - 512"
    "unat (drop_bit 9 (addr + ucast len)) = unat (drop_bit 9 addr) + 1"
    by (simp_all only: unat_and_511 unat_drop_bit_div e) simp
qed

text \<open>A read changes the two buffers only, a write the sector buffer and the medium.\<close>

definition sd_buffers :: "'b SDState \<Rightarrow> 'b SDState \<Rightarrow> bool" where
  "sd_buffers sd t \<longleftrightarrow> t = sd\<lparr>sd_data := sd_data t, sd_buf := sd_buf t, sd_bdrv := sd_bdrv t\<rparr> \<and>
     length (sd_data t) = 512 \<and> length (sd_buf t) = 512"

lemma sd_blk_read_ok:
  assumes "sd_shape sd" "bdrv_bounded B" "unat addr < 2 ^ 53" "unat len \<le> 512"
  shows "yields (sd_blk_read B sd addr len) (sd_buffers sd)"
proof -
  note l = sd_shape_lengths(7,8) [OF assms(1)] and sp = blk_split [OF assms(3,4)]
  have n: "length (snd (bdrv_read B b s)) = 512" for b s using assms(2) by (simp add: bdrv_bounded_def)
  have "unat addr mod 512 < 512" by simp
  then have m: "unat addr mod 512 + unat len - 512 \<le> 512" "unat addr mod 512 \<le> 512" using assms(4) by linarith+
  show ?thesis
  proof (cases "sd_bdrv sd")
    case None
    with l show ?thesis by (simp add: sd_blk_read_def sd_buffers_def)
  next
    case (Some b)
    show ?thesis
      unfolding sd_blk_read_def Some option.case Let_def case_prod_beta sp(2) unat_and_511 [of addr]
      by (intro yields_if) (use l n m sp(3) assms(4) in \<open>simp_all add: memcpy_def sd_buffers_def\<close>)
  qed
qed

lemma sd_blk_write_ok:
  assumes "sd_shape sd" "bdrv_bounded B" "unat addr < 2 ^ 53" "unat len \<le> 512" "sd_bdrv sd \<noteq> None"
  shows "yields (sd_blk_write B sd addr len) (sd_buffers sd)"
proof -
  note l = sd_shape_lengths(7,8) [OF assms(1)] and sp = blk_split [OF assms(3,4)]
  obtain b where b: "sd_bdrv sd = Some b" using assms(5) by auto
  have n: "length (snd (bdrv_read B b s)) = 512" for b s using assms(2) by (simp add: bdrv_bounded_def)
  have "unat addr mod 512 < 512" by simp
  then have m: "unat addr mod 512 + unat len - 512 \<le> 512" "unat addr mod 512 \<le> 512" using assms(4) by linarith+
  show ?thesis
    unfolding sd_blk_write_def b option.case Let_def case_prod_beta sp(2) unat_and_511 [of addr]
    by (intro yields_if) (use l n m sp(3) assms(4) b in \<open>simp_all add: memcpy_def sd_buffers_def\<close>)
qed

subsection \<open>The data phases\<close>

lemma sd_buffers_keeps:
  assumes "sd_buffers sd t" "sd_shape sd"
  shows "sd_shape t" "sd_data_start t = sd_data_start sd" "sd_current_cmd t = sd_current_cmd sd" "sd_blk_len t = sd_blk_len sd"
    "sd_data_offset t = sd_data_offset sd" "sd_state t = sd_state sd" "sd_card_status t = sd_card_status sd"
    "sd_size t = sd_size sd" "sd_ocr t = sd_ocr sd"
proof -
  define d b m where "d = sd_data t" and "b = sd_buf t" and "m = sd_bdrv t"
  have t: "t = sd\<lparr>sd_data := d, sd_buf := b, sd_bdrv := m\<rparr>" "length d = 512" "length b = 512"
    using assms(1) by (simp_all add: sd_buffers_def d_def b_def m_def)
  then show "sd_shape t" using assms(2) by (simp add: sd_shape_arrays)
  from t show "sd_data_start t = sd_data_start sd" "sd_current_cmd t = sd_current_cmd sd" "sd_blk_len t = sd_blk_len sd"
    "sd_data_offset t = sd_data_offset sd" "sd_state t = sd_state sd" "sd_card_status t = sd_card_status sd"
    "sd_size t = sd_size sd" "sd_ocr t = sd_ocr sd" by simp_all
qed

lemma sd_commit_ok:
  assumes "sd_shape t" "bdrv_bounded B" "unat (sd_data_start t) < 2 ^ 53" "unat (sd_data_offset t) \<le> 512" "sd_bdrv t \<noteq> None"
  shows "yields (sd_commit B t)
    (\<lambda>u. sd_shape u \<and> sd_data_start u = sd_data_start t \<and> sd_current_cmd u = sd_current_cmd t \<and>
         sd_blk_len u = sd_blk_len t)"
proof -
  let ?p = "sd_to sd_programming_state t"
  have p: "sd_shape ?p" "sd_bdrv ?p \<noteq> None" using assms(1,5) by (simp_all add: sd_to_def)
  have "yields (sd_mark_written u) (\<lambda>u. sd_shape u \<and> sd_data_start u = sd_data_start t \<and>
      sd_current_cmd u = sd_current_cmd t \<and> sd_blk_len u = sd_blk_len t)" if "sd_buffers ?p u" for u
    using sd_buffers_keeps [OF that p(1)] sd_shape_lengths(3) [of u]
    by (simp add: sd_mark_written_def sd_shape_arrays) (simp add: sd_to_def)
  then show ?thesis
    unfolding sd_commit_def yields_bind by (rule yields_mono [OF sd_blk_write_ok [OF p(1) assms(2-4) p(2)]])
qed

lemma sd_program_ok:
  assumes "sd_shape sd"
  shows "yields (sd_program_cid sd) (\<lambda>t. sd_shape t \<and> sd_data_start t = sd_data_start sd)"
    "yields (sd_program_csd sd) (\<lambda>t. sd_shape t \<and> sd_data_start t = sd_data_start sd)"
  using sd_shape_lengths [OF assms] assms
  by (simp_all add: sd_program_cid_def sd_program_csd_def Let_def sd_shape_arrays sd_csd_rw_mask_def sd_add_status_def)

lemma sd_inv_transfer:
  "sd_shape t \<Longrightarrow> unat (sd_data_start t) < 2 ^ 53 \<Longrightarrow> sd_inv (sd_to sd_transfer_state t)"
  by (simp add: sd_inv_def sd_phase_def Let_def)

lemma sd_inv_add_status: "sd_inv sd \<Longrightarrow> sd_inv (sd_add_status m sd)"
  by (auto simp: sd_inv_def sd_lost_def bit_simps sd_add_status_def elim: sd_phase_weaken)

lemma no_address_error: "cs AND (ADDRESS_ERROR OR WP_VIOLATION) = 0 \<Longrightarrow> \<not> bit cs 30"
proof
  assume "cs AND (ADDRESS_ERROR OR WP_VIOLATION) = 0" "bit cs 30"
  then have "bit (cs AND (ADDRESS_ERROR OR WP_VIOLATION)) 30 = bit (0::u32) 30" by simp
  with \<open>bit cs 30\<close> show False by (simp add: bit_simps)
qed

lemma sd_receiving_ok:
  fixes v :: u8
  assumes "sd_inv sd" "sd_state sd = sd_receivingdata_state"
  defines "t \<equiv> sd\<lparr>sd_data := (sd_data sd)[unat (sd_data_offset sd) := v], sd_data_offset := sd_data_offset sd + 1\<rparr>"
  shows "sd_put_byte sd v = Some t" "sd_shape t" "unat (sd_data_offset t) = unat (sd_data_offset sd) + 1"
    "unat (sd_data_offset t) \<le> 512" "unat (sd_data_start t) < 2 ^ 53"
    "unat (sd_data_offset t) < 512 \<Longrightarrow> sd_current_cmd sd \<noteq> 25 \<or> unat (sd_data_start sd) \<le> 2 ^ 52 \<Longrightarrow> sd_inv t"
proof -
  note inv = assms(1) [unfolded sd_inv_def]
  have o: "unat (sd_data_offset sd) < 512" and s: "unat (sd_data_start sd) < 2 ^ 53"
    using inv assms(2) by (simp_all add: sd_phase_def Let_def)
  show "sd_put_byte sd v = Some t" using o sd_shape_lengths(7) [of sd] inv by (simp add: sd_put_byte_def t_def)
  show shape: "sd_shape t" using inv sd_shape_lengths(7) [of sd] by (simp add: t_def sd_shape_arrays)
  show off: "unat (sd_data_offset t) = unat (sd_data_offset sd) + 1" using o by (simp add: t_def unat_word_add)
  then show "unat (sd_data_offset t) \<le> 512" using o by simp
  show "unat (sd_data_start t) < 2 ^ 53" using s by (simp add: t_def)
  assume "unat (sd_data_offset t) < 512" "sd_current_cmd sd \<noteq> 25 \<or> unat (sd_data_start sd) \<le> 2 ^ 52"
  moreover have "unat (sd_current_cmd sd) = 25 \<longleftrightarrow> sd_current_cmd sd = 25" by (simp add: word_unat_eq_iff)
  ultimately show "sd_inv t"
    using shape s assms(2) by (auto simp: sd_inv_def sd_phase_def Let_def t_def)
qed

lemma sd_receiving_more:
  assumes "sd_inv sd" "sd_state sd = sd_receivingdata_state" "sd_put_byte sd v = Some t"
    and "\<not> sd_data_offset t \<ge> n" "unat n \<le> 512" "sd_current_cmd sd \<noteq> 25 \<or> unat (sd_data_start sd) \<le> 2 ^ 52"
  shows "sd_inv t"
  using assms sd_receiving_ok [OF assms(1,2), of v] by (simp add: word_le_nat_alt)

text \<open>What a byte of a data phase may rely on: a medium, no address error, and the state of the phase.\<close>

definition sd_receiving :: "'b SDState \<Rightarrow> bool" where
  "sd_receiving sd \<longleftrightarrow> sd_inv sd \<and> sd_state sd = sd_receivingdata_state \<and> \<not> sd_lost sd \<and> sd_bdrv sd \<noteq> None"

lemma sd_write_single_ok:
  assumes "sd_receiving sd" "bdrv_bounded B" "sd_current_cmd sd \<noteq> 25"
  shows "yields (sd_write_single B sd v) sd_inv"
proof -
  have sd: "sd_inv sd" "sd_state sd = sd_receivingdata_state" using assms(1) by (simp_all add: sd_receiving_def)
  note r = sd_receiving_ok [OF sd, of v]
  have b: "sd_bdrv (sd\<lparr>sd_data := d, sd_data_offset := n\<rparr>) \<noteq> None" for d n using assms(1) by (simp add: sd_receiving_def)
  show ?thesis
    unfolding sd_write_single_def r(1) bind.bind_lunit
    by (intro yields_if, subst yields_map, rule yields_mono [OF sd_commit_ok [OF r(2) assms(2) r(5,4) b]])
      (use r(5) sd_receiving_more [OF sd r(1)] assms(3) sd_shape_lengths(9) [OF r(2)] in \<open>auto intro: sd_inv_transfer\<close>)
qed

lemma sd_multiple_start:
  assumes "sd_receiving sd" "sd_current_cmd sd = 25"
    and "\<not> (sd_data_offset sd = 0 \<and> sd_data_start sd + ucast (sd_blk_len sd) > sd_size sd)"
  shows "unat (sd_data_start sd) \<le> 2 ^ 52" "sd_data_offset sd = 0 \<Longrightarrow> sd_in_groups sd (sd_data_start sd)"
proof -
  have inv: "sd_shape sd" "sd_phase 25 False sd" "unat (sd_data_start sd) < 2 ^ 53" "unat (sd_size sd) < 2 ^ 52"
    using assms(1,2) by (simp_all add: sd_receiving_def sd_inv_def sd_phase_def sd_shape_def Let_def)
  have le: "unat (sd_data_start sd) \<le> unat (sd_size sd)" if "sd_data_offset sd = 0"
    using assms(3) that blk_split(1) [OF inv(3) sd_shape_lengths(9) [OF inv(1)]] by (simp add: word_less_nat_alt)
  then show "sd_data_offset sd = 0 \<Longrightarrow> sd_in_groups sd (sd_data_start sd)" by (rule sd_in_groups_le [OF inv(1)])
  show "unat (sd_data_start sd) \<le> 2 ^ 52"
  proof (cases "sd_data_offset sd = 0")
    case True
    with le inv(4) show ?thesis by simp
  next
    case False
    with inv(2) assms(1) show ?thesis by (simp add: sd_phase_def sd_receiving_def Let_def unat_gt_0)
  qed
qed

lemma sd_write_multiple_ok:
  assumes "sd_receiving sd" "bdrv_bounded B" "sd_current_cmd sd = 25"
  shows "yields (sd_write_multiple B sd v) sd_inv"
proof -
  have sd: "sd_inv sd" "sd_state sd = sd_receivingdata_state" using assms(1) by (simp_all add: sd_receiving_def)
  note r = sd_receiving_ok [OF sd, of v]
  have b: "sd_bdrv (sd\<lparr>sd_data := d, sd_data_offset := n\<rparr>) \<noteq> None" for d n using assms(1) by (simp add: sd_receiving_def)
  note commit = sd_commit_ok [OF r(2) assms(2) r(5,4) b]
  have next_block: "sd_inv (sd_start_data sd_receivingdata_state (sd_data_start sd + ucast (sd_blk_len sd)) u)"
    if "sd_shape u" "unat (sd_data_start sd) \<le> 2 ^ 52" for u
    using that blk_split(1) [of "sd_data_start sd" "sd_blk_len sd"] sd_shape_lengths(9) [of sd] sd(1)
    by (simp add: sd_inv_def sd_phase_def sd_start_data_def Let_def)
  show ?thesis
  proof (cases "sd_data_offset sd = 0 \<and> sd_data_start sd + ucast (sd_blk_len sd) > sd_size sd")
    case True
    with sd(1) show ?thesis by (simp add: sd_write_multiple_def sd_inv_add_status)
  next
    case False
    note start = sd_multiple_start [OF assms(1,3) False]
    have wp: "yields (if sd_data_offset sd = 0 then sd_wp_addr sd (sd_data_start sd) else Some False) (\<lambda>_. True)"
      using start(2) by (simp add: sd_wp_addr_ok)
    show ?thesis
      unfolding sd_write_multiple_def r(1) bind.bind_lunit if_not_P [OF False]
      by (subst yields_bind, rule yields_mono [OF wp], intro yields_if, simp add: sd(1) sd_inv_add_status,
          subst yields_bind, rule yields_mono [OF commit])
        (use start(1) next_block sd_receiving_more [OF sd r(1)] sd_shape_lengths(9) [OF r(2)] in auto)
  qed
qed

lemma sd_write_data_ok:
  assumes "sd_inv sd" "bdrv_bounded B"
  shows "yields (sd_write_data B sd v) sd_inv"
proof (cases "sd_present B sd \<and> sd_state sd = sd_receivingdata_state \<and>
    sd_card_status sd AND (ADDRESS_ERROR OR WP_VIOLATION) = 0")
  case False
  then show ?thesis using assms(1) unfolding sd_write_data_def Let_def by auto
next
  case True
  then have sd: "sd_inv sd" "sd_state sd = sd_receivingdata_state" using assms(1) by simp_all
  have rc: "sd_receiving sd"
    using True assms(1) no_address_error [of "sd_card_status sd"]
    by (auto simp: sd_receiving_def sd_present_def sd_lost_def split: option.splits)
  note r = sd_receiving_ok [OF sd, of v] and more = sd_receiving_more [OF sd sd_receiving_ok(1) [OF sd]]
  have cmd: "unat (sd_current_cmd sd) = 25 \<longleftrightarrow> sd_current_cmd sd = 25" by (simp add: word_unat_eq_iff)
  show ?thesis
    unfolding sd_write_data_def Let_def r(1) bind.bind_lunit yields_map
    by (intro yields_if sd_write_single_ok [OF rc assms(2)] sd_write_multiple_ok [OF rc assms(2)])
      (use True assms(1) cmd more [where v = v] r(2,5) sd_shape_lengths(9) [OF r(2)] in
        \<open>auto intro!: yields_mono [OF sd_program_ok(1)] yields_mono [OF sd_program_ok(2)] yields_mono [OF sd_lock_command_ok] intro: sd_inv_transfer\<close>)
qed

definition sd_sending :: "'b SDState \<Rightarrow> bool" where
  "sd_sending sd \<longleftrightarrow> sd_inv sd \<and> sd_state sd = sd_sendingdata_state \<and> \<not> sd_lost sd"

lemma sd_sending_offset:
  assumes "sd_sending sd"
  shows "sd_shape sd" "unat (sd_data_offset sd) < 512" "unat (sd_data_start sd) < 2 ^ 53"
    "unat (sd_current_cmd sd) = 13 \<Longrightarrow> unat (sd_data_offset sd) < 64"
    "unat (sd_current_cmd sd) = 51 \<Longrightarrow> unat (sd_data_offset sd) < 8"
    "unat (sd_current_cmd sd) = 11 \<or> unat (sd_current_cmd sd) = 18 \<Longrightarrow> unat (sd_data_start sd) \<le> 2 ^ 52"
    "unat (sd_data_offset sd + 1) = unat (sd_data_offset sd) + 1" "unat (sd_io_len sd) \<le> 512"
proof -
  show "sd_shape sd" "unat (sd_data_offset sd) < 512" "unat (sd_data_start sd) < 2 ^ 53"
    "unat (sd_current_cmd sd) = 13 \<Longrightarrow> unat (sd_data_offset sd) < 64"
    "unat (sd_current_cmd sd) = 51 \<Longrightarrow> unat (sd_data_offset sd) < 8"
    "unat (sd_current_cmd sd) = 11 \<or> unat (sd_current_cmd sd) = 18 \<Longrightarrow> unat (sd_data_start sd) \<le> 2 ^ 52"
    using assms by (auto simp: sd_sending_def sd_inv_def sd_phase_def Let_def)
  then show "unat (sd_data_offset sd + 1) = unat (sd_data_offset sd) + 1" "unat (sd_io_len sd) \<le> 512"
    using sd_shape_lengths(9) [of sd] by (simp_all add: unat_word_add sd_io_len_def)
qed

lemma sd_get_until_ok:
  assumes "sd_sending sd" "unat (sd_data_offset sd) < length xs" "unat n \<le> 512"
    and "unat (sd_current_cmd sd) \<notin> {11, 18}"
    and "unat (sd_current_cmd sd) = 13 \<Longrightarrow> n = 64" "unat (sd_current_cmd sd) = 51 \<Longrightarrow> n = 8"
  shows "yields (sd_get_until xs n sd) (\<lambda>r. sd_inv (snd r))"
proof -
  note o = sd_sending_offset [OF assms(1)]
  let ?t = "sd\<lparr>sd_data_offset := sd_data_offset sd + 1\<rparr>"
  have "sd_inv ?t" if "\<not> sd_data_offset sd + 1 \<ge> n"
    using that o assms(1,3-) by (auto simp: sd_inv_def sd_phase_def Let_def sd_sending_def word_le_nat_alt)
  then show ?thesis
    using assms(2) o by (simp add: sd_get_until_def sd_get_byte_def sd_inv_transfer)
qed

lemma sd_fetch_ok: "sd_sending sd \<Longrightarrow> bdrv_bounded B \<Longrightarrow> yields (sd_fetch B sd) (sd_buffers sd)"
  using sd_sending_offset [of sd] sd_shape_lengths(7,8) [of sd]
  by (simp add: sd_fetch_def sd_blk_read_ok sd_buffers_def)

lemma sd_buffers_sending: "sd_buffers sd t \<Longrightarrow> sd_sending sd \<Longrightarrow> sd_sending t"
  using sd_buffers_keeps [of sd t] by (simp add: sd_sending_def sd_inv_def sd_phase_def sd_lost_def Let_def)

lemma sd_read_multiple_ok:
  assumes "sd_sending sd" "bdrv_bounded B" "unat (sd_current_cmd sd) = 11 \<or> unat (sd_current_cmd sd) = 18"
  shows "yields (sd_read_multiple B sd) (\<lambda>r. sd_inv (snd r))"
proof -
  have "yields (do { (v, t) \<leftarrow> sd_get_byte (sd_data t) t;
      Some (v, if sd_data_offset t \<ge> sd_io_len sd then
          let t = t\<lparr>sd_data_start := sd_data_start t + ucast (sd_io_len sd), sd_data_offset := 0\<rparr>
          in if sd_data_start t + ucast (sd_io_len sd) > sd_size t then sd_add_status ADDRESS_ERROR t else t
        else t) }) (\<lambda>r. sd_inv (snd r))" if "sd_buffers sd t" for t
  proof -
    have t: "sd_sending t" "sd_current_cmd t = sd_current_cmd sd"
      using that assms(1) sd_buffers_sending [OF that] sd_buffers_keeps [OF that] sd_sending_offset(1) [OF assms(1)] by auto
    note o = sd_sending_offset [OF t(1)] and io = sd_sending_offset(8) [OF assms(1)]
    have start: "unat (sd_data_start t) \<le> 2 ^ 52" using o(6) assms(3) t(2) by simp
    define s where "s = sd_data_start t + ucast (sd_io_len sd)"
    have s: "unat s < 2 ^ 53" "unat (s + ucast (sd_io_len sd)) = unat s + unat (sd_io_len sd)"
      using start io blk_split(1) [OF o(3) io] by (simp_all add: s_def [symmetric] blk_split(1))
    have size: "unat (sd_size t) < 2 ^ 52" using o(1) by (simp add: sd_shape_def)
    have "sd_inv (t\<lparr>sd_data_offset := sd_data_offset t + 1\<rparr>)" if "\<not> sd_data_offset t + 1 \<ge> sd_io_len sd"
      using that o start io t(1) assms(3) t(2)
      by (auto simp: sd_inv_def sd_phase_def Let_def sd_sending_def word_le_nat_alt)
    moreover have "sd_inv (if s + ucast (sd_io_len sd) > sd_size t
        then sd_add_status ADDRESS_ERROR (t\<lparr>sd_data_start := s, sd_data_offset := 0\<rparr>)
        else t\<lparr>sd_data_start := s, sd_data_offset := 0\<rparr>)"
      using o(1) s size by (auto simp: sd_inv_def sd_phase_def Let_def sd_lost_def sd_add_status_def bit_simps word_less_nat_alt)
    ultimately show ?thesis
      using o(2) sd_shape_lengths(7) [OF o(1)] by (simp add: sd_get_byte_def Let_def s_def [symmetric])
  qed
  then show ?thesis
    unfolding sd_read_multiple_def Let_def by (subst yields_bind) (rule yields_mono [OF sd_fetch_ok [OF assms(1,2)]])
qed

lemma sd_read_data_ok:
  assumes "sd_inv sd" "bdrv_bounded B"
  shows "yields (sd_read_data B sd) (\<lambda>r. sd_inv (snd r))"
proof (cases "sd_present B sd \<and> sd_state sd = sd_sendingdata_state \<and>
    sd_card_status sd AND (ADDRESS_ERROR OR WP_VIOLATION) = 0")
  case False
  then show ?thesis using assms(1) unfolding sd_read_data_def Let_def by auto
next
  case True
  then have sd: "sd_sending sd" using assms(1) no_address_error [of "sd_card_status sd"]
    by (simp add: sd_sending_def sd_lost_def)
  note o = sd_sending_offset [OF sd] and l = sd_shape_lengths [OF sd_sending_offset(1) [OF sd]]
  have d: "yields (if sd_data_offset sd = 0
      then memcpy (sd_data sd) 0 (replicate (unat (sd_blk_len sd)) 0xec) 0 (unat (sd_blk_len sd)) else Some (sd_data sd))
      (\<lambda>d. length d = 512)"
    using l by (simp add: memcpy_def)
  have single: "yields (do { t \<leftarrow> sd_fetch B sd; sd_get_until (sd_data t) (sd_io_len sd) t }) (\<lambda>r. sd_inv (snd r))"
    if c: "unat (sd_current_cmd sd) = 17"
  proof (subst yields_bind, rule yields_mono [OF sd_fetch_ok [OF sd assms(2)]])
    fix t assume t: "sd_buffers sd t"
    show "yields (sd_get_until (sd_data t) (sd_io_len sd) t) (\<lambda>r. sd_inv (snd r))"
      using c o sd_buffers_sending [OF t sd] sd_buffers_keeps [OF t o(1)] sd_shape_lengths(7) [of t]
      by (intro sd_get_until_ok) simp_all
  qed
  have gen: "yields (do { d \<leftarrow> (if sd_data_offset sd = 0
      then memcpy (sd_data sd) 0 (replicate (unat (sd_blk_len sd)) 0xec) 0 (unat (sd_blk_len sd)) else Some (sd_data sd));
      sd_get_until d (sd_blk_len sd) (sd\<lparr>sd_data := d\<rparr>) }) (\<lambda>r. sd_inv (snd r))"
    if c: "unat (sd_current_cmd sd) = 56"
    by (subst yields_bind, rule yields_mono [OF d], rule sd_get_until_ok)
      (use c sd o l in \<open>auto simp: sd_sending_def sd_inv_def sd_lost_def sd_shape_arrays\<close>)
  show ?thesis
    unfolding sd_read_data_def Let_def
    by (intro yields_if single gen sd_get_until_ok sd_read_multiple_ok sd assms(2)) (use True o l in \<open>auto simp: assms(1)\<close>)
qed

subsection \<open>Runs\<close>

lemma sd_reset_fields [simp]:
  "sd_state (sd_reset B sd b) = sd_idle_state" "sd_data_start (sd_reset B sd b) = sd_data_start sd"
  by (simp_all add: sd_reset_def Let_def case_prod_beta)

lemma sd_init_ok: "bdrv_bounded B \<Longrightarrow> sd_inv (sd_init B bs spi)"
  by (simp add: sd_inv_def sd_init_def sd_reset_ok sd_phase_def Let_def) (simp add: sd_zero_def sd_reset_ok)

lemma sd_cardchange_ok:
  assumes "sd_inv sd" "bdrv_bounded B"
  shows "yields (sd_cardchange B (sd\<lparr>sd_bdrv := Some b\<rparr>)) sd_inv"
proof -
  have "sd_phase c l (sd_reset B (t\<lparr>sd_bdrv := x, sd_inserted_cb := y\<rparr>) z)" if "sd_phase c' l' t" for c l t x y z c' l'
    using that by (simp add: sd_phase_def Let_def)
  with assms show ?thesis
    using sd_shape_lengths [of sd]
    by (auto simp: sd_cardchange_def Let_def sd_inv_def sd_lost_def intro!: sd_reset_ok)
qed

lemma sd_event_step_ok:
  assumes "sd_inv sd" "bdrv_bounded B" "sd_event_ok sd e"
  shows "yields (sd_event_step B sd e) sd_inv"
proof (cases e)
  case (SdCommand req)
  with sd_do_command_ok [OF assms(1,2), of req] assms(3) show ?thesis
    by (auto simp: sd_reply_def elim: yields_mono)
qed (use assms sd_write_data_ok sd_read_data_ok sd_cardchange_ok in
  \<open>simp_all add: sd_set_enable_def sd_inv_def sd_lost_def\<close>)

interpretation sdm: guarded_machine "sd_event_step B" sd_event_ok "\<lambda>sd. bdrv_bounded B \<and> sd_inv sd" for B
  by unfold_locales (use sd_event_step_ok in \<open>fastforce simp: yields_def\<close>)

end
