(* ===== verification/SdCardMedium.thy ===== *)
theory SdCardMedium
  imports SdCardSafe
begin

text \<open>
  What the block transfers of \<^verbatim>\<open>hw/sd/sd.c\<close> do to the medium, seen as an array of bytes: a write replaces exactly
  the bytes of the block, a read returns them, whether or not the block crosses a sector boundary. The single block
  commands are then followed byte by byte.
\<close>

text \<open>
  What the card relies on of a medium of \<open>n\<close> sectors, the ones that satisfy \<open>V\<close>: the medium is inserted, sectors below \<open>n\<close> can be read and
  written, a write is seen by later reads of that sector and of no other, and keeps the medium of that kind.
\<close>

definition bdrv_lawful :: "'b bdrv_ops \<Rightarrow> ('b \<Rightarrow> bool) \<Rightarrow> nat \<Rightarrow> bool" where
  "bdrv_lawful B V n \<longleftrightarrow> bdrv_bounded B \<and> n < 2 ^ 43 \<and>
     (\<forall>b. V b \<longrightarrow> bdrv_is_inserted B b) \<and> (\<forall>b s. V b \<longrightarrow> unat s < n \<longrightarrow> fst (bdrv_read B b s)) \<and>
     (\<forall>b s buf. V b \<longrightarrow> unat s < n \<longrightarrow> length buf = 512 \<longrightarrow>
        fst (bdrv_write B b s buf) \<and> V (snd (bdrv_write B b s buf)) \<and>
        (\<forall>s'. snd (bdrv_read B (snd (bdrv_write B b s buf)) s') = (if s' = s then buf else snd (bdrv_read B b s'))))"

definition medium_byte :: "'b bdrv_ops \<Rightarrow> 'b \<Rightarrow> nat \<Rightarrow> u8" where
  "medium_byte B b a = snd (bdrv_read B b (of_nat (a div 512))) ! (a mod 512)"

lemma bdrv_lawfulD:
  assumes "bdrv_lawful B V n" "V b" "unat s < n"
  shows "fst (bdrv_read B b s)" "length (snd (bdrv_read B b s)) = 512"
    "length buf = 512 \<Longrightarrow> fst (bdrv_write B b s buf)"
    "length buf = 512 \<Longrightarrow> V (snd (bdrv_write B b s buf))"
    "length buf = 512 \<Longrightarrow> snd (bdrv_read B (snd (bdrv_write B b s buf)) s') = (if s' = s then buf else snd (bdrv_read B b s'))"
  using assms by (auto simp: bdrv_lawful_def bdrv_bounded_def)

lemma memcpy_yields:
  "d + n \<le> length dst \<Longrightarrow> so + n \<le> length src \<Longrightarrow>
   yields (memcpy dst d src so n) (\<lambda>r. length r = length dst \<and>
     (\<forall>i<length dst. r ! i = (if d \<le> i \<and> i < d + n then src ! (so + (i - d)) else dst ! i)))"
  by (auto simp: memcpy_def nth_append)

text \<open>The byte at an address, by sector and offset.\<close>

lemma medium_byte_at:
  "unat s < 2 ^ 43 \<Longrightarrow> k < 512 \<Longrightarrow> medium_byte B b (unat s * 512 + k) = snd (bdrv_read B b s) ! k"
  by (simp add: medium_byte_def div_mult_self3 mod_mult_self3)

lemma medium_byte_write:
  assumes "bdrv_lawful B V n" "V b" "unat s < n" "length buf = 512" "a < 512 * n"
  shows "medium_byte B (snd (bdrv_write B b s buf)) a = (if a div 512 = unat s then buf ! (a mod 512) else medium_byte B b a)"
proof -
  have n: "n < 2 ^ 43" using assms(1) by (simp add: bdrv_lawful_def)
  have "a div 512 < n" using assms(5) by (simp add: div_less_iff_less_mult mult.commute)
  then have "(of_nat (a div 512) = s) = (a div 512 = unat s)"
    using n by (auto simp: word_unat_eq_iff unat_of_nat take_bit_nat_eq_self_iff)
  then show ?thesis
    using bdrv_lawfulD(5) [OF assms(1-4)] by (simp add: medium_byte_def)
qed

lemma sd_blk_read_medium:
  assumes "bdrv_lawful B V n" "V b" "sd_bdrv sd = Some b" "sd_shape sd" "unat len \<le> 512" "0 < unat len"
    and "unat addr + unat len \<le> 512 * n"
  shows "yields (sd_blk_read B sd addr len) (\<lambda>t. sd_buffers sd t \<and> sd_bdrv t = Some b \<and>
    (\<forall>i<512. sd_data t ! i = (if i < unat len then medium_byte B b (unat addr + i) else sd_data sd ! i)))"
proof -
  have n: "n < 2 ^ 43" using assms(1) by (simp add: bdrv_lawful_def)
  have a53: "unat addr < 2 ^ 53" using n assms(7) by simp
  note sp = blk_split [OF a53 assms(5)] and l = sd_shape_lengths(7,8) [OF assms(4)]
  define q k where "q = unat addr div 512" and "k = unat addr mod 512"
  have qk: "unat addr = q * 512 + k" "k < 512" by (simp_all add: q_def k_def)
  have q: "unat (drop_bit 9 addr) = q" by (simp add: unat_drop_bit_div q_def)
  have s1: "unat (drop_bit 9 addr) < n" using qk assms(6,7) q by simp
  note r1 = bdrv_lawfulD(1,2) [OF assms(1,2) s1]
  have m1: "medium_byte B b (unat addr + i) = snd (bdrv_read B b (drop_bit 9 addr)) ! (k + i)" if "k + i < 512" for i
    using medium_byte_at [of "drop_bit 9 addr" "k + i" B b] that s1 n qk q by (simp add: add.assoc)
  show ?thesis
  proof (cases "512 < k + unat len")
    case False
    then show ?thesis
      unfolding sd_blk_read_def assms(3) option.case Let_def case_prod_beta sp(2) unat_and_511 [of addr] k_def [symmetric]
      using l r1 m1 by (auto intro!: yields_mono [OF memcpy_yields] simp: sd_buffers_def assms(3))
  next
    case True
    let ?e = "addr + ucast len :: u64"
    have e: "unat (drop_bit 9 ?e) = q + 1" "unat (?e AND 511) = k + unat len - 512"
      using sp(3,4) True q by (simp_all add: k_def)
    have s2: "unat (drop_bit 9 ?e) < n" using e(1) qk True assms(7) by simp
    note r2 = bdrv_lawfulD(1,2) [OF assms(1,2) s2]
    have m2: "medium_byte B b (unat addr + i) = snd (bdrv_read B b (drop_bit 9 ?e)) ! (k + i - 512)"
      if "512 \<le> k + i" "i < unat len" for i
      using medium_byte_at [of "drop_bit 9 ?e" "k + i - 512" B b] that s2 n qk e(1) assms(5) by (simp add: add.assoc)
    have idx: "i - (512 - k) = k + i - 512" if "512 \<le> k + i" for i using that qk(2) by simp
    show ?thesis
      unfolding sd_blk_read_def assms(3) option.case Let_def case_prod_beta sp(2) unat_and_511 [of addr] k_def [symmetric]
        if_P [OF True] e(2)
      using l r1 r2 m1 m2 idx True qk(2) assms(5)
      by (auto intro!: yields_mono [OF memcpy_yields] simp: sd_buffers_def assms(3))
  qed
qed

text \<open>Writing a sector whose bytes in a range are new and whose others are the old ones.\<close>

lemma medium_put_sector:
  assumes "bdrv_lawful B V n" "V b" "unat s < n" "length buf = 512"
    and "\<And>j. j < 512 \<Longrightarrow> buf ! j = (if lo \<le> unat s * 512 + j \<and> unat s * 512 + j < hi
       then f (unat s * 512 + j) else medium_byte B b (unat s * 512 + j))"
    and "a < 512 * n"
  shows "medium_byte B (snd (bdrv_write B b s buf)) a =
    (if lo \<le> a \<and> a < hi \<and> a div 512 = unat s then f a else medium_byte B b a)"
proof (cases "a div 512 = unat s")
  case True
  then have "a = unat s * 512 + a mod 512" using div_mult_mod_eq [of a 512] by simp
  then show ?thesis using medium_byte_write [OF assms(1-4,6)] assms(5) [of "a mod 512"] True by auto
next
  case False
  then show ?thesis using medium_byte_write [OF assms(1-4,6)] by auto
qed

definition sd_wrote :: "'b bdrv_ops \<Rightarrow> ('b \<Rightarrow> bool) \<Rightarrow> nat \<Rightarrow> 'b \<Rightarrow> nat \<Rightarrow> u8 list \<Rightarrow> 'b \<Rightarrow> bool" where
  "sd_wrote B V n b addr vs b' \<longleftrightarrow> V b' \<and> (\<forall>a < 512 * n. medium_byte B b' a =
     (if addr \<le> a \<and> a < addr + length vs then vs ! (a - addr) else medium_byte B b a))"

lemma sd_blk_write_inside:
  assumes "bdrv_lawful B V n" "V b" "unat s < n" "length old = 512" "k + len \<le> 512" "so + len \<le> length data"
    and "\<And>j. j < 512 \<Longrightarrow> j < k \<or> k + len \<le> j \<Longrightarrow> old ! j = medium_byte B b (unat s * 512 + j)"
  shows "yields (memcpy old k data so len) (\<lambda>buf. length buf = 512 \<and>
    sd_wrote B V n b (unat s * 512 + k) (take len (drop so data)) (snd (bdrv_write B b s buf)))"
proof -
  define lo where "lo = unat s * 512 + k"
  have inside: "a div 512 = unat s" if "lo \<le> a" "a < lo + len" for a
    using that assms(5) by (intro div_nat_eqI) (auto simp: lo_def)
  have "sd_wrote B V n b lo (take len (drop so data)) (snd (bdrv_write B b s buf))"
    if "length buf = 512" "\<And>j. j < 512 \<Longrightarrow> buf ! j = (if k \<le> j \<and> j < k + len then data ! (so + (j - k)) else old ! j)" for buf
  proof -
    have eq: "buf ! j = (if lo \<le> unat s * 512 + j \<and> unat s * 512 + j < lo + len
        then data ! (so + (unat s * 512 + j - lo)) else medium_byte B b (unat s * 512 + j))" if "j < 512" for j
      using that \<open>\<And>j. j < 512 \<Longrightarrow> buf ! j = _ j\<close> assms(7) by (auto simp: lo_def not_le not_less)
    have "medium_byte B (snd (bdrv_write B b s buf)) a = (if lo \<le> a \<and> a < lo + len \<and> a div 512 = unat s
        then data ! (so + (a - lo)) else medium_byte B b a)" if "a < 512 * n" for a
      using medium_put_sector [OF assms(1-3) \<open>length buf = 512\<close> eq that] .
    then show ?thesis
      using inside bdrv_lawfulD(4) [OF assms(1-3) that(1)] assms(5,6) by (auto simp: sd_wrote_def)
  qed
  then show ?thesis
    using assms(4-6) by (auto intro!: yields_mono [OF memcpy_yields] simp: lo_def)
qed

lemma sd_wrote_append:
  assumes "sd_wrote B V n b a xs b1" "sd_wrote B V n b1 (a + length xs) ys b2"
  shows "sd_wrote B V n b a (xs @ ys) b2"
  using assms by (auto simp: sd_wrote_def nth_append)

lemma sd_blk_write_medium:
  assumes "bdrv_lawful B V n" "V b" "sd_bdrv sd = Some b" "sd_shape sd" "unat len \<le> 512" "0 < unat len"
    and "unat addr + unat len \<le> 512 * n"
  shows "yields (sd_blk_write B sd addr len) (\<lambda>t. sd_buffers sd t \<and> sd_data t = sd_data sd \<and>
    (\<exists>b'. sd_bdrv t = Some b' \<and> sd_wrote B V n b (unat addr) (take (unat len) (sd_data sd)) b'))"
proof -
  have n: "n < 2 ^ 43" using assms(1) by (simp add: bdrv_lawful_def)
  have a53: "unat addr < 2 ^ 53" using n assms(7) by simp
  note sp = blk_split [OF a53 assms(5)] and l = sd_shape_lengths(7,8) [OF assms(4)]
  define q k where "q = unat addr div 512" and "k = unat addr mod 512"
  have qk: "unat addr = q * 512 + k" "k < 512" by (simp_all add: q_def k_def)
  have q: "unat (drop_bit 9 addr) = q" by (simp add: unat_drop_bit_div q_def)
  have s1: "unat (drop_bit 9 addr) < n" using qk assms(6,7) q by simp
  note r1 = bdrv_lawfulD(1,2) [OF assms(1,2) s1]
  define R where "R = (if addr AND 511 \<noteq> 0 \<or> len < 512 then bdrv_read B b (drop_bit 9 addr) else (True, sd_buf sd))"
  have k0: "addr AND 511 = 0 \<longleftrightarrow> k = 0" using unat_and_511 [of addr] by (simp add: k_def word_unat_eq_iff)
  have R: "fst R" "length (snd R) = 512" using r1 l by (simp_all add: R_def)
  have keep: "snd R ! j = medium_byte B b (unat (drop_bit 9 addr) * 512 + j)" if "j < 512" "j < k \<or> k + unat len \<le> j" for j
    using that medium_byte_at [of "drop_bit 9 addr" j B b] s1 n k0 by (auto simp: R_def word_less_nat_alt)
  show ?thesis
  proof (cases "512 < k + unat len")
    case False
    show ?thesis
      unfolding sd_blk_write_def assms(3) option.case Let_def case_prod_beta sp(2) unat_and_511 [of addr] k_def [symmetric]
        if_not_P [OF False] R_def [symmetric]
      using sd_blk_write_inside [OF assms(1,2) s1 R(2) _ _ keep, where so = 0 and data = "sd_data sd"] False R l assms(5) qk q
      by (auto elim!: yields_mono simp: sd_buffers_def assms(3))
  next
    case True
    let ?e = "addr + ucast len :: u64" and ?d = "sd_data sd"
    have e: "unat (drop_bit 9 ?e) = q + 1" "unat (?e AND 511) = k + unat len - 512"
      using sp(3,4) True q by (simp_all add: k_def)
    have s2: "unat (drop_bit 9 ?e) < n" using e(1) qk True assms(7) by simp
    have first: "yields (memcpy (snd R) k ?d 0 (512 - k)) (\<lambda>buf. length buf = 512 \<and>
        sd_wrote B V n b (unat addr) (take (512 - k) ?d) (snd (bdrv_write B b (drop_bit 9 addr) buf)))"
      using sd_blk_write_inside [OF assms(1,2) s1 R(2), where so = 0 and data = ?d and k = k and len = "512 - k"] keep l qk q
      by simp
    have second: "yields (memcpy (snd (bdrv_read B b1 (drop_bit 9 ?e))) 0 ?d (512 - k) (k + unat len - 512)) (\<lambda>buf. length buf = 512 \<and>
        sd_wrote B V n b (unat addr) (take (unat len) ?d) (snd (bdrv_write B b1 (drop_bit 9 ?e) buf)))"
      if w: "sd_wrote B V n b (unat addr) (take (512 - k) ?d) b1" for b1
    proof -
      from w have V: "V b1" by (simp add: sd_wrote_def)
      have at: "unat (drop_bit 9 ?e) * 512 = unat addr + length (take (512 - k) ?d)" using e(1) qk l by simp
      have eq: "take (unat len) ?d = take (512 - k) ?d @ take (k + unat len - 512) (drop (512 - k) ?d)"
        using take_add [of "512 - k" "k + unat len - 512" ?d] True qk(2) by simp
      show ?thesis
        unfolding eq using sd_blk_write_inside [OF assms(1) V s2 bdrv_lawfulD(2) [OF assms(1) V s2], where so = "512 - k" and data = ?d
            and k = 0 and len = "k + unat len - 512"] medium_byte_at [of "drop_bit 9 ?e" _ B b1] s2 n l True assms(5) qk(2)
          sd_wrote_append [OF w] at
        by (auto elim!: yields_mono)
    qed
    show ?thesis
      unfolding sd_blk_write_def assms(3) option.case Let_def case_prod_beta sp(2) unat_and_511 [of addr] k_def [symmetric]
        if_P [OF True] e(2) R_def [symmetric] yields_bind
      using R bdrv_lawfulD(3) [OF assms(1,2) s1] bdrv_lawfulD(1,2) [OF assms(1) _ s2] l
      by (auto intro!: yields_mono [OF first] yields_mono [OF second] simp: sd_buffers_def sd_wrote_def [of B V n b "unat addr" "take (512 - k) ?d"] assms(3))
  qed
qed

subsection \<open>A block, byte by byte\<close>

fun sd_read_bytes :: "'b bdrv_ops \<Rightarrow> 'b SDState \<Rightarrow> nat \<Rightarrow> (u8 list \<times> 'b SDState) option" where
  "sd_read_bytes B sd 0 = Some ([], sd)"
| "sd_read_bytes B sd (Suc k) =
     do { (v, t) \<leftarrow> sd_read_data B sd; (vs, u) \<leftarrow> sd_read_bytes B t k; Some (v # vs, u) }"

lemma sd_read_bytes_events:
  "exec_list (sd_event_step B) sd (replicate k SdRead) = map_option snd (sd_read_bytes B sd k)"
  by (induction k arbitrary: sd) (auto simp: map_option_bind case_prod_beta map_option.compositionality comp_def split: bind_splits option.splits)

definition sd_active :: "'b bdrv_ops \<Rightarrow> SDCardStates \<Rightarrow> nat \<Rightarrow> 'b SDState \<Rightarrow> bool" where
  "sd_active B st c sd \<longleftrightarrow> sd_present B sd \<and> sd_state sd = st \<and> unat (sd_current_cmd sd) = c \<and>
     sd_card_status sd AND (ADDRESS_ERROR OR WP_VIOLATION) = 0 \<and> length (sd_data sd) = 512"

lemma sd_active_updates [simp]:
  "sd_active B st c (sd\<lparr>sd_data_offset := off\<rparr>) = sd_active B st c sd"
  "length d = 512 \<Longrightarrow> length (sd_data sd) = 512 \<Longrightarrow> sd_active B st c (sd\<lparr>sd_data := d\<rparr>) = sd_active B st c sd"
  by (simp_all add: sd_active_def sd_present_def)

lemma sd_write_prefix:
  assumes "sd_active B sd_receivingdata_state 24 sd" "unat (sd_blk_len sd) \<le> 512"
    and "unat (sd_data_offset sd) + length vs < unat (sd_blk_len sd)"
  shows "exec_list (sd_write_data B) sd vs = Some (sd\<lparr>
    sd_data := take (unat (sd_data_offset sd)) (sd_data sd) @ vs @ drop (unat (sd_data_offset sd) + length vs) (sd_data sd),
    sd_data_offset := sd_data_offset sd + of_nat (length vs)\<rparr>)"
  using assms
proof (induction vs arbitrary: sd)
  case Nil
  then show ?case by simp
next
  case (Cons v vs)
  let ?t = "sd\<lparr>sd_data := (sd_data sd)[unat (sd_data_offset sd) := v], sd_data_offset := sd_data_offset sd + 1\<rparr>"
  have len: "length (sd_data sd) = 512" using Cons.prems(1) by (simp add: sd_active_def)
  have off: "unat (sd_data_offset sd + 1) = unat (sd_data_offset sd) + 1"
    using Cons.prems(2,3) by (simp add: unat_word_add)
  have step: "sd_write_data B sd v = Some ?t"
    using Cons.prems len off
    by (simp add: sd_write_data_def sd_active_def Let_def sd_write_single_def sd_put_byte_def word_le_nat_alt)
  have "exec_list (sd_write_data B) ?t vs = Some (?t\<lparr>
      sd_data := take (unat (sd_data_offset ?t)) (sd_data ?t) @ vs @ drop (unat (sd_data_offset ?t) + length vs) (sd_data ?t),
      sd_data_offset := sd_data_offset ?t + of_nat (length vs)\<rparr>)"
    using Cons.prems len off by (intro Cons.IH) simp_all
  moreover have "take (unat (sd_data_offset sd) + 1) ((sd_data sd)[unat (sd_data_offset sd) := v]) = take (unat (sd_data_offset sd)) (sd_data sd) @ [v]"
    using Cons.prems(2,3) len by (simp add: take_Suc_conv_app_nth)
  ultimately show ?case using step off len Cons.prems(2,3) by (simp add: drop_update_cancel ac_simps)
qed

lemma sd_write_full:
  assumes "sd_active B sd_receivingdata_state 24 sd" "unat (sd_blk_len sd) \<le> 512" "sd_data_offset sd = 0"
    and "length vs = unat (sd_blk_len sd)" "vs \<noteq> []"
  shows "exec_list (sd_write_data B) sd vs = map_option (sd_to sd_transfer_state)
    (sd_commit B (sd\<lparr>sd_data := vs @ drop (length vs) (sd_data sd), sd_data_offset := sd_blk_len sd\<rparr>))"
proof -
  obtain ws v where vs: "vs = ws @ [v]" using assms(5) by (metis append_butlast_last_id)
  let ?t = "sd\<lparr>sd_data := ws @ drop (length ws) (sd_data sd), sd_data_offset := of_nat (length ws)\<rparr>"
  have len: "length (sd_data sd) = 512" using assms(1) by (simp add: sd_active_def)
  have "exec_list (sd_write_data B) sd ws = Some ?t"
    using sd_write_prefix [OF assms(1,2), of ws] assms(3,4) vs by simp
  moreover have "unat (of_nat (length ws) :: u32) = length ws"
    using assms(2,4) vs by (simp add: unat_of_nat take_bit_nat_eq_self_iff)
  moreover have "Suc (length ws) = unat (sd_blk_len sd)" using assms(4) vs by simp
  then have "of_nat (Suc (length ws)) = sd_blk_len sd" by (simp only: of_nat_unat ucast_id)
  then have "of_nat (length ws) + 1 = sd_blk_len sd" by (simp add: add.commute)
  moreover have "length ws < length (sd_data sd)" using assms(2,4) vs len by simp
  then have "(ws @ drop (length ws) (sd_data sd))[length ws := v] = ws @ v # drop (unat (sd_blk_len sd)) (sd_data sd)"
    using assms(4) vs by (simp add: Cons_nth_drop_Suc [symmetric])
  ultimately show ?thesis
    using assms len vs
    by (simp add: exec_list_append sd_write_data_def sd_active_def sd_present_def Let_def sd_write_single_def sd_put_byte_def)
qed

lemma sd_io_len_update [simp]: "sd_io_len (sd\<lparr>sd_data_offset := off\<rparr>) = sd_io_len sd"
  by (simp add: sd_io_len_def)

definition sd_read_end :: "'b SDState \<Rightarrow> nat \<Rightarrow> 'b SDState" where
  "sd_read_end sd k =
    (let t = sd\<lparr>sd_data_offset := sd_data_offset sd + of_nat k\<rparr> in
     if k \<noteq> 0 \<and> unat (sd_data_offset sd) + k = unat (sd_io_len sd) then sd_to sd_transfer_state t else t)"

lemma sd_get_until_step:
  assumes "length (sd_data sd) = 512" "unat (sd_data_offset sd) < unat (sd_io_len sd)" "unat (sd_io_len sd) \<le> 512"
  shows "sd_get_until (sd_data sd) (sd_io_len sd) sd = Some (sd_data sd ! unat (sd_data_offset sd), sd_read_end sd 1)"
  using assms by (auto simp: sd_get_until_def sd_get_byte_def sd_read_end_def Let_def word_le_nat_alt unat_word_add)

lemma sd_read_rest:
  assumes "sd_active B sd_sendingdata_state 17 sd" "unat (sd_io_len sd) \<le> 512"
    and "0 < unat (sd_data_offset sd)" "unat (sd_data_offset sd) + k \<le> unat (sd_io_len sd)"
  shows "sd_read_bytes B sd k = Some (take k (drop (unat (sd_data_offset sd)) (sd_data sd)), sd_read_end sd k)"
  using assms
proof (induction k arbitrary: sd)
  case 0
  then show ?case by (simp add: sd_read_end_def)
next
  case (Suc k)
  let ?off = "unat (sd_data_offset sd)"
  have len: "length (sd_data sd) = 512" using Suc.prems(1) by (simp add: sd_active_def)
  have off: "unat (sd_data_offset sd + 1) = ?off + 1" using Suc.prems(2,4) by (simp add: unat_word_add)
  have "sd_read_data B sd = sd_get_until (sd_data sd) (sd_io_len sd) sd"
    using Suc.prems(1,3) by (auto simp: sd_read_data_def sd_active_def Let_def sd_fetch_def)
  then have step: "sd_read_data B sd = Some (sd_data sd ! ?off, sd_read_end sd 1)"
    using sd_get_until_step [OF len] Suc.prems(2,4) by simp
  have dr: "drop ?off (sd_data sd) = sd_data sd ! ?off # drop (?off + 1) (sd_data sd)"
    using Suc.prems(2,4) len by (simp add: Cons_nth_drop_Suc)
  show ?case
  proof (cases "k = 0")
    case True
    then show ?thesis using step dr by simp
  next
    case False
    let ?t = "sd\<lparr>sd_data_offset := sd_data_offset sd + 1\<rparr>"
    have t: "sd_read_end sd 1 = ?t" using False Suc.prems(4) by (simp add: sd_read_end_def)
    have "sd_read_bytes B ?t k = Some (take k (drop (?off + 1) (sd_data sd)), sd_read_end ?t k)"
      using Suc.IH [of ?t] Suc.prems off by simp
    moreover have "sd_read_end ?t k = sd_read_end sd (Suc k)"
      using False off by (simp add: sd_read_end_def ac_simps)
    ultimately show ?thesis using step t dr by simp
  qed
qed

lemma sd_read_full:
  assumes "sd_active B sd_sendingdata_state 17 sd" "unat (sd_io_len sd) \<le> 512" "0 < k" "k \<le> unat (sd_io_len sd)" "sd_data_offset sd = 0"
    and "sd_blk_read B sd (sd_data_start sd) (sd_io_len sd) = Some t" "sd_buffers sd t" "sd_bdrv t = sd_bdrv sd"
  shows "sd_read_bytes B sd k = Some (take k (sd_data t), sd_read_end t k)"
proof -
  obtain m where m: "k = Suc m" using assms(3) by (cases k) auto
  define d b where "d = sd_data t" and "b = sd_buf t"
  have t: "t = sd\<lparr>sd_data := d, sd_buf := b\<rparr>" and len: "length d = 512"
    using assms(7,8) by (simp_all add: sd_buffers_def d_def b_def)
  have act: "sd_active B sd_sendingdata_state 17 t" and io: "sd_io_len t = sd_io_len sd" and off: "sd_data_offset t = 0"
    using assms(1,5) len by (simp_all add: t sd_active_def sd_present_def sd_io_len_def)
  have "sd_read_data B sd = sd_get_until (sd_data t) (sd_io_len t) t"
    using assms(1,5,6) io by (simp add: sd_read_data_def sd_active_def Let_def sd_fetch_def)
  then have step: "sd_read_data B sd = Some (d ! 0, sd_read_end t 1)"
    using sd_get_until_step [of t] assms(2-4) len off io by (simp add: d_def)
  have hd: "take (Suc m) d = d ! 0 # take m (drop 1 d)" using len by (cases d) simp_all
  show ?thesis
  proof (cases "m = 0")
    case True
    then show ?thesis using step m hd by (simp add: d_def)
  next
    case False
    let ?u = "t\<lparr>sd_data_offset := 1\<rparr>"
    have u: "sd_read_end t 1 = ?u" using False m off io assms(4) by (simp add: sd_read_end_def)
    have "sd_read_bytes B ?u m = Some (take m (drop 1 d), sd_read_end ?u m)"
      using sd_read_rest [of B ?u m] act assms(2,4) m io by (simp add: d_def)
    moreover have "sd_read_end ?u m = sd_read_end t (Suc m)" using False off by (simp add: sd_read_end_def)
    ultimately show ?thesis using step u hd m by (simp add: d_def)
  qed
qed

subsection \<open>The single block commands\<close>

definition sd_ready :: "'b bdrv_ops \<Rightarrow> 'b SDState \<Rightarrow> bool" where
  "sd_ready B sd \<longleftrightarrow> sd_inv sd \<and> sd_present B sd \<and> sd_state sd = sd_transfer_state \<and>
     \<not> sd_expecting_acmd sd \<and> \<not> bit (sd_card_status sd) 25 \<and> \<not> bit (sd_ocr sd) 30 \<and> 0 < unat (sd_blk_len sd)"

text \<open>What a command leaves as it is: all but the registers of the data phase and the status.\<close>

definition sd_started :: "u8 \<Rightarrow> SDCardStates \<Rightarrow> u64 \<Rightarrow> 'b SDState \<Rightarrow> 'b SDState \<Rightarrow> bool" where
  "sd_started c st start sd t \<longleftrightarrow>
    t = sd\<lparr>sd_mode := sd_mode t, sd_state := st, sd_current_cmd := c, sd_data_start := start, sd_data_offset := 0,
           sd_blk_written := sd_blk_written t, sd_card_status := sd_card_status t\<rparr> \<and>
    sd_card_status t AND (ADDRESS_ERROR OR WP_VIOLATION) = 0 \<and> \<not> bit (sd_card_status t) 25"

lemma sd_start_write_yields:
  assumes "sd_in_groups sd addr" "sd_shape sd"
  shows "yields (sd_start_write addr sd) (\<lambda>t. t = sd\<lparr>sd_state := sd_receivingdata_state, sd_data_start := addr, sd_data_offset := 0,
      sd_blk_written := 0, sd_card_status := sd_card_status t\<rparr> \<and> bit (sd_card_status t) 25 = bit (sd_card_status sd) 25)"
proof -
  have "unat (sd_addr_to_wpnum addr) < BITS_PER_LONG * length (sd_wp_groups sd)" using assms(1) by (simp add: sd_in_groups_def)
  then show ?thesis
    using sd_shape_lengths(3) [OF assms(2)]
    by (simp add: sd_start_write_def sd_wp_addr_def test_bit_ok sd_check_range_def sd_start_data_def sd_add_status_def Let_def bit_simps)
qed

lemma sd_cmd24:
  assumes "sd_ready B sd" "sd_in_groups sd (ucast arg)" "c = 24 \<or> c = 25" "\<not> sd_spi sd"
  shows "yields (sd_do_command B sd \<lparr>rq_cmd = c, rq_arg = arg, rq_crc = crc\<rparr>)
    (\<lambda>(rsp, t). sd_started c sd_receivingdata_state (ucast arg) sd t)"
proof -
  let ?sd = "(sd_set_mode sd)\<lparr>sd_card_status := sd_card_status sd AND NOT APP_CMD\<rparr>"
  have "sd_in_groups ?sd (ucast arg)" "sd_shape ?sd" using assms by (simp_all add: sd_in_groups_def sd_set_mode_def sd_ready_def sd_inv_def)
  from sd_start_write_yields [OF this] obtain cs where cs: "sd_start_write (ucast arg) ?sd =
      Some (?sd\<lparr>sd_state := sd_receivingdata_state, sd_data_start := ucast arg, sd_data_offset := 0,
      sd_blk_written := 0, sd_card_status := cs\<rparr>)" "\<not> bit cs 25"
    using assms(1) by (auto simp: sd_ready_def bit_simps yields_def)
  have lock: "sd_card_status sd AND CARD_IS_LOCKED = 0"
    using assms(1) by (simp add: sd_ready_def word_and_exp_eq_0 [of _ 25])
  have f: "sd_ocr (sd_set_mode sd) = sd_ocr sd" "sd_card_status (sd_set_mode sd) = sd_card_status sd"
    "sd_state (sd_set_mode sd) = sd_state sd" "sd_spi (sd_set_mode sd) = sd_spi sd" "sd_expecting_acmd (sd_set_mode sd) = sd_expecting_acmd sd"
    by (simp_all add: sd_set_mode_def)
  show ?thesis
    using assms(1,3,4) cs lock f
    by (elim disjE; simp add: sd_ready_def sd_do_command_def sd_req_crc_validate_def sd_normal_command_def sd_cmd_type_def nth_opt_def Let_def
        sd_block_command_def sd_send_response_def sd_response_r1_make_def)
      (simp_all add: sd_started_def sd_set_mode_def and.assoc bit_simps sd_state_bits_def)
qed

lemma sd_cmd17:
  assumes "sd_ready B sd"
  shows "yields (sd_do_command B sd \<lparr>rq_cmd = 17, rq_arg = arg, rq_crc = crc\<rparr>)
    (\<lambda>(rsp, t). sd_started 17 sd_sendingdata_state (ucast arg) sd t)"
proof -
  have lock: "sd_card_status sd AND CARD_IS_LOCKED = 0"
    using assms by (simp add: sd_ready_def word_and_exp_eq_0 [of _ 25])
  have f: "sd_ocr (sd_set_mode sd) = sd_ocr sd" "sd_card_status (sd_set_mode sd) = sd_card_status sd"
    "sd_state (sd_set_mode sd) = sd_state sd" "sd_spi (sd_set_mode sd) = sd_spi sd" "sd_expecting_acmd (sd_set_mode sd) = sd_expecting_acmd sd"
    by (simp_all add: sd_set_mode_def)
  show ?thesis
    using assms lock f
    by (simp add: sd_ready_def sd_do_command_def sd_req_crc_validate_def sd_normal_command_def sd_cmd_type_def nth_opt_def Let_def
        sd_block_command_def sd_send_response_def sd_response_r1_make_def sd_check_range_def sd_start_data_def)
      (simp add: sd_started_def sd_set_mode_def and.assoc bit_simps sd_state_bits_def sd_add_status_def)
qed

lemma sd_started_keeps:
  assumes "sd_started c st start sd t" "sd_ready B sd"
  shows "sd_active B st (unat c) t" "sd_data_offset t = 0" "sd_data_start t = start" "sd_bdrv t = sd_bdrv sd" "sd_blk_len t = sd_blk_len sd"
    "sd_data t = sd_data sd" "sd_shape t" "\<not> bit (sd_ocr t) 30" "sd_io_len t = sd_blk_len sd" "sd_enable t" "sd_spi t = sd_spi sd"
    "\<not> sd_expecting_acmd t" "\<not> bit (sd_card_status t) 25"
proof -
  define m w cs where "m = sd_mode t" and "w = sd_blk_written t" and "cs = sd_card_status t"
  have t: "t = sd\<lparr>sd_mode := m, sd_state := st, sd_current_cmd := c, sd_data_start := start, sd_data_offset := 0,
      sd_blk_written := w, sd_card_status := cs\<rparr>" "cs AND (ADDRESS_ERROR OR WP_VIOLATION) = 0" "\<not> bit cs 25"
    using assms(1) unfolding sd_started_def m_def w_def cs_def by blast+
  have "length (sd_data sd) = 512" using assms(2) sd_shape_lengths(7) [of sd] by (simp add: sd_ready_def sd_inv_def)
  then show "sd_active B st (unat c) t" "sd_data_offset t = 0" "sd_data_start t = start" "sd_bdrv t = sd_bdrv sd" "sd_blk_len t = sd_blk_len sd"
    "sd_data t = sd_data sd" "sd_shape t" "\<not> bit (sd_ocr t) 30" "sd_io_len t = sd_blk_len sd" "sd_enable t" "sd_spi t = sd_spi sd"
    "\<not> sd_expecting_acmd t" "\<not> bit (sd_card_status t) 25"
    using t assms(2) by (simp_all add: sd_active_def sd_present_def sd_ready_def sd_inv_def sd_io_len_def)
qed

text \<open>The session of a single block write, and of a single block read.\<close>

definition sd_write_block :: "'b bdrv_ops \<Rightarrow> 'b SDState \<Rightarrow> u32 \<Rightarrow> u8 list \<Rightarrow> 'b SDState option" where
  "sd_write_block B sd arg vs =
    do { (rsp, t) \<leftarrow> sd_do_command B sd \<lparr>rq_cmd = 24, rq_arg = arg, rq_crc = 0\<rparr>; exec_list (sd_write_data B) t vs }"

definition sd_read_block :: "'b bdrv_ops \<Rightarrow> 'b SDState \<Rightarrow> u32 \<Rightarrow> (u8 list \<times> 'b SDState) option" where
  "sd_read_block B sd arg =
    do { (rsp, t) \<leftarrow> sd_do_command B sd \<lparr>rq_cmd = 17, rq_arg = arg, rq_crc = 0\<rparr>; sd_read_bytes B t (unat (sd_blk_len sd)) }"

lemma sd_commit_medium:
  assumes "bdrv_lawful B V n" "V b" "sd_bdrv t = Some b" "sd_shape t" "unat (sd_data_offset t) \<le> 512" "0 < unat (sd_data_offset t)"
    and "unat (sd_data_start t) + unat (sd_data_offset t) \<le> 512 * n"
  shows "yields (sd_commit B t) (\<lambda>u. sd_blk_len u = sd_blk_len t \<and> sd_enable u = sd_enable t \<and> sd_spi u = sd_spi t \<and>
    sd_expecting_acmd u = sd_expecting_acmd t \<and> sd_card_status u = sd_card_status t \<and> sd_ocr u = sd_ocr t \<and>
    (\<exists>b'. sd_bdrv u = Some b' \<and> sd_wrote B V n b (unat (sd_data_start t)) (take (unat (sd_data_offset t)) (sd_data t)) b'))"
proof -
  let ?p = "sd_to sd_programming_state t"
  have p: "sd_bdrv ?p = Some b" "sd_shape ?p" "sd_data ?p = sd_data t" using assms(3,4) by (simp_all add: sd_to_def)
  have k: "yields (sd_mark_written u) (\<lambda>w. sd_blk_len w = sd_blk_len t \<and> sd_enable w = sd_enable t \<and> sd_spi w = sd_spi t \<and>
    sd_expecting_acmd w = sd_expecting_acmd t \<and> sd_card_status w = sd_card_status t \<and> sd_ocr w = sd_ocr t \<and> sd_bdrv w = sd_bdrv u)"
    if "sd_buffers ?p u" for u
  proof -
    define d bf m where "d = sd_data u" and "bf = sd_buf u" and "m = sd_bdrv u"
    have u: "u = ?p\<lparr>sd_data := d, sd_buf := bf, sd_bdrv := m\<rparr>" using that by (simp add: sd_buffers_def d_def bf_def m_def)
    show ?thesis using sd_shape_lengths(3) [OF sd_buffers_keeps(1) [OF that p(2)]] by (simp add: sd_mark_written_def u sd_to_def)
  qed
  show ?thesis
    unfolding sd_commit_def yields_bind
    by (rule yields_mono [OF sd_blk_write_medium [OF assms(1,2) p(1,2) assms(5-7)]]) (auto elim!: yields_mono [OF k] simp: p(3))
qed

lemma sd_write_block_medium:
  assumes "bdrv_lawful B V n" "V b" "sd_bdrv sd = Some b" "sd_ready B sd" "sd_in_groups sd (ucast arg)"
    and "length vs = unat (sd_blk_len sd)" "unat arg + length vs \<le> 512 * n" "\<not> sd_spi sd"
  shows "yields (sd_write_block B sd arg vs) (\<lambda>u. sd_ready B u \<and> sd_blk_len u = sd_blk_len sd \<and>
    (\<exists>b'. sd_bdrv u = Some b' \<and> sd_wrote B V n b (unat arg) vs b'))"
proof -
  note c24 = sd_cmd24 [OF assms(4,5) _ assms(8), of 24 0]
  have B: "bdrv_bounded B" using assms(1) by (simp add: bdrv_lawful_def)
  have fin: "yields (exec_list (sd_write_data B) t vs) (\<lambda>u. sd_ready B u \<and> sd_blk_len u = sd_blk_len sd \<and>
      (\<exists>b'. sd_bdrv u = Some b' \<and> sd_wrote B V n b (unat arg) vs b'))"
    if st: "sd_started 24 sd_receivingdata_state (ucast arg) sd t" for t
  proof -
    note k = sd_started_keeps [OF st assms(4)]
    have blk: "unat (sd_blk_len t) \<le> 512" "0 < unat (sd_blk_len sd)" "unat (ucast arg :: u64) = unat arg"
      using sd_shape_lengths(9) [OF k(7)] assms(4) by (simp_all add: sd_ready_def unat_ucast_up)
    let ?t = "t\<lparr>sd_data := vs @ drop (length vs) (sd_data t), sd_data_offset := sd_blk_len t\<rparr>"
    have len: "length (vs @ drop (length vs) (sd_data t)) = 512"
      using sd_shape_lengths(7) [OF k(7)] assms(6) blk k(5) by simp
    have inv: "sd_inv t"
      using k(2,3,7) unat_wide(2) [of arg] by (simp add: sd_inv_def sd_phase_def Let_def)
    have ex: "exec_list (sd_write_data B) t vs = map_option (sd_to sd_transfer_state) (sd_commit B ?t)"
      using sd_write_full [of B t vs] k assms(6) blk by (cases vs) auto
    have "yields (exec_list (sd_write_data B) t vs) sd_inv"
      by (rule yields_exec_list [OF sd_write_data_ok inv]) (use B in auto)
    moreover have "yields (exec_list (sd_write_data B) t vs) (\<lambda>u. sd_blk_len u = sd_blk_len sd \<and> sd_enable u \<and>
      \<not> sd_expecting_acmd u \<and> \<not> bit (sd_card_status u) 25 \<and> \<not> bit (sd_ocr u) 30 \<and> sd_state u = sd_transfer_state \<and> 
      (\<exists>b'. sd_bdrv u = Some b' \<and> sd_wrote B V n b (unat arg) vs b'))"
      unfolding ex yields_map
      by (rule yields_mono [OF sd_commit_medium [OF assms(1,2)]])
        (use k blk assms(3,6,7) len in \<open>auto simp: sd_shape_arrays sd_to_def\<close>)
    ultimately show ?thesis
      using assms(1) blk by (auto simp: yields_def sd_ready_def sd_present_def bdrv_lawful_def sd_wrote_def)
  qed
  show ?thesis
    unfolding sd_write_block_def yields_bind by (rule yields_mono [OF c24]) (auto intro: fin)
qed

text \<open>The data phase of a block read, at any point of it.\<close>

lemma sd_read_progress:
  fixes arg :: "32 word"
  assumes "bdrv_lawful B V n" "V b" "sd_bdrv sd = Some b" "sd_ready B sd"
    and "unat arg + unat (sd_blk_len sd) \<le> 512 * n" "sd_started 17 sd_sendingdata_state (ucast arg) sd t"
    and "0 < k" "k \<le> unat (sd_blk_len sd)"
  shows "yields (sd_read_bytes B t k) (\<lambda>(vs, u). vs = map (\<lambda>i. medium_byte B b (unat arg + i)) [0..<k] \<and>
    sd_state u = (if k = unat (sd_blk_len sd) then sd_transfer_state else sd_sendingdata_state))"
proof -
  note st = sd_started_keeps [OF assms(6,4)]
  have blk: "unat (sd_io_len t) \<le> 512" "0 < unat (sd_io_len t)" "unat (sd_data_start t) = unat arg"
    using sd_shape_lengths(9) [OF st(7)] assms(4) st by (simp_all add: sd_ready_def unat_ucast_up)
  have "yields (sd_blk_read B t (sd_data_start t) (sd_io_len t)) (\<lambda>u. sd_buffers t u \<and> sd_bdrv u = Some b \<and>
      (\<forall>i<512. sd_data u ! i = (if i < unat (sd_io_len t) then medium_byte B b (unat (sd_data_start t) + i) else sd_data t ! i)))"
    using sd_blk_read_medium [OF assms(1,2) _ st(7) blk(1,2), of "sd_data_start t"] st assms(3,5) blk by simp
  then obtain u where u: "sd_blk_read B t (sd_data_start t) (sd_io_len t) = Some u" "sd_buffers t u" "sd_bdrv u = sd_bdrv t"
    "\<And>i. i < unat (sd_io_len t) \<Longrightarrow> sd_data u ! i = medium_byte B b (unat arg + i)"
    using blk st(4) assms(3) by (auto simp: yields_def)
  have act: "sd_active B sd_sendingdata_state 17 t" using st(1) by simp
  have keep: "sd_data_offset u = 0" "sd_io_len u = sd_io_len t" "length (sd_data u) = 512" "sd_state u = sd_sendingdata_state"
    using sd_buffers_keeps [OF u(2) st(7)] st(2) sd_shape_lengths(7) [of u] act by (simp_all add: sd_io_len_def sd_active_def)
  have k: "k \<le> unat (sd_io_len t)" using assms(8) st(9) by simp
  have "take k (sd_data u) = map (\<lambda>i. medium_byte B b (unat arg + i)) [0..<k]"
    using u(4) blk(1) keep(3) k by (intro nth_equalityI) auto
  then show ?thesis
    using sd_read_full [OF act blk(1) assms(7) k st(2) u(1-3)] st(9) keep assms(7) by (simp add: sd_read_end_def)
qed

lemma sd_read_block_medium:
  assumes "bdrv_lawful B V n" "V b" "sd_bdrv sd = Some b" "sd_ready B sd"
    and "unat arg + unat (sd_blk_len sd) \<le> 512 * n"
  shows "yields (sd_read_block B sd arg) (\<lambda>(vs, u). vs = map (\<lambda>i. medium_byte B b (unat arg + i)) [0..<unat (sd_blk_len sd)] \<and>
    sd_state u = sd_transfer_state)"
proof -
  have "0 < unat (sd_blk_len sd)" using assms(4) by (simp add: sd_ready_def)
  note fin = sd_read_progress [OF assms _ this order.refl]
  show ?thesis
    unfolding sd_read_block_def yields_bind by (rule yields_mono [OF sd_cmd17 [OF assms(4)]]) (use fin in auto)
qed

end
