(* ===== verification/SdCardRun.thy ===== *)
theory SdCardRun
  imports SdCardMedium
begin

text \<open>
  Runs of the SD card: the safety of every run, the four commands that leave the arrays, and what the card does with its
  medium.
\<close>

subsection \<open>Runs stay within the arrays\<close>

text \<open>A medium held in memory, a list of sectors, to run the card on.\<close>

definition ram_ops :: "u8 list list bdrv_ops" where
  "ram_ops = \<lparr>bdrv_get_geometry = \<lambda>b. let n = of_nat (length b) in if n < 0x40000000000 then n else 0,
     bdrv_is_read_only = \<lambda>_. False, bdrv_is_inserted = \<lambda>_. True,
     bdrv_read = \<lambda>b s. if unat s < length b then (True, take 512 (b ! unat s @ replicate 512 0)) else (False, replicate 512 0),
     bdrv_write = \<lambda>b s buf. if unat s < length b then (True, b[unat s := buf]) else (False, b)\<rparr>"

lemma ram_ops_bounded: "bdrv_bounded ram_ops"
proof -
  have "min k 512 + (512 - k) = 512" for k :: nat by simp
  moreover have "n < 0x40000000000 \<Longrightarrow> unat (n::u64) < 0x80000000000" for n by (simp add: word_less_nat_alt)
  ultimately show ?thesis by (simp add: bdrv_bounded_def ram_ops_def Let_def)
qed

definition sd_cmd :: "u8 \<Rightarrow> u32 \<Rightarrow> u8 list list sd_event" where
  "sd_cmd c arg = SdCommand \<lparr>rq_cmd = c, rq_arg = arg, rq_crc = 0\<rparr>"

text \<open>\<open>ACMD41\<close>, \<open>CMD2\<close>, \<open>CMD3\<close> and \<open>CMD7\<close> bring a card in the transfer state.\<close>

definition sd_select :: "u8 list list sd_event list" where
  "sd_select = [sd_cmd 55 0, sd_cmd 41 0xff8000, sd_cmd 2 0, sd_cmd 3 0, sd_cmd 7 0x45670000]"

definition sd_small :: "u8 list list SDState" where
  "sd_small = sd_init ram_ops (Some (replicate 2 (replicate 512 0))) False"

lemma ram_ops_lawful: "n < 2 ^ 42 \<Longrightarrow> bdrv_lawful ram_ops (\<lambda>b. length b = n \<and> (\<forall>x\<in>set b. length x = 512)) n"
  unfolding bdrv_lawful_def
  by (auto simp: ram_ops_bounded) (auto simp: ram_ops_def nth_list_update word_unat_eq_iff dest!: subsetD [OF set_update_subset_insert])

lemmas sd_eval = sd_small_def sd_select_def sd_cmd_def sd_init_def sd_zero_def sd_reset_def sd_set_csd_def ram_ops_def Let_def
  sd_do_command_def sd_present_def sd_req_crc_validate_def sd_set_mode_def sd_normal_command_def sd_app_command_def
  sd_init_command_def sd_basic_command_def sd_block_command_def sd_protect_command_def sd_other_command_def sd_send_response_def
  sd_response_r1_make_def sd_response_r3_make_def sd_response_r6_make_def sd_cmd_type_def nth_opt_def sd_to_def sd_add_status_def
  sd_state_bits_def sd_start_data_def sd_check_range_def sd_start_write_def bitmap_new_def BITS_TO_LONGS_def sd_addr_to_wpnum_def
  sd_wp_addr_def test_bit_def BIT_WORD_def sd_erase_def

text \<open>
  C6: From power-on, in SD or SPI mode and with or without a medium, every sequence of commands, data bytes, medium changes
  and enables that satisfies \<open>sd_event_ok\<close> is executed within the arrays of the card, and the invariant \<open>sd_inv\<close>
  holds afterwards; the block layer may fail any transfer.
\<close>

theorem sd_card_safe:
  assumes "bdrv_bounded B" "guarded (sd_event_step B) sd_event_ok (sd_init B bs spi) es"
  shows "\<exists>t. exec_list (sd_event_step B) (sd_init B bs spi) es = Some t \<and> sd_inv t"
  using sdm.run_ok [OF _ assms(2)] assms(1) sd_init_ok [OF assms(1)] by blast

theorem sd_card_safe_witness:
  "\<exists>t. exec_list (sd_event_step ram_ops) sd_small (sd_select @ [sd_cmd 16 2, sd_cmd 25 0, SdWrite 7]) = Some t \<and> sd_inv t"
  unfolding sd_small_def
  by (rule sd_card_safe [OF ram_ops_bounded])
    (simp add: sd_eval sd_request_ok_def sd_in_groups_def sd_wide_def split: option.split)

text \<open>Where the guard fails: the accesses outside the arrays.\<close>

lemma test_bit_None: "test_bit nr addr = None \<longleftrightarrow> BITS_PER_LONG * length addr \<le> nr"
  by (simp add: test_bit_def BIT_WORD_def nth_opt_def div_less_iff_less_mult mult.commute not_less)

lemma sd_start_write_None:
  assumes "sd_shape sd"
  shows "sd_start_write addr sd = None \<longleftrightarrow> BITS_PER_LONG * length (sd_wp_groups sd) \<le> unat (sd_addr_to_wpnum addr)"
proof -
  have "nth_opt (sd_csd sd) 14 = Some (sd_csd sd ! 14)" using sd_shape_lengths(3) [OF assms] by simp
  then show ?thesis
    by (auto simp: sd_start_write_def sd_wp_addr_def sd_check_range_def sd_start_data_def sd_add_status_def Let_def
        test_bit_None [symmetric] split: bind_splits)
qed

lemma sd_erase_loop_None:
  "exec_list (\<lambda>sd i. do { b \<leftarrow> test_bit i (sd_wp_groups sd); Some (if b then sd_add_status WP_ERASE_SKIP sd else sd) }) sd is
     = None \<longleftrightarrow> (\<exists>i\<in>set is. BITS_PER_LONG * length (sd_wp_groups sd) \<le> i)"
proof (induction "is" arbitrary: sd)
  case (Cons i js)
  show ?case
  proof (cases "test_bit i (sd_wp_groups sd)")
    case None
    then show ?thesis using test_bit_None [of i "sd_wp_groups sd"] by simp
  next
    case (Some b)
    then have "\<not> BITS_PER_LONG * length (sd_wp_groups sd) \<le> i" using test_bit_None [of i "sd_wp_groups sd"] by simp
    then show ?thesis using Some Cons.IH by simp
  qed
qed simp

lemma sd_erase_None:
  assumes "sd_shape sd" "sd_erase_start sd \<noteq> 0" "sd_erase_end sd \<noteq> 0"
  shows "sd_erase sd = None \<longleftrightarrow>
    sd_addr_to_wpnum (sd_wide sd (sd_erase_start sd)) \<le> sd_addr_to_wpnum (sd_wide sd (sd_erase_end sd)) \<and>
    BITS_PER_LONG * length (sd_wp_groups sd) \<le> unat (sd_addr_to_wpnum (sd_wide sd (sd_erase_end sd)))"
proof -
  have c: "nth_opt (sd_csd sd) 14 = Some (sd_csd sd ! 14)" using sd_shape_lengths(3) [OF assms(1)] by simp
  have w: "(if bit (sd_ocr sd) 30 then ucast x * 512 else ucast x) = sd_wide sd x" for x
    by (simp add: sd_wide_def push_bit_eq_mult mult.commute)
  have r: "(\<exists>i\<in>{m..<Suc n}. k \<le> i) \<longleftrightarrow> m \<le> n \<and> k \<le> n" for k m n :: nat
  proof
    assume "m \<le> n \<and> k \<le> n"
    then have "n \<in> {m..<Suc n}" "k \<le> n" by simp_all
    then show "\<exists>i\<in>{m..<Suc n}. k \<le> i" by blast
  qed auto
  show ?thesis
    using assms(2,3) c by (simp add: sd_erase_def Let_def w sd_erase_loop_None r word_le_nat_alt del: upt_Suc)
qed

text \<open>A command of an unlocked card that no \<open>CMD55\<close> precedes is a normal one.\<close>

lemma sd_do_normal:
  assumes "sd_present B sd" "\<not> sd_expecting_acmd sd" "\<not> bit (sd_card_status sd) 25"
  shows "sd_do_command B sd req = None \<longleftrightarrow> sd_normal_command B (sd_set_mode sd) req = None"
proof -
  have "sd_card_status sd AND CARD_IS_LOCKED = 0" using assms(3) by (simp add: word_and_exp_eq_0 [of _ 25])
  moreover have "sd_expecting_acmd (sd_set_mode sd) = sd_expecting_acmd sd" by (simp add: sd_set_mode_def)
  ultimately show ?thesis
    using assms(1,2) by (auto simp: sd_do_command_def sd_req_crc_validate_def Let_def split: bind_splits)
qed

lemma sd_set_mode_keeps [simp]:
  "sd_state (sd_set_mode sd) = sd_state sd" "sd_spi (sd_set_mode sd) = sd_spi sd" "sd_ocr (sd_set_mode sd) = sd_ocr sd"
  "sd_card_status (sd_set_mode sd) = sd_card_status sd" "sd_wp_groups (sd_set_mode sd) = sd_wp_groups sd"
  "sd_csd (sd_set_mode sd) = sd_csd sd" "sd_erase_start (sd_set_mode sd) = sd_erase_start sd"
  "sd_erase_end (sd_set_mode sd) = sd_erase_end sd" "sd_shape (sd_set_mode sd) = sd_shape sd"
  by (simp_all add: sd_set_mode_def sd_shape_def)

lemma sd_write_command_None:
  assumes "sd_shape sd" "sd_state sd = sd_transfer_state" "\<not> sd_spi sd" "c = 24 \<or> c = 25"
  shows "sd_normal_command B sd \<lparr>rq_cmd = c, rq_arg = arg, rq_crc = crc\<rparr> = None \<longleftrightarrow>
    BITS_PER_LONG * length (sd_wp_groups sd) \<le> unat (sd_addr_to_wpnum (sd_wide sd arg))"
proof -
  have "sd_shape (sd\<lparr>sd_card_status := cs\<rparr>)" for cs using assms(1) by (simp add: sd_shape_def)
  note n = sd_start_write_None [OF this, of "sd_wide sd arg"]
  show ?thesis
    using assms(2-4) n
    by (elim disjE; simp add: sd_normal_command_def sd_cmd_type_def nth_opt_def Let_def sd_block_command_def sd_wide_def [symmetric])
      (auto split: bind_splits)
qed

lemma sd_erase_command_None:
  assumes "sd_shape sd" "sd_state sd = sd_transfer_state" "sd_erase_start sd \<noteq> 0" "sd_erase_end sd \<noteq> 0"
    and "sd_csd sd ! 14 AND 0x30 = 0"
  shows "sd_normal_command B sd \<lparr>rq_cmd = 38, rq_arg = arg, rq_crc = crc\<rparr> = None \<longleftrightarrow>
    sd_addr_to_wpnum (sd_wide sd (sd_erase_start sd)) \<le> sd_addr_to_wpnum (sd_wide sd (sd_erase_end sd)) \<and>
    BITS_PER_LONG * length (sd_wp_groups sd) \<le> unat (sd_addr_to_wpnum (sd_wide sd (sd_erase_end sd)))"
proof -
  let ?sd = "sd_to sd_programming_state (sd\<lparr>sd_card_status := sd_card_status sd AND NOT APP_CMD\<rparr>)"
  have p: "sd_shape ?sd" "sd_erase_start ?sd \<noteq> 0" "sd_erase_end ?sd \<noteq> 0"
    using assms(1,3,4) by (simp_all add: sd_shape_def sd_to_def)
  have c: "nth_opt (sd_csd sd) 14 = Some (sd_csd sd ! 14)" using sd_shape_lengths(3) [OF assms(1)] by simp
  have "sd_normal_command B sd \<lparr>rq_cmd = 38, rq_arg = arg, rq_crc = crc\<rparr> = None \<longleftrightarrow> sd_erase ?sd = None"
    using assms(2,5) c
    by (simp add: sd_normal_command_def sd_cmd_type_def nth_opt_def Let_def sd_other_command_def) (auto split: bind_splits)
  then show ?thesis unfolding sd_erase_None [OF p] by (simp add: sd_to_def sd_wide_def)
qed

lemma bit_top: "bit (0x80000000::u32) i \<longleftrightarrow> i = 31"
proof -
  have "(0x80000000::u32) = push_bit 31 1" by simp
  then show ?thesis by (simp only: bit_push_bit_iff) (auto simp: bit_1_iff)
qed

lemma ffs_last: "32 \<le> ffs y \<longleftrightarrow> y = 0x80000000"
proof -
  have "31 \<le> ctz_ref y \<longleftrightarrow> y = 0 \<or> y = 0x80000000"
  proof
    assume "31 \<le> ctz_ref y"
    then have b: "\<not> bit y i" if "i < 31" for i using ctz_ref_ge [of 31 y] that by simp
    have "y = (if bit y 31 then 0x80000000 else 0)"
    proof (rule bit_word_eqI)
      fix i assume "i < LENGTH(32)"
      then have "i < 31 \<or> i = 31" by auto
      then show "bit y i = bit (if bit y 31 then 0x80000000 else (0::u32)) i"
        using b bit_top [of i] by (cases "bit y 31") auto
    qed
    then show "y = 0 \<or> y = 0x80000000" by (simp split: if_splits)
  next
    assume "y = 0 \<or> y = 0x80000000"
    then have "\<not> bit y i" if "i < 31" for i using that by (elim disjE; simp only: bit_top bit_0_eq bot_apply) auto
    then show "31 \<le> ctz_ref y" using ctz_ref_ge [of 31 y] by simp
  qed
  then show ?thesis by (auto simp: ffs_def ctz32_ref)
qed

lemma sd_voltage_None:
  assumes "sd_state sd = sd_idle_state"
  shows "sd_normal_command B sd \<lparr>rq_cmd = 8, rq_arg = arg, rq_crc = crc\<rparr> = None \<longleftrightarrow> arg AND NOT 0xff = 0x80000000"
proof -
  have "drop_bit 8 arg \<noteq> 0" if "arg AND NOT 0xff = 0x80000000"
  proof
    assume "drop_bit 8 arg = 0"
    then have "bit (drop_bit 8 arg) 23 = bit (0::u32) 23" by simp
    moreover have "bit (arg AND NOT 0xff) 31" unfolding that by (simp only: bit_top)
    ultimately show False by (simp add: bit_simps)
  qed
  then show ?thesis
    using assms by (auto simp: sd_normal_command_def sd_cmd_type_def nth_opt_def Let_def sd_basic_command_def ffs_last)
qed

lemma sd_status_beyond:
  assumes "sd_active B sd_sendingdata_state c t" "length (sd_sd_status t) = 64"
    and "\<not> sd_expecting_acmd t" "\<not> bit (sd_card_status t) 25"
  shows "exec_list (sd_event_step B) t [SdCommand \<lparr>rq_cmd = 13, rq_arg = arg, rq_crc = crc\<rparr>, SdRead] = None \<longleftrightarrow>
    64 \<le> unat (sd_data_offset t)"
proof -
  have "sd_card_status t AND CARD_IS_LOCKED = 0" using assms(4) by (simp add: word_and_exp_eq_0 [of _ 25])
  then show ?thesis
    using assms
    by (simp add: sd_active_def sd_do_command_def sd_req_crc_validate_def sd_set_mode_def sd_normal_command_def sd_cmd_type_def nth_opt_def
        Let_def sd_basic_command_def sd_send_response_def sd_response_r1_make_def)
      (simp add: sd_read_data_def sd_present_def sd_get_until_def sd_get_byte_def nth_opt_def and.assoc word_distribs sd_state_bits_def Let_def)
qed

subsection \<open>Block transfers\<close>

definition sd_selected :: "u8 list list SDState" where
  "sd_selected = (case exec_list (sd_event_step ram_ops) sd_small sd_select of None \<Rightarrow> sd_zero | Some t \<Rightarrow> t)"

definition sd_protected :: "u8 list list SDState" where
  "sd_protected = (case sd_event_step ram_ops sd_selected (sd_cmd 28 0) of None \<Rightarrow> sd_zero | Some t \<Rightarrow> t)"

abbreviation ram_medium :: "nat \<Rightarrow> u8 list list \<Rightarrow> bool" where
  "ram_medium n b \<equiv> length b = n \<and> (\<forall>x\<in>set b. length x = 512)"

lemma sd_selected_run:
  "yields (exec_list (sd_event_step ram_ops) sd_small sd_select) (\<lambda>t. sd_bdrv t = Some (replicate 2 (replicate 512 0)) \<and> sd_enable t \<and>
     sd_state t = sd_transfer_state \<and> \<not> sd_spi t \<and> \<not> sd_expecting_acmd t \<and> \<not> bit (sd_card_status t) 25 \<and> \<not> bit (sd_ocr t) 30 \<and>
     sd_blk_len t = 512 \<and> sd_wp_groups t = [0] \<and> sd_size t = 1024 \<and> sd_csd t ! 14 AND 0x30 = 0 \<and>
     sd_card_status t AND (ADDRESS_ERROR OR WP_VIOLATION) = 0)"
  by (simp add: sd_eval)

lemma sd_selected_facts:
  "exec_list (sd_event_step ram_ops) sd_small sd_select = Some sd_selected"
  "sd_bdrv sd_selected = Some (replicate 2 (replicate 512 0))" "sd_enable sd_selected" "sd_state sd_selected = sd_transfer_state"
  "\<not> sd_spi sd_selected" "\<not> sd_expecting_acmd sd_selected" "\<not> bit (sd_card_status sd_selected) 25" "\<not> bit (sd_ocr sd_selected) 30"
  "sd_blk_len sd_selected = 512" "sd_wp_groups sd_selected = [0]" "sd_size sd_selected = 1024"
  "sd_csd sd_selected ! 14 AND 0x30 = 0" "sd_card_status sd_selected AND (ADDRESS_ERROR OR WP_VIOLATION) = 0"
  using sd_selected_run by (auto simp: yields_def sd_selected_def)

lemma sd_selected_inv: "sd_inv sd_selected"
proof -
  have i: "bdrv_bounded ram_ops \<and> sd_inv sd_small" using ram_ops_bounded sd_init_ok by (simp add: sd_small_def)
  have "guarded (sd_event_step ram_ops) sd_event_ok sd_small sd_select"
    by (simp add: sd_eval sd_request_ok_def sd_in_groups_def sd_wide_def)
  from sdm.run_ok [OF i this] show "sd_inv sd_selected" by (auto simp: sd_selected_def)
qed

lemma sd_ram_inserted: "bdrv_is_inserted ram_ops b"
  by (simp add: ram_ops_def)

lemma sd_protected_facts:
  "sd_bdrv sd_protected = Some (replicate 2 (replicate 512 0))" "sd_enable sd_protected" "sd_state sd_protected = sd_transfer_state"
  "\<not> sd_spi sd_protected" "\<not> sd_expecting_acmd sd_protected" "\<not> bit (sd_card_status sd_protected) 25" "\<not> bit (sd_ocr sd_protected) 30"
  "sd_blk_len sd_protected = 512" "sd_wp_groups sd_protected = [1]" "sd_inv sd_protected"
proof -
  have l: "sd_card_status sd_selected AND CARD_IS_LOCKED = 0" using sd_selected_facts(7) by (simp add: word_and_exp_eq_0 [of _ 25])
  show "sd_bdrv sd_protected = Some (replicate 2 (replicate 512 0))" "sd_enable sd_protected" "sd_state sd_protected = sd_transfer_state"
    "\<not> sd_spi sd_protected" "\<not> sd_expecting_acmd sd_protected" "\<not> bit (sd_card_status sd_protected) 25" "\<not> bit (sd_ocr sd_protected) 30"
    "sd_blk_len sd_protected = 512" "sd_wp_groups sd_protected = [1]"
    using sd_selected_facts l
    by (simp_all add: sd_protected_def sd_cmd_def sd_do_command_def sd_present_def sd_ram_inserted sd_req_crc_validate_def
        sd_set_mode_def sd_normal_command_def sd_cmd_type_def nth_opt_def Let_def sd_protect_command_def sd_addr_to_wpnum_def
        set_bit_map_def BIT_WORD_def BIT_MASK_def set_opt_def sd_send_response_def sd_response_r1_make_def sd_state_bits_def bit_simps)
  have "sd_event_ok sd_selected (sd_cmd 28 0)" by (simp add: sd_cmd_def sd_request_ok_def)
  from sdm.step_ok [OF _ this, of ram_ops] sd_selected_inv ram_ops_bounded show "sd_inv sd_protected"
    by (auto simp: sd_protected_def)
qed

lemma sd_run_ready:
  "sd_ready ram_ops sd_selected" "sd_in_groups sd_selected a = (unat (sd_addr_to_wpnum a) < 64)"
  "sd_ready ram_ops sd_protected" "sd_in_groups sd_protected a = (unat (sd_addr_to_wpnum a) < 64)"
  "sd_wp_addr sd_protected 100 = Some True"
  using sd_selected_facts sd_selected_inv sd_protected_facts
  by (simp_all add: sd_ready_def sd_present_def sd_ram_inserted sd_in_groups_def sd_wp_addr_def sd_addr_to_wpnum_def test_bit_def
      nth_opt_def BIT_WORD_def)

text \<open>
  C2: A block written with \<open>CMD24\<close> is the block that \<open>CMD17\<close> at the same address returns: on a selected card with a
  lawful medium, for every byte address (aligned to a sector or not, with a block that crosses a sector boundary
  or not) and every block length up to 512, the data phase of the write takes the bytes, the card is ready again, and the
  data phase of the read returns them and ends.
\<close>

theorem sd_block_roundtrip:
  assumes "bdrv_lawful B V n" "V b" "sd_bdrv sd = Some b" "sd_ready B sd" "sd_in_groups sd (ucast arg)"
    and "length vs = unat (sd_blk_len sd)" "unat arg + length vs \<le> 512 * n" "\<not> sd_spi sd"
  shows "\<exists>u w. sd_write_block B sd arg vs = Some u \<and> sd_read_block B u arg = Some (vs, w) \<and> sd_state w = sd_transfer_state"
proof -
  obtain u b' where u: "sd_write_block B sd arg vs = Some u" "sd_ready B u" "sd_blk_len u = sd_blk_len sd"
      "sd_bdrv u = Some b'" "sd_wrote B V n b (unat arg) vs b'"
    using sd_write_block_medium [OF assms] by (auto simp: yields_def)
  have V: "V b'" using u(5) by (simp add: sd_wrote_def)
  have r: "unat arg + unat (sd_blk_len u) \<le> 512 * n" using u(3) assms(6,7) by simp
  have "map (\<lambda>i. medium_byte B b' (unat arg + i)) [0..<unat (sd_blk_len u)] = vs"
    using u(3,5) assms(6,7) by (intro nth_equalityI) (auto simp: sd_wrote_def)
  then show ?thesis
    using u(1) sd_read_block_medium [OF assms(1) V u(4,2) r] by (auto simp: yields_def)
qed

theorem sd_block_roundtrip_witness:
  "\<exists>u w. sd_write_block ram_ops sd_selected 100 (replicate 512 0x5a) = Some u \<and>
     sd_read_block ram_ops u 100 = Some (replicate 512 0x5a, w) \<and> sd_state w = sd_transfer_state"
  by (rule sd_block_roundtrip [where V = "ram_medium 2" and n = 2 and b = "replicate 2 (replicate 512 0)"])
    (simp_all add: ram_ops_lawful sd_selected_facts sd_run_ready sd_addr_to_wpnum_def)

lemma sd_write_refused:
  assumes "sd_state sd = sd_receivingdata_state" "sd_card_status sd AND (ADDRESS_ERROR OR WP_VIOLATION) \<noteq> 0"
  shows "exec_list (sd_write_data B) sd vs = Some sd"
proof (induction vs)
  case (Cons v vs)
  have "sd_write_data B sd v = Some sd" unfolding sd_write_data_def Let_def using assms by simp
  with Cons show ?case by simp
qed simp

lemma sd_violation_sticks:
  assumes "m = ADDRESS_ERROR \<or> m = WP_VIOLATION"
  shows "(cs OR m) AND (ADDRESS_ERROR OR WP_VIOLATION) \<noteq> 0"
proof
  assume "(cs OR m) AND (ADDRESS_ERROR OR WP_VIOLATION) = 0"
  then have "bit ((cs OR m) AND (ADDRESS_ERROR OR WP_VIOLATION)) k = bit (0::u32) k" for k by simp
  from this [of 30] this [of 26] assms show False by (auto simp: bit_simps)
qed

lemma sd_multiple_refused:
  assumes "sd_active B sd_receivingdata_state 25 sd" "sd_data_offset sd = 0" "sd_wp_addr sd (sd_data_start sd) = Some True"
  shows "yields (exec_list (sd_write_data B) sd vs) (\<lambda>u. sd_bdrv u = sd_bdrv sd)"
proof (cases vs)
  case Nil
  then show ?thesis by simp
next
  case (Cons v ws)
  define m where "m = (if sd_data_start sd + ucast (sd_blk_len sd) > sd_size sd then ADDRESS_ERROR else WP_VIOLATION)"
  have m: "sd_write_data B sd v = Some (sd_add_status m sd)" "m = ADDRESS_ERROR \<or> m = WP_VIOLATION"
    unfolding sd_write_data_def sd_write_multiple_def m_def Let_def using assms by (auto simp: sd_active_def)
  have "exec_list (sd_write_data B) (sd_add_status m sd) ws = Some (sd_add_status m sd)"
    using assms(1) sd_violation_sticks [OF m(2)] by (intro sd_write_refused) (simp_all add: sd_active_def sd_add_status_def)
  then show ?thesis using Cons m(1) by simp
qed

lemma sd_write_response:
  assumes "sd_ready B sd" "sd_wp_addr sd (ucast arg) = Some True" "c = 24 \<or> c = 25" "\<not> sd_spi sd"
  shows "yields (sd_do_command B sd \<lparr>rq_cmd = c, rq_arg = arg, rq_crc = crc\<rparr>) (\<lambda>(rsp, t). length rsp = 4 \<and> bit (rsp ! 0) 2)"
proof -
  let ?sd = "(sd_set_mode sd)\<lparr>sd_card_status := sd_card_status sd AND NOT APP_CMD\<rparr>"
  have "length (sd_csd sd) = 16" using assms(1) sd_shape_lengths(3) by (auto simp: sd_ready_def sd_inv_def)
  then have "yields (sd_start_write (ucast arg) ?sd) (\<lambda>t. bit (sd_card_status t) 26)"
    using assms(2)
    by (simp add: sd_start_write_def sd_wp_addr_def sd_check_range_def sd_start_data_def sd_add_status_def Let_def bit_simps)
  then obtain u where u: "sd_start_write (ucast arg) ?sd = Some u" "bit (sd_card_status u) 26" by (auto simp: yields_def)
  have lock: "sd_card_status sd AND CARD_IS_LOCKED = 0"
    using assms(1) by (simp add: sd_ready_def word_and_exp_eq_0 [of _ 25])
  have f: "sd_expecting_acmd (sd_set_mode sd) = sd_expecting_acmd sd" by (simp add: sd_set_mode_def)
  show ?thesis
    using assms(1,3,4) u lock f
    by (elim disjE; simp add: sd_ready_def sd_do_command_def sd_req_crc_validate_def sd_normal_command_def sd_cmd_type_def nth_opt_def Let_def
        sd_block_command_def sd_send_response_def sd_response_r1_make_def)
      (simp_all add: be32_bytes_def bit_simps sd_state_bits_def)
qed

lemma sd_write_start:
  assumes "sd_ready B sd" "sd_in_groups sd (ucast arg)" "sd_wp_addr sd (ucast arg) = Some True" "c = 24 \<or> c = 25" "\<not> sd_spi sd"
  shows "\<exists>rsp t. sd_do_command B sd \<lparr>rq_cmd = c, rq_arg = arg, rq_crc = crc\<rparr> = Some (rsp, t) \<and>
    length rsp = 4 \<and> bit (rsp ! 0) 2 \<and> \<not> bit (sd_card_status t) 26 \<and>
    sd_started c sd_receivingdata_state (ucast arg) sd t"
proof -
  from sd_write_response [OF assms(1,3-5), of crc] sd_cmd24 [OF assms(1,2,4,5), of crc] obtain rsp t where
    t: "sd_do_command B sd \<lparr>rq_cmd = c, rq_arg = arg, rq_crc = crc\<rparr> = Some (rsp, t)"
      "length rsp = 4" "bit (rsp ! 0) 2" "sd_started c sd_receivingdata_state (ucast arg) sd t"
    by (auto simp: yields_def)
  have "bit (sd_card_status t AND (ADDRESS_ERROR OR WP_VIOLATION)) 26 = bit (0::u32) 26"
    using t(4) by (simp add: sd_started_def)
  with t show ?thesis by (auto simp: bit_simps)
qed

text \<open>
  C20: A write protected group stops \<open>CMD25\<close> but not \<open>CMD24\<close>. Take a selected card in SD mode and an address whose group
  is protected. Both commands report the violation: bit 2 of the first byte of the R1 response is \<open>WP_VIOLATION\<close>, bit 26 of
  the status. Sending the response clears the bit, and the data phase of \<open>CMD24\<close>, which tests nothing but the bit,
  writes the block to the medium. That of \<open>CMD25\<close> looks the group up again: however many bytes follow, the
  medium stays as it is. The same holds later in a multiple block write: once the group of the next block is
  protected, at a block boundary, whatever follows leaves the medium as it is then.
\<close>

theorem sd_write_protection:
  assumes "bdrv_lawful B V n" "V b" "sd_bdrv sd = Some b" "sd_ready B sd" "sd_in_groups sd (ucast arg)"
    and "length vs = unat (sd_blk_len sd)" "unat arg + length vs \<le> 512 * n"
    and "\<not> sd_spi sd" "sd_wp_addr sd (ucast arg) = Some True"
  shows "(\<exists>rsp t u. sd_do_command B sd \<lparr>rq_cmd = 25, rq_arg = arg, rq_crc = 0\<rparr> = Some (rsp, t) \<and>
      length rsp = 4 \<and> bit (rsp ! 0) 2 \<and> exec_list (sd_write_data B) t ws = Some u \<and> sd_bdrv u = Some b) \<and>
    (sd_active B sd_receivingdata_state 25 m \<and> sd_data_offset m = 0 \<and> sd_wp_addr m (sd_data_start m) = Some True \<longrightarrow>
      (\<exists>u. exec_list (sd_write_data B) m ws = Some u \<and> sd_bdrv u = sd_bdrv m)) \<and>
    (\<exists>rsp t u b'. sd_do_command B sd \<lparr>rq_cmd = 24, rq_arg = arg, rq_crc = 0\<rparr> = Some (rsp, t) \<and>
      length rsp = 4 \<and> bit (rsp ! 0) 2 \<and> \<not> bit (sd_card_status t) 26 \<and>
      exec_list (sd_write_data B) t vs = Some u \<and> sd_bdrv u = Some b' \<and>
      map (\<lambda>i. medium_byte B b' (unat arg + i)) [0..<length vs] = vs)"
proof (intro conjI impI)
  from sd_write_start [OF assms(4,5,9) _ assms(8), of 25 0] obtain rsp t where
    t: "sd_do_command B sd \<lparr>rq_cmd = 25, rq_arg = arg, rq_crc = 0\<rparr> = Some (rsp, t)" "length rsp = 4" "bit (rsp ! 0) 2"
      "sd_started 25 sd_receivingdata_state (ucast arg) sd t" by auto
  note k = sd_started_keeps [OF t(4) assms(4)]
  have "sd_wp_groups t = sd_wp_groups sd" by (subst t(4) [unfolded sd_started_def, THEN conjunct1]) simp
  then have "sd_wp_addr t (sd_data_start t) = Some True" using assms(9) k(3) by (simp add: sd_wp_addr_def)
  from sd_multiple_refused [OF _ k(2) this, of B ws] k(1,4) assms(3) t
  show "\<exists>rsp t u. sd_do_command B sd \<lparr>rq_cmd = 25, rq_arg = arg, rq_crc = 0\<rparr> = Some (rsp, t) \<and>
      length rsp = 4 \<and> bit (rsp ! 0) 2 \<and> exec_list (sd_write_data B) t ws = Some u \<and> sd_bdrv u = Some b"
    by (auto simp: yields_def)
next
  assume "sd_active B sd_receivingdata_state 25 m \<and> sd_data_offset m = 0 \<and> sd_wp_addr m (sd_data_start m) = Some True"
  then show "\<exists>u. exec_list (sd_write_data B) m ws = Some u \<and> sd_bdrv u = sd_bdrv m"
    using sd_multiple_refused [of B m ws] by (simp add: yields_def)
next
  from sd_write_start [OF assms(4,5,9) _ assms(8), of 24 0] obtain rsp t where
    t: "sd_do_command B sd \<lparr>rq_cmd = 24, rq_arg = arg, rq_crc = 0\<rparr> = Some (rsp, t)" "length rsp = 4" "bit (rsp ! 0) 2"
      "\<not> bit (sd_card_status t) 26" by auto
  obtain u b' where u: "sd_write_block B sd arg vs = Some u" "sd_bdrv u = Some b'" "sd_wrote B V n b (unat arg) vs b'"
    using sd_write_block_medium [OF assms(1-8)] by (auto simp: yields_def)
  have "map (\<lambda>i. medium_byte B b' (unat arg + i)) [0..<length vs] = vs"
    using u(3) assms(7) by (intro nth_equalityI) (auto simp: sd_wrote_def)
  moreover have "exec_list (sd_write_data B) t vs = Some u" using u(1) t(1) by (simp add: sd_write_block_def)
  ultimately show "\<exists>rsp t u b'. sd_do_command B sd \<lparr>rq_cmd = 24, rq_arg = arg, rq_crc = 0\<rparr> = Some (rsp, t) \<and>
      length rsp = 4 \<and> bit (rsp ! 0) 2 \<and> \<not> bit (sd_card_status t) 26 \<and>
      exec_list (sd_write_data B) t vs = Some u \<and> sd_bdrv u = Some b' \<and>
      map (\<lambda>i. medium_byte B b' (unat arg + i)) [0..<length vs] = vs"
    using t u(2) by blast
qed

theorem sd_write_protection_witness:
  "(\<exists>rsp t u. sd_do_command ram_ops sd_protected \<lparr>rq_cmd = 25, rq_arg = 100, rq_crc = 0\<rparr> = Some (rsp, t) \<and>
      bit (rsp ! 0) 2 \<and> exec_list (sd_write_data ram_ops) t (replicate 1024 7) = Some u \<and>
      sd_bdrv u = Some (replicate 2 (replicate 512 0))) \<and>
   (\<exists>rsp t u b'. sd_do_command ram_ops sd_protected \<lparr>rq_cmd = 24, rq_arg = 100, rq_crc = 0\<rparr> = Some (rsp, t) \<and>
      bit (rsp ! 0) 2 \<and> exec_list (sd_write_data ram_ops) t (replicate 512 7) = Some u \<and> sd_bdrv u = Some b' \<and>
      map (\<lambda>i. medium_byte ram_ops b' (100 + i)) [0..<512] = replicate 512 7)"
proof -
  note w = sd_write_protection [where V = "ram_medium 2" and n = 2 and b = "replicate 2 (replicate 512 0)" and B = ram_ops
      and sd = sd_protected and arg = 100 and vs = "replicate 512 7" and ws = "replicate 1024 7"]
  show ?thesis
    using w by (fastforce simp: ram_ops_lawful sd_protected_facts sd_run_ready sd_addr_to_wpnum_def)
qed

subsection \<open>The password\<close>

text \<open>
  C39: \<open>CMD42\<close> cannot unlock a card or clear its password with that password: every lock command that neither sets
  a password nor erases (those two do unlock) fails and changes nothing but the status, whatever password it carries, because the length check demands a
  password longer than the stored one and the rest of it is only accepted as a new password.
\<close>

theorem sd_password_never_opens:
  assumes "sd_shape sd" "\<not> bit (sd_data sd ! 0) 3" "\<not> bit (sd_data sd ! 0) 0"
  shows "sd_lock_command sd = Some (sd_add_status LOCK_UNLOCK_FAILED sd)"
proof -
  note l = sd_shape_lengths [OF assms(1)]
  have d: "nth_opt (sd_data sd) 0 = Some (sd_data sd ! 0)" "nth_opt (sd_data sd) 1 = Some (sd_data sd ! 1)"
    "nth_opt (sd_csd sd) 14 = Some (sd_csd sd ! 14)" using l by simp_all
  have c: "\<exists>r. memcmp (sd_pwd sd) 0 (sd_data sd) 2 (unat (sd_pwd_len sd)) = Some r"
    using l by (simp add: memcmp_def)
  have n: "n - sd_pwd_len sd \<noteq> 0" if "\<not> n \<le> sd_pwd_len sd" for n using that by auto
  show ?thesis
    unfolding sd_lock_command_def d Let_def bind.bind_lunit using assms(2,3) c n by auto
qed

theorem sd_password_never_opens_witness:
  "sd_lock_command (sd_selected\<lparr>sd_pwd_len := 1, sd_data := [0, 1] @ replicate 510 0\<rparr>) =
     Some (sd_add_status LOCK_UNLOCK_FAILED (sd_selected\<lparr>sd_pwd_len := 1, sd_data := [0, 1] @ replicate 510 0\<rparr>))"
  using sd_selected_inv by (intro sd_password_never_opens) (simp_all add: sd_inv_def sd_shape_def)

subsection \<open>The limits of the guard\<close>

text \<open>
  C40: The four conditions of \<open>sd_event_ok\<close> on commands are what keeps the card within its arrays. Take a card of the
  invariant with a medium, not locked and not preceded by \<open>CMD55\<close>. \<open>CMD24\<close> and \<open>CMD25\<close> of a selected card in SD
  mode are undefined exactly when the group of the address lies outside the write protection bitmap, which they test
  before the address error takes effect. \<open>CMD38\<close> of a selected card that is not write protected as a whole, with both
  ends of the erase set, is undefined exactly when the groups from the start to the end of the erase include one
  outside the bitmap. A data byte read after \<open>CMD13\<close> in the middle of a data phase without errors is undefined exactly
  when the phase is past its first 64 bytes, so that the byte lies beyond the SD status. \<open>CMD8\<close> of an idle card is
  undefined exactly when bit 31 is the only bit of the argument above its low byte, so that the code shifts by 32.
\<close>

theorem sd_card_out_of_bounds:
  assumes "sd_inv sd" "sd_present B sd" "\<not> sd_expecting_acmd sd" "\<not> bit (sd_card_status sd) 25"
  shows "(sd_state sd = sd_transfer_state \<and> \<not> sd_spi sd \<and> (c = 24 \<or> c = 25) \<longrightarrow>
      (sd_do_command B sd \<lparr>rq_cmd = c, rq_arg = arg, rq_crc = crc\<rparr> = None \<longleftrightarrow>
        BITS_PER_LONG * length (sd_wp_groups sd) \<le> unat (sd_addr_to_wpnum (sd_wide sd arg)))) \<and>
    (sd_state sd = sd_transfer_state \<and> sd_erase_start sd \<noteq> 0 \<and> sd_erase_end sd \<noteq> 0 \<and> sd_csd sd ! 14 AND 0x30 = 0 \<longrightarrow>
      (sd_do_command B sd \<lparr>rq_cmd = 38, rq_arg = arg, rq_crc = crc\<rparr> = None \<longleftrightarrow>
        sd_addr_to_wpnum (sd_wide sd (sd_erase_start sd)) \<le> sd_addr_to_wpnum (sd_wide sd (sd_erase_end sd)) \<and>
        BITS_PER_LONG * length (sd_wp_groups sd) \<le> unat (sd_addr_to_wpnum (sd_wide sd (sd_erase_end sd))))) \<and>
    (sd_state sd = sd_sendingdata_state \<and> sd_card_status sd AND (ADDRESS_ERROR OR WP_VIOLATION) = 0 \<longrightarrow>
      (exec_list (sd_event_step B) sd [SdCommand \<lparr>rq_cmd = 13, rq_arg = arg, rq_crc = crc\<rparr>, SdRead] = None \<longleftrightarrow>
        length (sd_sd_status sd) \<le> unat (sd_data_offset sd))) \<and>
    (sd_state sd = sd_idle_state \<longrightarrow>
      (sd_do_command B sd \<lparr>rq_cmd = 8, rq_arg = arg, rq_crc = crc\<rparr> = None \<longleftrightarrow> arg AND NOT 0xff = 0x80000000))"
proof -
  have s: "sd_shape sd" "sd_shape (sd_set_mode sd)" using assms(1) by (simp_all add: sd_inv_def)
  have w: "sd_wide (sd_set_mode sd) x = sd_wide sd x" for x by (simp add: sd_wide_def)
  note n = sd_do_normal [OF assms(2-4)]
  have "exec_list (sd_event_step B) sd [SdCommand \<lparr>rq_cmd = 13, rq_arg = arg, rq_crc = crc\<rparr>, SdRead] = None \<longleftrightarrow>
        length (sd_sd_status sd) \<le> unat (sd_data_offset sd)"
    if "sd_state sd = sd_sendingdata_state" "sd_card_status sd AND (ADDRESS_ERROR OR WP_VIOLATION) = 0"
    using sd_status_beyond [of B "unat (sd_current_cmd sd)" sd arg crc] that assms sd_shape_lengths(4,7) [OF s(1)]
    by (simp add: sd_active_def)
  then show ?thesis
    unfolding n using sd_write_command_None [OF s(2), of c B arg crc] sd_erase_command_None [OF s(2), of B arg crc]
      sd_voltage_None [of "sd_set_mode sd" B arg crc]
    by (simp add: w)
qed

theorem sd_card_out_of_bounds_witness:
  "sd_do_command ram_ops sd_selected \<lparr>rq_cmd = 24, rq_arg = 0x08000000, rq_crc = 0\<rparr> = None \<and>
   sd_do_command ram_ops (sd_selected\<lparr>sd_erase_start := 1, sd_erase_end := 0x08000000\<rparr>) \<lparr>rq_cmd = 38, rq_arg = 0, rq_crc = 0\<rparr> = None \<and>
   exec_list (sd_event_step ram_ops) (sd_selected\<lparr>sd_state := sd_sendingdata_state, sd_current_cmd := 17, sd_data_offset := 64\<rparr>)
     [SdCommand \<lparr>rq_cmd = 13, rq_arg = 0, rq_crc = 0\<rparr>, SdRead] = None \<and>
   sd_do_command ram_ops (sd_selected\<lparr>sd_state := sd_idle_state\<rparr>) \<lparr>rq_cmd = 8, rq_arg = 0x800000aa, rq_crc = 0\<rparr> = None"
  (is "?w \<and> ?e \<and> ?r \<and> ?v")
proof -
  note f = sd_selected_facts
  have p: "sd_present ram_ops sd_selected" "sd_shape sd_selected" "unat (sd_data_start sd_selected) < 2 ^ 53"
    using sd_run_ready(1) by (simp_all add: sd_ready_def sd_inv_def sd_phase_def Let_def)
  have i: "sd_inv (sd_selected\<lparr>sd_erase_start := 1, sd_erase_end := 0x08000000\<rparr>)"
    "sd_inv (sd_selected\<lparr>sd_state := sd_sendingdata_state, sd_current_cmd := 17, sd_data_offset := 64\<rparr>)"
    "sd_inv (sd_selected\<lparr>sd_state := sd_idle_state\<rparr>)"
    using p f(4) by (simp_all add: sd_inv_def sd_shape_def sd_phase_def Let_def)
  have ?w
    using sd_card_out_of_bounds [OF sd_selected_inv p(1), of 24 "0x08000000" 0] f
    by (simp add: sd_wide_def sd_addr_to_wpnum_def)
  moreover have ?e
    using sd_card_out_of_bounds [OF i(1), of ram_ops 24 0 0] p f
    by (simp add: sd_wide_def sd_addr_to_wpnum_def sd_present_def)
  moreover have ?r
    using sd_card_out_of_bounds [OF i(2), of ram_ops 24 0 0] p f sd_shape_lengths(4) [OF p(2)] by (simp add: sd_present_def)
  moreover have ?v
    using sd_card_out_of_bounds [OF i(3), of ram_ops 24 "0x800000aa" 0] p f by (simp add: sd_present_def)
  ultimately show ?thesis by blast
qed

end
