(* ===== verification/QemuFile.thy ===== *)
theory QemuFile
  imports Prelude
begin

text \<open>
  The save stream, \<^verbatim>\<open>savevm.c\<close>: a \<open>QEMUFile\<close> buffers what is written until the buffer or the vector of pending
  segments is full, and what is read until it is used up; the backend behind it is the argument \<open>ops\<close>. The integer
  functions \<open>qemu_put_be16/32/64\<close> and \<open>qemu_get_be16/32/64\<close> are built on the byte functions.

  \<^item> A file is a record of the fields of \<open>struct QEMUFile\<close>; the entries of \<open>iov\<close> below \<open>iovcnt\<close> are a list. An entry points
    into the buffer of the file or to the memory of the guest, whose contents are the argument \<open>mem\<close>; the two are
    different objects, so that an entry of one is never adjacent to an entry of the other.
  \<^item> \<open>None\<close> is an access outside an array or a failed assertion, or a loop that does not end.
  \<^item> \<open>sink_lawful\<close> and \<open>source_lawful\<close> say what the documentation of the operations promises of a backend that works.
    \<open>qf_wrote f bs\<close> says that \<open>bs\<close> is what has been written so far, in the backend or still in the buffer; \<open>qf_rest f bs\<close>
    that \<open>bs\<close> is what is left to read.
\<close>

definition IO_BUF_SIZE :: nat where "IO_BUF_SIZE = 32768"

definition MAX_IOV_SIZE :: nat where "MAX_IOV_SIZE = 64"

abbreviation EIO :: int where "EIO \<equiv> 5"
abbreviation EAGAIN :: int where "EAGAIN \<equiv> 11"
abbreviation EINVAL :: int where "EINVAL \<equiv> 22"

datatype iov_base = InBuf nat | InMem nat

record 'w QEMUFileOps =
  fo_put_buffer :: "('w \<Rightarrow> u8 list \<Rightarrow> int \<Rightarrow> int \<times> 'w) option"
  fo_get_buffer :: "'w \<Rightarrow> int \<Rightarrow> nat \<Rightarrow> int \<times> u8 list \<times> 'w"
  fo_close :: "('w \<Rightarrow> int \<times> 'w) option"
  fo_writev_buffer :: "('w \<Rightarrow> u8 list list \<Rightarrow> int \<Rightarrow> int \<times> 'w) option"

record 'w QEMUFile =
  qf_opaque :: 'w
  qf_bytes_xfer :: int
  qf_xfer_limit :: int
  qf_pos :: int
  qf_buf_index :: nat
  qf_buf_size :: nat
  qf_buf :: "u8 list"
  qf_iov :: "(iov_base \<times> nat) list"
  qf_last_error :: int

definition qemu_fopen_ops :: "'w \<Rightarrow> 'w QEMUFile" where
  "qemu_fopen_ops w = \<lparr>qf_opaque = w, qf_bytes_xfer = 0, qf_xfer_limit = 0, qf_pos = 0, qf_buf_index = 0, qf_buf_size = 0,
     qf_buf = replicate IO_BUF_SIZE 0, qf_iov = [], qf_last_error = 0\<rparr>"

definition qemu_file_get_error :: "'w QEMUFile \<Rightarrow> int" where
  "qemu_file_get_error f = qf_last_error f"

definition qemu_file_set_error :: "'w QEMUFile \<Rightarrow> int \<Rightarrow> 'w QEMUFile" where
  "qemu_file_set_error f ret = (if qf_last_error f = 0 then f\<lparr>qf_last_error := ret\<rparr> else f)"

definition qemu_file_is_writable :: "'w QEMUFileOps \<Rightarrow> bool" where
  "qemu_file_is_writable ops \<longleftrightarrow> fo_writev_buffer ops \<noteq> None \<or> fo_put_buffer ops \<noteq> None"

subsection \<open>Writing\<close>

fun iov_end :: "iov_base \<times> nat \<Rightarrow> iov_base" where
  "iov_end (InBuf i, n) = InBuf (i + n)"
| "iov_end (InMem a, n) = InMem (a + n)"

fun iov_bytes :: "(nat \<Rightarrow> u8) \<Rightarrow> u8 list \<Rightarrow> iov_base \<times> nat \<Rightarrow> u8 list" where
  "iov_bytes mem buf (InBuf i, n) = take n (drop i buf)"
| "iov_bytes mem buf (InMem a, n) = map mem [a..<a + n]"

definition qemu_fflush :: "'w QEMUFileOps \<Rightarrow> (nat \<Rightarrow> u8) \<Rightarrow> 'w QEMUFile \<Rightarrow> 'w QEMUFile" where
  "qemu_fflush ops mem f =
    (if \<not> qemu_file_is_writable ops then f
     else
       let (ret, w) =
         (case fo_writev_buffer ops of
            Some writev \<Rightarrow>
              if qf_iov f \<noteq> [] then writev (qf_opaque f) (map (iov_bytes mem (qf_buf f)) (qf_iov f)) (qf_pos f) else (0, qf_opaque f)
          | None \<Rightarrow>
              (case fo_put_buffer ops of
                 Some put \<Rightarrow> if 0 < qf_buf_index f then put (qf_opaque f) (take (qf_buf_index f) (qf_buf f)) (qf_pos f) else (0, qf_opaque f)
               | None \<Rightarrow> (0, qf_opaque f)));
         f = f\<lparr>qf_opaque := w\<rparr>;
         f = (if 0 \<le> ret then f\<lparr>qf_pos := qf_pos f + ret\<rparr> else f);
         f = f\<lparr>qf_buf_index := 0, qf_iov := []\<rparr>
       in if ret < 0 then qemu_file_set_error f ret else f)"

definition add_to_iovec :: "'w QEMUFileOps \<Rightarrow> (nat \<Rightarrow> u8) \<Rightarrow> 'w QEMUFile \<Rightarrow> iov_base \<Rightarrow> nat \<Rightarrow> 'w QEMUFile option" where
  "add_to_iovec ops mem f base sz =
    do { iov \<leftarrow> (if qf_iov f \<noteq> [] \<and> base = iov_end (last (qf_iov f))
                 then Some (butlast (qf_iov f) @ [(fst (last (qf_iov f)), snd (last (qf_iov f)) + sz)])
                 else if length (qf_iov f) < MAX_IOV_SIZE then Some (qf_iov f @ [(base, sz)])
                 else None);
         let f = f\<lparr>qf_iov := iov\<rparr>;
         Some (if MAX_IOV_SIZE \<le> length (qf_iov f) then qemu_fflush ops mem f else f) }"

definition put_array_at :: "'a list \<Rightarrow> nat \<Rightarrow> 'a list \<Rightarrow> 'a list option" where
  "put_array_at xs i ys = (if i + length ys \<le> length xs then Some (take i xs @ ys @ drop (i + length ys) xs) else None)"

text \<open>The steps that \<open>qemu_put_buffer\<close> and \<open>qemu_put_byte\<close> take once \<open>l\<close> bytes have been stored in the buffer.\<close>

definition qemu_advance :: "'w QEMUFileOps \<Rightarrow> (nat \<Rightarrow> u8) \<Rightarrow> 'w QEMUFile \<Rightarrow> nat \<Rightarrow> 'w QEMUFile option" where
  "qemu_advance ops mem f l =
    do { f \<leftarrow> (if fo_writev_buffer ops \<noteq> None then add_to_iovec ops mem f (InBuf (qf_buf_index f)) l else Some f);
         let f = f\<lparr>qf_buf_index := qf_buf_index f + l\<rparr>;
         Some (if qf_buf_index f = IO_BUF_SIZE then qemu_fflush ops mem f else f) }"

text \<open>One round of the loop of \<open>qemu_put_buffer\<close>, with the number of bytes it has taken.\<close>

definition qemu_put_chunk :: "'w QEMUFileOps \<Rightarrow> (nat \<Rightarrow> u8) \<Rightarrow> 'w QEMUFile \<Rightarrow> u8 list \<Rightarrow> (nat \<times> 'w QEMUFile) option" where
  "qemu_put_chunk ops mem f bs =
    (if IO_BUF_SIZE < qf_buf_index f then None
     else let l = min (IO_BUF_SIZE - qf_buf_index f) (length bs) in
       do { buf \<leftarrow> put_array_at (qf_buf f) (qf_buf_index f) (take l bs);
            f \<leftarrow> qemu_advance ops mem (f\<lparr>qf_buf := buf, qf_bytes_xfer := qf_bytes_xfer f + int (length bs)\<rparr>) l;
            Some (l, f) })"

partial_function (option) qemu_put_chunks :: "'w QEMUFileOps \<Rightarrow> (nat \<Rightarrow> u8) \<Rightarrow> 'w QEMUFile \<Rightarrow> u8 list \<Rightarrow> 'w QEMUFile option" where
  "qemu_put_chunks ops mem f bs =
    (if bs = [] then Some f
     else do { (l, f) \<leftarrow> qemu_put_chunk ops mem f bs;
               if qemu_file_get_error f \<noteq> 0 then Some f else qemu_put_chunks ops mem f (drop l bs) })"

definition qemu_put_buffer :: "'w QEMUFileOps \<Rightarrow> (nat \<Rightarrow> u8) \<Rightarrow> 'w QEMUFile \<Rightarrow> u8 list \<Rightarrow> 'w QEMUFile option" where
  "qemu_put_buffer ops mem f bs = (if qf_last_error f \<noteq> 0 then Some f else qemu_put_chunks ops mem f bs)"

definition qemu_put_buffer_async :: "'w QEMUFileOps \<Rightarrow> (nat \<Rightarrow> u8) \<Rightarrow> 'w QEMUFile \<Rightarrow> nat \<Rightarrow> nat \<Rightarrow> 'w QEMUFile option" where
  "qemu_put_buffer_async ops mem f a sz =
    (if fo_writev_buffer ops = None then qemu_put_buffer ops mem f (map mem [a..<a + sz])
     else if qf_last_error f \<noteq> 0 then Some f
     else add_to_iovec ops mem (f\<lparr>qf_bytes_xfer := qf_bytes_xfer f + int sz\<rparr>) (InMem a) sz)"

definition qemu_put_byte :: "'w QEMUFileOps \<Rightarrow> (nat \<Rightarrow> u8) \<Rightarrow> 'w QEMUFile \<Rightarrow> u8 \<Rightarrow> 'w QEMUFile option" where
  "qemu_put_byte ops mem f v =
    (if qf_last_error f \<noteq> 0 then Some f
     else do { buf \<leftarrow> set_opt (qf_buf f) (qf_buf_index f) v;
               qemu_advance ops mem (f\<lparr>qf_buf := buf, qf_bytes_xfer := qf_bytes_xfer f + 1\<rparr>) 1 })"

definition qemu_put_be16 :: "'w QEMUFileOps \<Rightarrow> (nat \<Rightarrow> u8) \<Rightarrow> 'w QEMUFile \<Rightarrow> u32 \<Rightarrow> 'w QEMUFile option" where
  "qemu_put_be16 ops mem f v =
    do { f \<leftarrow> qemu_put_byte ops mem f (ucast (drop_bit 8 v)); qemu_put_byte ops mem f (ucast v) }"

definition qemu_put_be32 :: "'w QEMUFileOps \<Rightarrow> (nat \<Rightarrow> u8) \<Rightarrow> 'w QEMUFile \<Rightarrow> u32 \<Rightarrow> 'w QEMUFile option" where
  "qemu_put_be32 ops mem f v =
    do { f \<leftarrow> qemu_put_byte ops mem f (ucast (drop_bit 24 v));
         f \<leftarrow> qemu_put_byte ops mem f (ucast (drop_bit 16 v));
         f \<leftarrow> qemu_put_byte ops mem f (ucast (drop_bit 8 v));
         qemu_put_byte ops mem f (ucast v) }"

definition qemu_put_be64 :: "'w QEMUFileOps \<Rightarrow> (nat \<Rightarrow> u8) \<Rightarrow> 'w QEMUFile \<Rightarrow> u64 \<Rightarrow> 'w QEMUFile option" where
  "qemu_put_be64 ops mem f v =
    do { f \<leftarrow> qemu_put_be32 ops mem f (ucast (drop_bit 32 v)); qemu_put_be32 ops mem f (ucast v) }"

subsection \<open>Reading\<close>

text \<open>
  \<open>get_buffer\<close> returns a length or an error, and the bytes it has stored. A buffer index beyond the buffer sz, which
  \<open>qemu_file_skip\<close> prevents, would have the backend store before the buffer.
\<close>

definition qemu_fill_buffer :: "'w QEMUFileOps \<Rightarrow> 'w QEMUFile \<Rightarrow> 'w QEMUFile option" where
  "qemu_fill_buffer ops f =
    (if qemu_file_is_writable ops \<or> qf_buf_size f < qf_buf_index f then None
     else
       let pending = qf_buf_size f - qf_buf_index f;
           (len, bs, w) = fo_get_buffer ops (qf_opaque f) (qf_pos f) (IO_BUF_SIZE - pending)
       in do { buf \<leftarrow> put_array_at (qf_buf f) 0 (take pending (drop (qf_buf_index f) (qf_buf f)));
               buf \<leftarrow> put_array_at buf pending bs;
               let f = f\<lparr>qf_opaque := w, qf_buf := buf, qf_buf_index := 0, qf_buf_size := pending\<rparr>;
               Some (if 0 < len then f\<lparr>qf_buf_size := qf_buf_size f + nat len, qf_pos := qf_pos f + len\<rparr>
                     else if len = 0 then qemu_file_set_error f (- EIO)
                     else if len \<noteq> - EAGAIN then qemu_file_set_error f len
                     else f) })"

definition qemu_file_skip :: "'w QEMUFile \<Rightarrow> nat \<Rightarrow> 'w QEMUFile" where
  "qemu_file_skip f sz = (if qf_buf_index f + sz \<le> qf_buf_size f then f\<lparr>qf_buf_index := qf_buf_index f + sz\<rparr> else f)"

text \<open>The bytes that \<open>qemu_peek_buffer\<close> stores; their number is what it returns.\<close>

definition qemu_peek_buffer :: "'w QEMUFileOps \<Rightarrow> 'w QEMUFile \<Rightarrow> nat \<Rightarrow> nat \<Rightarrow> (u8 list \<times> 'w QEMUFile) option" where
  "qemu_peek_buffer ops f sz offset =
    (if qemu_file_is_writable ops then None
     else do { f \<leftarrow> (if qf_buf_size f < qf_buf_index f + offset + sz then qemu_fill_buffer ops f else Some f);
               let index = qf_buf_index f + offset;
               if qf_buf_size f \<le> index then Some ([], f)
               else if length (qf_buf f) < qf_buf_size f then None
               else Some (take (min sz (qf_buf_size f - index)) (drop index (qf_buf f)), f) })"

partial_function (option) qemu_get_buffer :: "'w QEMUFileOps \<Rightarrow> 'w QEMUFile \<Rightarrow> nat \<Rightarrow> (u8 list \<times> 'w QEMUFile) option" where
  "qemu_get_buffer ops f sz =
    (if sz = 0 then Some ([], f)
     else do { (bs, f) \<leftarrow> qemu_peek_buffer ops f sz 0;
               if bs = [] then Some ([], f)
               else do { (cs, f) \<leftarrow> qemu_get_buffer ops (qemu_file_skip f (length bs)) (sz - length bs);
                         Some (bs @ cs, f) } })"

definition qemu_peek_byte :: "'w QEMUFileOps \<Rightarrow> 'w QEMUFile \<Rightarrow> nat \<Rightarrow> (u8 \<times> 'w QEMUFile) option" where
  "qemu_peek_byte ops f offset =
    (if qemu_file_is_writable ops then None
     else do { f \<leftarrow> (if qf_buf_size f \<le> qf_buf_index f + offset then qemu_fill_buffer ops f else Some f);
               if qf_buf_size f \<le> qf_buf_index f + offset then Some (0, f)
               else map_option (\<lambda>v. (v, f)) (nth_opt (qf_buf f) (qf_buf_index f + offset)) })"

definition qemu_get_byte :: "'w QEMUFileOps \<Rightarrow> 'w QEMUFile \<Rightarrow> (u8 \<times> 'w QEMUFile) option" where
  "qemu_get_byte ops f = do { (v, f) \<leftarrow> qemu_peek_byte ops f 0; Some (v, qemu_file_skip f 1) }"

definition qemu_get_be16 :: "'w QEMUFileOps \<Rightarrow> 'w QEMUFile \<Rightarrow> (u32 \<times> 'w QEMUFile) option" where
  "qemu_get_be16 ops f =
    do { (a, f) \<leftarrow> qemu_get_byte ops f; (b, f) \<leftarrow> qemu_get_byte ops f; Some (push_bit 8 (ucast a) OR ucast b, f) }"

definition qemu_get_be32 :: "'w QEMUFileOps \<Rightarrow> 'w QEMUFile \<Rightarrow> (u32 \<times> 'w QEMUFile) option" where
  "qemu_get_be32 ops f =
    do { (a, f) \<leftarrow> qemu_get_byte ops f;
         (b, f) \<leftarrow> qemu_get_byte ops f;
         (c, f) \<leftarrow> qemu_get_byte ops f;
         (d, f) \<leftarrow> qemu_get_byte ops f;
         Some (push_bit 24 (ucast a) OR push_bit 16 (ucast b) OR push_bit 8 (ucast c) OR ucast d, f) }"

definition qemu_get_be64 :: "'w QEMUFileOps \<Rightarrow> 'w QEMUFile \<Rightarrow> (u64 \<times> 'w QEMUFile) option" where
  "qemu_get_be64 ops f =
    do { (a, f) \<leftarrow> qemu_get_be32 ops f; (b, f) \<leftarrow> qemu_get_be32 ops f; Some (push_bit 32 (ucast a) OR ucast b, f) }"

subsection \<open>Positions, limits and closing\<close>

definition qemu_update_position :: "'w QEMUFile \<Rightarrow> nat \<Rightarrow> 'w QEMUFile" where
  "qemu_update_position f sz = f\<lparr>qf_pos := qf_pos f + int sz\<rparr>"

definition qemu_ftell :: "'w QEMUFileOps \<Rightarrow> (nat \<Rightarrow> u8) \<Rightarrow> 'w QEMUFile \<Rightarrow> int \<times> 'w QEMUFile" where
  "qemu_ftell ops mem f = (let f = qemu_fflush ops mem f in (qf_pos f, f))"

definition qemu_file_rate_limit :: "'w QEMUFile \<Rightarrow> int" where
  "qemu_file_rate_limit f =
    (if qemu_file_get_error f \<noteq> 0 then 1
     else if 0 < qf_xfer_limit f \<and> qf_xfer_limit f < qf_bytes_xfer f then 1 else 0)"

definition qemu_file_set_rate_limit :: "'w QEMUFile \<Rightarrow> int \<Rightarrow> 'w QEMUFile" where
  "qemu_file_set_rate_limit f limit = f\<lparr>qf_xfer_limit := limit\<rparr>"

definition qemu_file_reset_rate_limit :: "'w QEMUFile \<Rightarrow> 'w QEMUFile" where
  "qemu_file_reset_rate_limit f = f\<lparr>qf_bytes_xfer := 0\<rparr>"

definition qemu_fclose :: "'w QEMUFileOps \<Rightarrow> (nat \<Rightarrow> u8) \<Rightarrow> 'w QEMUFile \<Rightarrow> int \<times> 'w" where
  "qemu_fclose ops mem f =
    (let f = qemu_fflush ops mem f;
         ret = qemu_file_get_error f;
         (ret, w) = (case fo_close ops of
             Some close \<Rightarrow> let (ret2, w) = close (qf_opaque f) in (if 0 \<le> ret then ret2 else ret, w)
           | None \<Rightarrow> (ret, qf_opaque f))
     in (if qf_last_error f \<noteq> 0 then qf_last_error f else ret, w))"

subsection \<open>What has been written\<close>

definition sink_lawful :: "'w QEMUFileOps \<Rightarrow> ('w \<Rightarrow> u8 list) \<Rightarrow> bool" where
  "sink_lawful ops written \<longleftrightarrow> qemu_file_is_writable ops \<and>
     (\<forall>put w bs. fo_put_buffer ops = Some put \<longrightarrow>
        fst (put w bs (int (length (written w)))) = int (length bs) \<and>
        written (snd (put w bs (int (length (written w))))) = written w @ bs) \<and>
     (\<forall>writev w bss. fo_writev_buffer ops = Some writev \<longrightarrow>
        fst (writev w bss (int (length (written w)))) = int (length (concat bss)) \<and>
        written (snd (writev w bss (int (length (written w))))) = written w @ concat bss)"

definition iov_within :: "nat \<Rightarrow> (iov_base \<times> nat) list \<Rightarrow> bool" where
  "iov_within k iov \<longleftrightarrow> (\<forall>x\<in>set iov. case fst x of InBuf i \<Rightarrow> i + snd x \<le> k | InMem _ \<Rightarrow> True)"

definition qf_held :: "'w QEMUFileOps \<Rightarrow> (nat \<Rightarrow> u8) \<Rightarrow> ('w \<Rightarrow> u8 list) \<Rightarrow> nat \<Rightarrow> 'w QEMUFile \<Rightarrow> u8 list \<Rightarrow> bool" where
  "qf_held ops mem written k f bs \<longleftrightarrow>
     sink_lawful ops written \<and> qf_last_error f = 0 \<and> length (qf_buf f) = IO_BUF_SIZE \<and> k \<le> IO_BUF_SIZE \<and>
     qf_pos f = int (length (written (qf_opaque f))) \<and> iov_within k (qf_iov f) \<and>
     bs = written (qf_opaque f) @
       (if fo_writev_buffer ops = None then take k (qf_buf f) else concat (map (iov_bytes mem (qf_buf f)) (qf_iov f)))"

definition qf_wrote :: "'w QEMUFileOps \<Rightarrow> (nat \<Rightarrow> u8) \<Rightarrow> ('w \<Rightarrow> u8 list) \<Rightarrow> 'w QEMUFile \<Rightarrow> u8 list \<Rightarrow> bool" where
  "qf_wrote ops mem written f bs \<longleftrightarrow>
     qf_held ops mem written (qf_buf_index f) f bs \<and> qf_buf_index f < IO_BUF_SIZE \<and> length (qf_iov f) < MAX_IOV_SIZE"

lemma qf_sizes [simp]: "0 < IO_BUF_SIZE" "0 < MAX_IOV_SIZE"
  by (simp_all add: IO_BUF_SIZE_def MAX_IOV_SIZE_def)

lemma qemu_fopen_wrote: "sink_lawful ops written \<Longrightarrow> written w = [] \<Longrightarrow> qf_wrote ops mem written (qemu_fopen_ops w) []"
  by (simp add: qf_wrote_def qf_held_def qemu_fopen_ops_def iov_within_def)

lemma iov_within_simps [simp]:
  "iov_within k []" "iov_within k (iov @ [x]) \<longleftrightarrow> iov_within k iov \<and> (case fst x of InBuf i \<Rightarrow> i + snd x \<le> k | InMem _ \<Rightarrow> True)"
  by (auto simp: iov_within_def)

lemma iov_within_mono: "iov_within k iov \<Longrightarrow> k \<le> k' \<Longrightarrow> iov_within k' iov"
  by (fastforce simp: iov_within_def split: iov_base.splits)

lemma iov_bytes_adjacent: "iov_bytes mem buf (b, n + m) = iov_bytes mem buf (b, n) @ iov_bytes mem buf (iov_end (b, n), m)"
proof (cases b)
  case (InMem a)
  have "[a..<a + (n + m)] = [a..<a + n] @ [a + n..<a + n + m]" using upt_add_eq_append [of a "a + n" m] by (simp add: ac_simps)
  then show ?thesis using InMem by simp
next
  case (InBuf i)
  then show ?thesis by (simp add: take_add add.commute [of i])
qed

lemma iov_bytes_cong:
  assumes "iov_within k iov" "take k buf = take k buf'"
  shows "map (iov_bytes mem buf) iov = map (iov_bytes mem buf') iov"
proof -
  have "take n (drop i buf) = take n (drop i buf')" if "i + n \<le> k" for i n
  proof -
    have "drop i (take (i + n) (take k buf)) = drop i (take (i + n) (take k buf'))" using assms(2) by simp
    then show ?thesis using that by (simp add: drop_take min_absorb1)
  qed
  then have "iov_bytes mem buf x = iov_bytes mem buf' x" if "x \<in> set iov" for x
    using assms(1) that by (cases x; cases "fst x") (auto simp: iov_within_def)
  then show ?thesis by simp
qed

lemma sink_lawfulD:
  assumes "sink_lawful ops written" "pos = int (length (written w))"
  shows "fo_put_buffer ops = Some put \<Longrightarrow> \<exists>v. put w bs pos = (int (length bs), v) \<and> written v = written w @ bs"
    "fo_writev_buffer ops = Some writev \<Longrightarrow> \<exists>v. writev w bss pos = (int (length (concat bss)), v) \<and> written v = written w @ concat bss"
    "fo_writev_buffer ops = None \<Longrightarrow> fo_put_buffer ops \<noteq> None"
  using assms by (auto simp: sink_lawful_def qemu_file_is_writable_def) (metis prod.collapse)+

lemma qemu_fflush_effect:
  assumes "qf_held ops mem written k f bs" "fo_writev_buffer ops = None \<Longrightarrow> k = qf_buf_index f"
  obtains w where "qemu_fflush ops mem f = f\<lparr>qf_opaque := w, qf_pos := int (length bs), qf_buf_index := 0, qf_iov := []\<rparr>" "written w = bs"
proof -
  have l: "sink_lawful ops written" and p: "qf_pos f = int (length (written (qf_opaque f)))"
    and wr: "qemu_file_is_writable ops"
    using assms(1) by (auto simp: qf_held_def sink_lawful_def)
  note d = sink_lawfulD [OF l p]
  define ds where "ds = (if fo_writev_buffer ops = None then take k (qf_buf f) else concat (map (iov_bytes mem (qf_buf f)) (qf_iov f)))"
  have bs: "bs = written (qf_opaque f) @ ds" using assms(1) by (simp add: qf_held_def ds_def)
  let ?goal = "\<lambda>w. qemu_fflush ops mem f = f\<lparr>qf_opaque := w, qf_pos := qf_pos f + int (length ds), qf_buf_index := 0, qf_iov := []\<rparr> \<and>
    written w = written (qf_opaque f) @ ds"
  have "\<exists>w. ?goal w"
  proof (cases "fo_writev_buffer ops")
    case None
    then obtain put where put: "fo_put_buffer ops = Some put" using d(3) by auto
    have ds: "ds = take (qf_buf_index f) (qf_buf f)" using None assms(2) by (simp add: ds_def)
    obtain v where v: "put (qf_opaque f) ds (qf_pos f) = (int (length ds), v)" "written v = written (qf_opaque f) @ ds"
      using d(1) [OF put] by blast
    show ?thesis
    proof (cases "qf_buf_index f = 0")
      case True
      then have "?goal (qf_opaque f)" using None put wr by (simp add: qemu_fflush_def ds)
      then show ?thesis ..
    next
      case False
      then have "?goal v" using None put wr v unfolding qemu_fflush_def ds [symmetric] by simp
      then show ?thesis ..
    qed
  next
    case (Some writev)
    let ?bss = "map (iov_bytes mem (qf_buf f)) (qf_iov f)"
    have ds: "ds = concat ?bss" using Some by (simp add: ds_def)
    obtain v where v: "writev (qf_opaque f) ?bss (qf_pos f) = (int (length ds), v)" "written v = written (qf_opaque f) @ ds"
      using d(2) [OF Some] unfolding ds by blast
    show ?thesis
    proof (cases "qf_iov f = []")
      case True
      then have "?goal (qf_opaque f)" using Some wr by (simp add: qemu_fflush_def ds)
      then show ?thesis ..
    next
      case False
      then have "?goal v" using Some wr v unfolding qemu_fflush_def by simp
      then show ?thesis ..
    qed
  qed
  then show thesis using that bs p by auto
qed

lemma qemu_fflush_held:
  assumes "qf_held ops mem written k f bs" "fo_writev_buffer ops = None \<Longrightarrow> k = qf_buf_index f"
  shows "qf_held ops mem written 0 (qemu_fflush ops mem f) bs" "qf_buf_index (qemu_fflush ops mem f) = 0"
    "qf_iov (qemu_fflush ops mem f) = []" "qf_buf (qemu_fflush ops mem f) = qf_buf f"
    "written (qf_opaque (qemu_fflush ops mem f)) = bs"
proof -
  obtain w where w: "qemu_fflush ops mem f = f\<lparr>qf_opaque := w, qf_pos := int (length bs), qf_buf_index := 0, qf_iov := []\<rparr>" "written w = bs"
    using qemu_fflush_effect [OF assms] by blast
  show "qf_held ops mem written 0 (qemu_fflush ops mem f) bs" "qf_buf_index (qemu_fflush ops mem f) = 0"
    "qf_iov (qemu_fflush ops mem f) = []" "qf_buf (qemu_fflush ops mem f) = qf_buf f"
    "written (qf_opaque (qemu_fflush ops mem f)) = bs"
    using assms(1) w by (simp_all add: qf_held_def)
qed

text \<open>A segment joins the pending ones; when their number reaches the limit they are flushed.\<close>

lemma add_to_iovec_held:
  assumes "qf_held ops mem written k f bs" "length (qf_iov f) < MAX_IOV_SIZE" "fo_writev_buffer ops \<noteq> None"
    and "k \<le> k'" "k' \<le> IO_BUF_SIZE" "case base of InBuf i \<Rightarrow> i + n \<le> k' | InMem _ \<Rightarrow> True"
  shows "yields (add_to_iovec ops mem f base n) (\<lambda>g. qf_held ops mem written k' g (bs @ iov_bytes mem (qf_buf f) (base, n)) \<and>
    length (qf_iov g) < MAX_IOV_SIZE \<and> (qf_buf_index g = qf_buf_index f \<or> qf_buf_index g = 0 \<and> qf_iov g = []))"
proof -
  define iov' where "iov' = (if qf_iov f \<noteq> [] \<and> base = iov_end (last (qf_iov f))
    then butlast (qf_iov f) @ [(fst (last (qf_iov f)), snd (last (qf_iov f)) + n)] else qf_iov f @ [(base, n)])"
  let ?g = "f\<lparr>qf_iov := iov'\<rparr>"
  have w: "iov_within k' (qf_iov f)" using assms(1,4) iov_within_mono by (auto simp: qf_held_def)
  have "concat (map (iov_bytes mem (qf_buf f)) iov') = concat (map (iov_bytes mem (qf_buf f)) (qf_iov f)) @ iov_bytes mem (qf_buf f) (base, n) \<and>
    iov_within k' iov'"
  proof (cases "qf_iov f \<noteq> [] \<and> base = iov_end (last (qf_iov f))")
    case True
    then obtain iov b m where iov: "qf_iov f = iov @ [(b, m)]" "base = iov_end (b, m)" by (cases "qf_iov f" rule: rev_cases) auto
    then show ?thesis using w assms(6) by (cases b) (auto simp: iov'_def iov_bytes_adjacent simp del: iov_bytes.simps)
  next
    case False
    then show ?thesis using w assms(6) by (cases base) (auto simp: iov'_def)
  qed
  then have h: "qf_held ops mem written k' ?g (bs @ iov_bytes mem (qf_buf f) (base, n))"
    using assms(1,3,5) by (auto simp: qf_held_def)
  note fl = qemu_fflush_held [OF h]
  have "add_to_iovec ops mem f base n = Some (if MAX_IOV_SIZE \<le> length iov' then qemu_fflush ops mem ?g else ?g)"
    using assms(2) by (simp add: add_to_iovec_def iov'_def)
  moreover have "qf_held ops mem written k' (qemu_fflush ops mem ?g) (bs @ iov_bytes mem (qf_buf f) (base, n))"
    using fl assms(3,5) by (auto simp: qf_held_def)
  ultimately show ?thesis using h fl(2,3) assms(3) by auto
qed

lemma put_array_at_1: "set_opt xs i x = put_array_at xs i [x]"
  by (simp add: set_opt_def put_array_at_def upd_conv_take_nth_drop)

lemma qemu_advance_wrote:
  assumes "qf_wrote ops mem written f bs" "qf_buf_index f + length ds \<le> IO_BUF_SIZE"
    and "g = f\<lparr>qf_buf := take (qf_buf_index f) (qf_buf f) @ ds @ drop (qf_buf_index f + length ds) (qf_buf f), qf_bytes_xfer := x\<rparr>"
  shows "yields (qemu_advance ops mem g (length ds)) (\<lambda>h. qf_wrote ops mem written h (bs @ ds))"
proof -
  let ?i = "qf_buf_index f"
  have len: "length (qf_buf f) = IO_BUF_SIZE" and w: "iov_within ?i (qf_iov f)" and i: "?i < IO_BUF_SIZE"
    using assms(1) by (simp_all add: qf_wrote_def qf_held_def)
  have buf: "length (qf_buf g) = IO_BUF_SIZE" "take ?i (qf_buf g) = take ?i (qf_buf f)" "take (?i + length ds) (qf_buf g) = take ?i (qf_buf f) @ ds"
    "take (length ds) (drop ?i (qf_buf g)) = ds" using len i assms(2,3) by simp_all
  have gi: "qf_buf_index g = ?i" "qf_iov g = qf_iov f" "qf_opaque g = qf_opaque f" "qf_pos g = qf_pos f" "qf_last_error g = qf_last_error f"
    using assms(3) by simp_all
  have fin: "qf_wrote ops mem written (if qf_buf_index h = IO_BUF_SIZE then qemu_fflush ops mem h else h) (bs @ ds)"
    if "qf_held ops mem written (qf_buf_index h) h (bs @ ds)" "length (qf_iov h) < MAX_IOV_SIZE" for h
    using that qemu_fflush_held [OF that(1)] by (auto simp: qf_wrote_def qf_held_def)
  show ?thesis
  proof (cases "fo_writev_buffer ops")
    case None
    then have "qf_held ops mem written (?i + length ds) (g\<lparr>qf_buf_index := ?i + length ds\<rparr>) (bs @ ds)"
      using assms(1,2) buf(1,3) gi iov_within_mono [OF w] by (simp add: qf_wrote_def qf_held_def)
    moreover have "length (qf_iov g) < MAX_IOV_SIZE" using assms(1) gi(2) by (simp add: qf_wrote_def)
    ultimately show ?thesis using fin [of "g\<lparr>qf_buf_index := ?i + length ds\<rparr>"] None gi(1) by (simp add: qemu_advance_def Let_def split: if_splits)
  next
    case (Some wv)
    have "qf_held ops mem written ?i g bs"
      using assms(1) buf(1) gi Some arg_cong [OF iov_bytes_cong [OF w buf(2), of mem], of concat]
      by (simp del: map_eq_conv add: qf_wrote_def qf_held_def)
    from add_to_iovec_held [OF this, where k' = "?i + length ds" and base = "InBuf ?i" and n = "length ds"] Some assms(1,2) gi buf(4)
    have a: "yields (add_to_iovec ops mem g (InBuf ?i) (length ds)) (\<lambda>h. qf_held ops mem written (?i + length ds) h (bs @ ds) \<and>
      length (qf_iov h) < MAX_IOV_SIZE \<and> (qf_buf_index h = ?i \<or> qf_buf_index h = 0 \<and> qf_iov h = []))"
      by (simp add: qf_wrote_def)
    have "yields (let f = h\<lparr>qf_buf_index := qf_buf_index h + length ds\<rparr> in Some (if qf_buf_index f = IO_BUF_SIZE then qemu_fflush ops mem f else f))
        (\<lambda>h. qf_wrote ops mem written h (bs @ ds))"
      if "qf_held ops mem written (?i + length ds) h (bs @ ds) \<and> length (qf_iov h) < MAX_IOV_SIZE \<and>
        (qf_buf_index h = ?i \<or> qf_buf_index h = 0 \<and> qf_iov h = [])" for h
      unfolding Let_def yields_Some using that Some assms(2) by (intro fin) (auto simp: qf_held_def)
    from yields_mono [OF a this] show ?thesis using Some gi(1) by (simp del: yields_Some add: qemu_advance_def)
  qed
qed

lemma qemu_put_byte_wrote:
  assumes "qf_wrote ops mem written f bs"
  shows "yields (qemu_put_byte ops mem f v) (\<lambda>g. qf_wrote ops mem written g (bs @ [v]))"
proof -
  have i: "qf_last_error f = 0" "length (qf_buf f) = IO_BUF_SIZE" "qf_buf_index f < IO_BUF_SIZE"
    using assms by (simp_all add: qf_wrote_def qf_held_def)
  then show ?thesis
    using qemu_advance_wrote [OF assms _ refl, where ds = "[v]" and x = "qf_bytes_xfer f + 1"]
    by (simp del: set_opt_Some add: qemu_put_byte_def put_array_at_1 put_array_at_def)
qed

lemma qemu_put_chunk_wrote:
  assumes "qf_wrote ops mem written f bs" "ds \<noteq> []"
  shows "yields (qemu_put_chunk ops mem f ds) (\<lambda>(l, g). 0 < l \<and> l \<le> length ds \<and> qf_wrote ops mem written g (bs @ take l ds))"
proof -
  define l where "l = min (IO_BUF_SIZE - qf_buf_index f) (length ds)"
  have i: "length (qf_buf f) = IO_BUF_SIZE" "qf_buf_index f < IO_BUF_SIZE" using assms(1) by (simp_all add: qf_wrote_def qf_held_def)
  then have l: "0 < l" "l \<le> length ds" "qf_buf_index f + l \<le> IO_BUF_SIZE" using assms(2) by (auto simp: l_def)
  then have "yields (qemu_advance ops mem (f\<lparr>qf_buf := take (qf_buf_index f) (qf_buf f) @ take l ds @ drop (qf_buf_index f + l) (qf_buf f),
      qf_bytes_xfer := qf_bytes_xfer f + int (length ds)\<rparr>) l) (\<lambda>h. qf_wrote ops mem written h (bs @ take l ds))"
    using qemu_advance_wrote [OF assms(1) _ refl, where ds = "take l ds" and x = "qf_bytes_xfer f + int (length ds)"] by simp
  then show ?thesis
    using i l unfolding qemu_put_chunk_def l_def [symmetric] by (simp add: put_array_at_def)
qed

lemma qemu_put_chunks_wrote:
  assumes "qf_wrote ops mem written f bs"
  shows "yields (qemu_put_chunks ops mem f ds) (\<lambda>g. qf_wrote ops mem written g (bs @ ds))"
  using assms
proof (induction "length ds" arbitrary: f bs ds rule: less_induct)
  case less
  show ?case
  proof (cases "ds = []")
    case True
    then show ?thesis using less.prems by (simp add: qemu_put_chunks.simps)
  next
    case False
    have "yields (if qemu_file_get_error g \<noteq> 0 then Some g else qemu_put_chunks ops mem g (drop l ds)) (\<lambda>g. qf_wrote ops mem written g (bs @ ds))"
      if "0 < l" "l \<le> length ds" "qf_wrote ops mem written g (bs @ take l ds)" for l g
    proof -
      have "qf_last_error g = 0" using that(3) by (simp add: qf_wrote_def qf_held_def)
      then show ?thesis using less.hyps [OF _ that(3), of "drop l ds"] that(1,2) by (simp add: qemu_file_get_error_def)
    qed
    then show ?thesis
      using False by (subst qemu_put_chunks.simps) (simp, rule yields_mono [OF qemu_put_chunk_wrote [OF less.prems False]], auto)
  qed
qed

lemma qemu_put_buffer_wrote:
  assumes "qf_wrote ops mem written f bs"
  shows "yields (qemu_put_buffer ops mem f ds) (\<lambda>g. qf_wrote ops mem written g (bs @ ds))"
  using qemu_put_chunks_wrote [OF assms] assms by (simp add: qemu_put_buffer_def qf_wrote_def qf_held_def)

lemma qemu_put_buffer_async_wrote:
  assumes "qf_wrote ops mem written f bs"
  shows "yields (qemu_put_buffer_async ops mem f a n) (\<lambda>g. qf_wrote ops mem written g (bs @ map mem [a..<a + n]))"
proof (cases "fo_writev_buffer ops")
  case None
  then show ?thesis using qemu_put_buffer_wrote [OF assms] by (simp add: qemu_put_buffer_async_def)
next
  case (Some wv)
  let ?f = "f\<lparr>qf_bytes_xfer := qf_bytes_xfer f + int n\<rparr>"
  have f: "qf_held ops mem written (qf_buf_index f) ?f bs" "length (qf_iov ?f) < MAX_IOV_SIZE" "qf_last_error f = 0"
    "qf_buf_index f < IO_BUF_SIZE" using assms by (simp_all add: qf_wrote_def qf_held_def)
  have "yields (add_to_iovec ops mem ?f (InMem a) n) (\<lambda>g. qf_held ops mem written (qf_buf_index f) g (bs @ map mem [a..<a + n]) \<and>
    length (qf_iov g) < MAX_IOV_SIZE \<and> (qf_buf_index g = qf_buf_index f \<or> qf_buf_index g = 0 \<and> qf_iov g = []))"
    using add_to_iovec_held [OF f(1,2), where base = "InMem a" and n = n and k' = "qf_buf_index f"] Some f(4) by simp
  moreover have "qf_wrote ops mem written g bs'" if "qf_held ops mem written (qf_buf_index f) g bs'"
    "length (qf_iov g) < MAX_IOV_SIZE" "qf_buf_index g = qf_buf_index f \<or> qf_buf_index g = 0 \<and> qf_iov g = []" for g bs'
    using that f(4) Some by (auto simp: qf_wrote_def qf_held_def)
  ultimately show ?thesis using Some f(3) by (simp add: qemu_put_buffer_async_def) (erule yields_mono, blast)
qed

subsection \<open>What is left to read\<close>

definition source_lawful :: "'r QEMUFileOps \<Rightarrow> ('r \<Rightarrow> u8 list) \<Rightarrow> bool" where
  "source_lawful ops avail \<longleftrightarrow> \<not> qemu_file_is_writable ops \<and>
     (\<forall>w pos n. case fo_get_buffer ops w pos n of (len, bs, w') \<Rightarrow>
        len = int (length bs) \<and> length bs \<le> n \<and> avail w = bs @ avail w' \<and> (bs = [] \<longrightarrow> n = 0 \<or> avail w = []))"

text \<open>
  \<open>qf_reading\<close> leaves open whether an error is set; \<open>qf_rest\<close> is what holds between the calls of a reader that has not met the
  end: no error, and room in the buffer for \<open>qemu_fill_buffer\<close>.
\<close>

definition qf_reading :: "'r QEMUFileOps \<Rightarrow> ('r \<Rightarrow> u8 list) \<Rightarrow> 'r QEMUFile \<Rightarrow> u8 list \<Rightarrow> bool" where
  "qf_reading ops avail f bs \<longleftrightarrow>
     source_lawful ops avail \<and> length (qf_buf f) = IO_BUF_SIZE \<and> qf_buf_index f \<le> qf_buf_size f \<and> qf_buf_size f \<le> IO_BUF_SIZE \<and>
     bs = take (qf_buf_size f - qf_buf_index f) (drop (qf_buf_index f) (qf_buf f)) @ avail (qf_opaque f)"

definition qf_rest :: "'r QEMUFileOps \<Rightarrow> ('r \<Rightarrow> u8 list) \<Rightarrow> 'r QEMUFile \<Rightarrow> u8 list \<Rightarrow> bool" where
  "qf_rest ops avail f bs \<longleftrightarrow>
     qf_reading ops avail f bs \<and> qf_last_error f = 0 \<and> qf_buf_size f - qf_buf_index f < IO_BUF_SIZE"

lemma qemu_fopen_rest: "source_lawful ops avail \<Longrightarrow> qf_rest ops avail (qemu_fopen_ops w) (avail w)"
  by (simp add: qf_rest_def qf_reading_def qemu_fopen_ops_def)

lemma source_lawfulD:
  assumes "source_lawful ops avail" "fo_get_buffer ops w pos n = (len, bs, w')"
  shows "len = int (length bs)" "length bs \<le> n" "avail w = bs @ avail w'" "bs = [] \<Longrightarrow> n = 0 \<or> avail w = []"
proof -
  have "case fo_get_buffer ops w pos n of (len, bs, w') \<Rightarrow>
      len = int (length bs) \<and> length bs \<le> n \<and> avail w = bs @ avail w' \<and> (bs = [] \<longrightarrow> n = 0 \<or> avail w = [])"
    using assms(1) unfolding source_lawful_def by (elim conjE allE)
  then show "len = int (length bs)" "length bs \<le> n" "avail w = bs @ avail w'" "bs = [] \<Longrightarrow> n = 0 \<or> avail w = []"
    using assms(2) by auto
qed

lemma qemu_fill_buffer_reading:
  assumes "qf_reading ops avail f bs" "qf_buf_size f - qf_buf_index f < IO_BUF_SIZE"
  shows "yields (qemu_fill_buffer ops f) (\<lambda>g. qf_reading ops avail g bs \<and> qf_buf_index g = 0 \<and>
    (if avail (qf_opaque f) = [] then avail (qf_opaque g) = [] \<and> (qf_last_error f = 0 \<longrightarrow> qf_last_error g = - EIO)
     else qf_buf_size f - qf_buf_index f < qf_buf_size g \<and> qf_last_error g = qf_last_error f))"
proof -
  define p where "p = qf_buf_size f - qf_buf_index f"
  obtain len ds w where get: "fo_get_buffer ops (qf_opaque f) (qf_pos f) (IO_BUF_SIZE - p) = (len, ds, w)" by (metis prod_cases3)
  have "source_lawful ops avail" using assms(1) by (simp add: qf_reading_def)
  note law = source_lawfulD [OF this get]
  have f: "\<not> qemu_file_is_writable ops" "length (qf_buf f) = IO_BUF_SIZE" "qf_buf_index f + p = qf_buf_size f" "p < IO_BUF_SIZE"
    "qf_buf_size f \<le> IO_BUF_SIZE" "bs = take p (drop (qf_buf_index f) (qf_buf f)) @ ds @ avail w"
    using assms law(3) by (simp_all add: qf_reading_def source_lawful_def p_def)
  have e: "ds = [] \<Longrightarrow> avail (qf_opaque f) = []" using law(4) f(4) by auto
  define c where "c = take p (drop (qf_buf_index f) (qf_buf f))"
  have c: "length c = p" using f by (simp add: c_def)
  define b where "b = c @ ds @ drop (p + length ds) (qf_buf f)"
  have put: "put_array_at (qf_buf f) 0 c = Some (c @ drop p (qf_buf f))" "put_array_at (c @ drop p (qf_buf f)) p ds = Some b"
    using c f(2,4) law(2) by (simp_all add: put_array_at_def b_def ac_simps)
  let ?f = "f\<lparr>qf_opaque := w, qf_buf := b, qf_buf_index := 0, qf_buf_size := p\<rparr>"
  have "qemu_fill_buffer ops f = Some (if 0 < len then ?f\<lparr>qf_buf_size := qf_buf_size ?f + nat len, qf_pos := qf_pos ?f + len\<rparr> else
      if len = 0 then qemu_file_set_error ?f (- EIO) else if len \<noteq> - EAGAIN then qemu_file_set_error ?f len else ?f)"
    using f(1,3) unfolding qemu_fill_buffer_def Let_def p_def [symmetric] get prod.case c_def [symmetric] put Option.bind.bind_lunit by simp
  moreover have "length b = IO_BUF_SIZE" "take (p + length ds) b = c @ ds" using c f(2,4) law(2) by (simp_all add: b_def)
  ultimately show ?thesis
    using assms(1) f c law(1-3) e by (cases "ds = []") (auto simp: qf_reading_def qemu_file_set_error_def c_def [symmetric] p_def [symmetric])
qed

lemma qf_reading_take:
  assumes "qf_reading ops avail f bs" "n \<le> qf_buf_size f - qf_buf_index f"
  shows "take n (drop (qf_buf_index f) (qf_buf f)) = take n bs" "qf_reading ops avail (qemu_file_skip f n) (drop n bs)"
proof -
  let ?p = "take (qf_buf_size f - qf_buf_index f) (drop (qf_buf_index f) (qf_buf f))"
  have bs: "bs = ?p @ avail (qf_opaque f)" and len: "length ?p = qf_buf_size f - qf_buf_index f" and i: "qf_buf_index f \<le> qf_buf_size f"
    using assms(1) by (auto simp: qf_reading_def)
  show "take n (drop (qf_buf_index f) (qf_buf f)) = take n bs"
    unfolding bs using assms(2) len by simp
  have "drop n ?p = take (qf_buf_size f - (qf_buf_index f + n)) (drop (qf_buf_index f + n) (qf_buf f))"
    by (simp add: drop_take add.commute)
  then have "drop n bs = take (qf_buf_size f - (qf_buf_index f + n)) (drop (qf_buf_index f + n) (qf_buf f)) @ avail (qf_opaque f)"
    unfolding bs using assms(2) len by simp
  moreover have "qf_buf_index f + n \<le> qf_buf_size f" using assms(2) i by simp
  ultimately show "qf_reading ops avail (qemu_file_skip f n) (drop n bs)"
    using assms(1) by (simp add: qf_reading_def qemu_file_skip_def)
qed

lemma qemu_skip_rest:
  assumes "qf_reading ops avail f bs" "0 < n" "n \<le> qf_buf_size f - qf_buf_index f" "qf_last_error f = 0"
  shows "qf_rest ops avail (qemu_file_skip f n) (drop n bs)"
  using qf_reading_take(2) [OF assms(1,3)] assms by (auto simp: qf_rest_def qemu_file_skip_def qf_reading_def)

text \<open>The refill before a read of \<open>n\<close> bytes, when the bytes are there.\<close>

lemma qf_refill:
  assumes "qf_rest ops avail f bs" "0 < n" "n \<le> length bs"
  shows "yields (if qf_buf_size f < qf_buf_index f + n then qemu_fill_buffer ops f else Some f)
    (\<lambda>g. qf_reading ops avail g bs \<and> qf_last_error g = 0 \<and> qf_buf_index g < qf_buf_size g)"
proof (cases "qf_buf_size f < qf_buf_index f + n")
  case True
  have r: "qf_reading ops avail f bs" "qf_last_error f = 0" "qf_buf_size f - qf_buf_index f < IO_BUF_SIZE" using assms(1) by (simp_all add: qf_rest_def)
  have "avail (qf_opaque f) \<noteq> []" using True assms(3) r(1) by (auto simp: qf_reading_def)
  then show ?thesis using True r by (auto intro: yields_mono [OF qemu_fill_buffer_reading [OF r(1,3)]])
next
  case False
  then show ?thesis using assms(1,2) by (simp add: qf_rest_def)
qed

lemma qemu_get_byte_rest:
  assumes "qf_rest ops avail f (v # bs)"
  shows "yields (qemu_get_byte ops f) (\<lambda>(x, g). x = v \<and> qf_rest ops avail g bs)"
proof -
  have w: "\<not> qemu_file_is_writable ops" using assms by (simp add: qf_rest_def qf_reading_def source_lawful_def)
  have "yields (if qf_buf_size f \<le> qf_buf_index f then qemu_fill_buffer ops f else Some f)
    (\<lambda>g. qf_reading ops avail g (v # bs) \<and> qf_last_error g = 0 \<and> qf_buf_index g < qf_buf_size g)"
    using qf_refill [OF assms, of 1] by (simp add: less_Suc_eq_le)
  moreover have "nth_opt (qf_buf g) (qf_buf_index g) = Some v \<and> qf_rest ops avail (qemu_file_skip g 1) bs"
    if "qf_reading ops avail g (v # bs) \<and> qf_last_error g = 0 \<and> qf_buf_index g < qf_buf_size g" for g
  proof -
    have l: "qf_buf_index g < length (qf_buf g)" using that by (auto simp: qf_reading_def)
    have "take 1 (drop (qf_buf_index g) (qf_buf g)) = [v]" using qf_reading_take(1) [of ops avail g "v # bs" 1] that by (simp add: Suc_le_eq)
    then have "qf_buf g ! qf_buf_index g = v" using l by (cases "drop (qf_buf_index g) (qf_buf g)") (auto simp: nth_via_drop)
    moreover have "qf_rest ops avail (qemu_file_skip g 1) bs" using qemu_skip_rest [of ops avail g "v # bs" 1] that by (simp add: Suc_le_eq)
    ultimately show ?thesis using l by (simp add: nth_opt_def)
  qed
  ultimately show ?thesis
    using w by (cases "qf_buf_size f \<le> qf_buf_index f")
      (auto simp: qemu_get_byte_def qemu_peek_byte_def case_prod_beta elim!: yields_mono)
qed

text \<open>At the end of the stream a byte reads as 0, and the error is set.\<close>

lemma qemu_get_byte_end:
  assumes "qf_rest ops avail f []"
  shows "yields (qemu_get_byte ops f) (\<lambda>(x, g). x = 0 \<and> qf_last_error g = - EIO \<and> qf_reading ops avail g [])"
proof -
  have r: "qf_reading ops avail f []" "qf_last_error f = 0" "qf_buf_size f - qf_buf_index f < IO_BUF_SIZE"
    "\<not> qemu_file_is_writable ops" "avail (qf_opaque f) = []" "qf_buf_size f = qf_buf_index f"
    using assms by (auto simp: qf_rest_def qf_reading_def source_lawful_def)
  have "qf_buf_size g = 0" if "qf_reading ops avail g []" "qf_buf_index g = 0" for g
    using that by (auto simp: qf_reading_def)
  then show ?thesis
    using r yields_mono [OF qemu_fill_buffer_reading [OF r(1,3)]]
    by (simp add: qemu_get_byte_def qemu_peek_byte_def qemu_file_skip_def case_prod_beta)
qed

lemma qemu_peek_buffer_rest:
  assumes "qf_rest ops avail f bs" "0 < n" "n \<le> length bs"
  shows "yields (qemu_peek_buffer ops f n 0) (\<lambda>(xs, g). xs \<noteq> [] \<and> length xs \<le> n \<and> xs = take (length xs) bs \<and>
    qf_rest ops avail (qemu_file_skip g (length xs)) (drop (length xs) bs))"
proof -
  let ?rest = "\<lambda>g. if qf_buf_size g \<le> qf_buf_index g then Some ([], g) else if length (qf_buf g) < qf_buf_size g then None
    else Some (take (min n (qf_buf_size g - qf_buf_index g)) (drop (qf_buf_index g) (qf_buf g)), g)"
  have w: "\<not> qemu_file_is_writable ops" using assms(1) by (simp add: qf_rest_def qf_reading_def source_lawful_def)
  then have e: "qemu_peek_buffer ops f n 0 =
    (if qf_buf_size f < qf_buf_index f + n then qemu_fill_buffer ops f else Some f) \<bind> ?rest"
    by (simp add: qemu_peek_buffer_def Let_def)
  show ?thesis
    unfolding e yields_bind
  proof (rule yields_mono [OF qf_refill [OF assms]], elim conjE)
    fix g assume g: "qf_reading ops avail g bs" "qf_last_error g = 0" "qf_buf_index g < qf_buf_size g"
    define k where "k = min n (qf_buf_size g - qf_buf_index g)"
    have k: "0 < k" "k \<le> qf_buf_size g - qf_buf_index g" "k \<le> n" using g(3) assms(2) by (simp_all add: k_def)
    have "\<not> length (qf_buf g) < qf_buf_size g" using g(1) by (simp add: qf_reading_def)
    then show "yields (?rest g) (\<lambda>(xs, g). xs \<noteq> [] \<and> length xs \<le> n \<and> xs = take (length xs) bs \<and>
      qf_rest ops avail (qemu_file_skip g (length xs)) (drop (length xs) bs))"
      using g(3) k assms(3) qemu_skip_rest [OF g(1) k(1,2) g(2)] unfolding k_def [symmetric] qf_reading_take(1) [OF g(1) k(2)]
      by auto
  qed
qed

lemma qemu_get_buffer_rest:
  assumes "qf_rest ops avail f (ds @ bs)"
  shows "yields (qemu_get_buffer ops f (length ds)) (\<lambda>(xs, g). xs = ds \<and> qf_rest ops avail g bs)"
  using assms
proof (induction "length ds" arbitrary: f ds rule: less_induct)
  case less
  show ?case
  proof (cases "ds = []")
    case True
    then show ?thesis using less.prems by (simp add: qemu_get_buffer.simps)
  next
    case False
    have "yields (if xs = [] then Some ([], g) else do { (cs, g) \<leftarrow> qemu_get_buffer ops (qemu_file_skip g (length xs)) (length ds - length xs);
        Some (xs @ cs, g) }) (\<lambda>(xs, g). xs = ds \<and> qf_rest ops avail g bs)"
      if "xs \<noteq> []" "length xs \<le> length ds" "xs = take (length xs) (ds @ bs)"
        "qf_rest ops avail (qemu_file_skip g (length xs)) (drop (length xs) (ds @ bs))" for xs g
    proof -
      have ds: "ds = xs @ drop (length xs) ds" using that(2,3) by (metis append_take_drop_id take_append diff_is_0_eq take0 append_Nil2)
      have "yields (qemu_get_buffer ops (qemu_file_skip g (length xs)) (length (drop (length xs) ds)))
          (\<lambda>(cs, g). cs = drop (length xs) ds \<and> qf_rest ops avail g bs)"
        using less.hyps [of "drop (length xs) ds" "qemu_file_skip g (length xs)"] that False by (simp add: diff_less)
      then show ?thesis using that(1) ds by (auto simp: case_prod_beta elim!: yields_mono)
    qed
    then show ?thesis
      using False
      by (subst qemu_get_buffer.simps) (simp, rule yields_mono [OF qemu_peek_buffer_rest [OF less.prems, of "length ds"]], auto)
  qed
qed

end
