(* ===== verification/QemuStream.thy ===== *)
theory QemuStream
  imports QemuFile Interfaces
begin

text \<open>
  The save stream as its users see it. The locale \<open>stream_codec\<close> states what the save and load functions of a device rely on:
  a reader undoes its writer, whatever follows in the stream; it is interpreted on the byte and integer functions of
  \<^verbatim>\<open>savevm.c\<close>. The two properties say that the buffering of theory \<open>QemuFile\<close> is invisible: the backend receives the
  concatenation of what was put, however the calls mix and wherever the flushes fall, and the calls of a reader see
  consecutive pieces of what the backend has, whatever sizes it delivers.
\<close>

subsection \<open>Encoding values\<close>

text \<open>The loop that loads an array; the loop that saves one is \<open>exec_list\<close>.\<close>

fun get_array :: "('f \<Rightarrow> ('a \<times> 'f) option) \<Rightarrow> 'f \<Rightarrow> nat \<Rightarrow> ('a list \<times> 'f) option" where
  "get_array get f 0 = Some ([], f)"
| "get_array get f (Suc n) = do { (v, f) \<leftarrow> get f; (vs, f) \<leftarrow> get_array get f n; Some (v # vs, f) }"

text \<open>
  A writer and a reader of values: \<open>wr f bs\<close> says that \<open>bs\<close> has been written to \<open>f\<close>, \<open>rd f bs\<close> that \<open>bs\<close> is left to read.
\<close>

locale stream_codec =
  fixes wr :: "'w \<Rightarrow> u8 list \<Rightarrow> bool" and rd :: "'r \<Rightarrow> u8 list \<Rightarrow> bool"
    and put :: "'w \<Rightarrow> 'a \<Rightarrow> 'w option" and get :: "'r \<Rightarrow> ('a \<times> 'r) option" and enc :: "'a \<Rightarrow> u8 list"
  assumes put_enc: "wr f bs \<Longrightarrow> yields (put f v) (\<lambda>g. wr g (bs @ enc v))"
    and get_enc: "rd h (enc v @ bs) \<Longrightarrow> yields (get h) (\<lambda>(x, g). x = v \<and> rd g bs)"
begin

lemma put_bind:
  assumes "wr f bs" "\<And>g. wr g (bs @ enc v) \<Longrightarrow> yields (k g) P"
  shows "yields (put f v \<bind> k) P"
  using yields_mono [OF put_enc [OF assms(1)] assms(2)] by simp

lemma get_bind:
  assumes "rd f (enc v @ bs)" "\<And>g. rd g bs \<Longrightarrow> yields (k (v, g)) P"
  shows "yields (get f \<bind> k) P"
  unfolding yields_bind by (rule yields_mono [OF get_enc [OF assms(1)]]) (use assms(2) in auto)

lemma array_put: "wr f bs \<Longrightarrow> yields (exec_list put f vs) (\<lambda>g. wr g (bs @ concat (map enc vs)))"
proof (induction vs arbitrary: f bs)
  case (Cons v vs)
  have "yields (exec_list put g vs) (\<lambda>g. wr g (bs @ concat (map enc (v # vs))))" if "wr g (bs @ enc v)" for g
    using Cons.IH [OF that] by simp
  from put_bind [OF Cons.prems this] show ?case by simp
qed simp

lemma array_put_bind:
  assumes "wr f bs" "\<And>g. wr g (bs @ concat (map enc vs)) \<Longrightarrow> yields (k g) P"
  shows "yields (exec_list put f vs \<bind> k) P"
  using yields_mono [OF array_put [OF assms(1)] assms(2)] by simp

lemma array_get: "rd f (concat (map enc vs) @ bs) \<Longrightarrow> yields (get_array get f (length vs)) (\<lambda>(xs, g). xs = vs \<and> rd g bs)"
proof (induction vs arbitrary: f)
  case (Cons v vs)
  have "yields (get_array get g (length vs) \<bind> (\<lambda>(vs, f). Some (v # vs, f))) (\<lambda>(xs, g). xs = v # vs \<and> rd g bs)"
    if "rd g (concat (map enc vs) @ bs)" for g
    unfolding yields_bind by (rule yields_mono [OF Cons.IH [OF that]]) auto
  then show ?case
    using Cons.prems unfolding list.size get_array.simps add_0_right One_nat_def add_Suc_right
    by (intro get_bind [of f v "concat (map enc vs) @ bs"]) (simp_all del: yields_bind)
qed simp

lemma array_get_bind:
  assumes "rd f (concat (map enc vs) @ bs)" "n = length vs" "\<And>g. rd g bs \<Longrightarrow> yields (k (vs, g)) P"
  shows "yields (get_array get f n \<bind> k) P"
  unfolding yields_bind assms(2) by (rule yields_mono [OF array_get [OF assms(1)]]) (use assms(3) in auto)

end

interpretation byte: stream_codec "qf_wrote ops mem written" "qf_rest iops avail" "qemu_put_byte ops mem" "qemu_get_byte iops" "\<lambda>v. [v]"
  for ops mem written iops avail
  by unfold_locales (simp_all add: qemu_put_byte_wrote qemu_get_byte_rest)

definition enc32 :: "u32 \<Rightarrow> u8 list" where
  "enc32 v = [ucast (drop_bit 24 v), ucast (drop_bit 16 v), ucast (drop_bit 8 v), ucast v]"

definition enc64 :: "u64 \<Rightarrow> u8 list" where
  "enc64 v = enc32 (ucast (drop_bit 32 v)) @ enc32 (ucast v)"

lemma bytes_be32: "push_bit 24 (ucast (ucast (drop_bit 24 v) :: u8)) OR push_bit 16 (ucast (ucast (drop_bit 16 v) :: u8)) OR
    push_bit 8 (ucast (ucast (drop_bit 8 v) :: u8)) OR ucast (ucast v :: u8) = (v :: u32)" (is "?l = v")
proof (rule bit_word_eqI)
  fix n assume "n < LENGTH(32)"
  then consider "n < 8" | "8 \<le> n" "n < 16" | "16 \<le> n" "n < 24" | "24 \<le> n" "n < 32" by fastforce
  then show "bit ?l n = bit v n"
    by cases (auto simp: bit_simps)
qed

lemma bytes_be64: "push_bit 32 (ucast (ucast (drop_bit 32 v) :: u32)) OR ucast (ucast v :: u32) = (v :: u64)"
  by (rule bit_word_eqI) (auto simp: bit_simps)

lemma qemu_put_be32_wrote:
  assumes "qf_wrote ops mem written f bs"
  shows "yields (qemu_put_be32 ops mem f v) (\<lambda>g. qf_wrote ops mem written g (bs @ enc32 v))"
  unfolding qemu_put_be32_def
proof (rule byte.put_bind [OF assms], rule byte.put_bind, assumption, rule byte.put_bind, assumption)
  fix f assume "qf_wrote ops mem written f (((bs @ [ucast (drop_bit 24 v)]) @ [ucast (drop_bit 16 v)]) @ [ucast (drop_bit 8 v)])"
  from byte.put_enc [OF this, of "ucast v"] show "yields (qemu_put_byte ops mem f (ucast v)) (\<lambda>g. qf_wrote ops mem written g (bs @ enc32 v))"
    by (simp add: enc32_def)
qed

lemma qemu_get_be32_rest:
  assumes "qf_rest iops avail f (enc32 v @ bs)"
  shows "yields (qemu_get_be32 iops f) (\<lambda>(x, g). x = v \<and> qf_rest iops avail g bs)"
proof -
  have "qf_rest iops avail f ([ucast (drop_bit 24 v)] @ [ucast (drop_bit 16 v)] @ [ucast (drop_bit 8 v)] @ [ucast v] @ bs)"
    using assms by (simp add: enc32_def)
  then show ?thesis
    unfolding qemu_get_be32_def by - ((rule byte.get_bind, assumption, simp only: prod.case)+, simp add: bytes_be32)
qed

interpretation be32: stream_codec "qf_wrote ops mem written" "qf_rest iops avail" "qemu_put_be32 ops mem" "qemu_get_be32 iops" enc32
  for ops mem written iops avail
  by unfold_locales (simp_all add: qemu_put_be32_wrote qemu_get_be32_rest)

lemma qemu_put_be64_wrote:
  assumes "qf_wrote ops mem written f bs"
  shows "yields (qemu_put_be64 ops mem f v) (\<lambda>g. qf_wrote ops mem written g (bs @ enc64 v))"
  unfolding qemu_put_be64_def enc64_def append_assoc [symmetric] by (rule be32.put_bind [OF assms], rule be32.put_enc)

lemma qemu_get_be64_rest:
  assumes "qf_rest iops avail f (enc64 v @ bs)"
  shows "yields (qemu_get_be64 iops f) (\<lambda>(x, g). x = v \<and> qf_rest iops avail g bs)"
  using assms unfolding qemu_get_be64_def enc64_def append_assoc
  by - ((rule be32.get_bind, assumption, simp only: prod.case)+, simp add: bytes_be64)

interpretation be64: stream_codec "qf_wrote ops mem written" "qf_rest iops avail" "qemu_put_be64 ops mem" "qemu_get_be64 iops" enc64
  for ops mem written iops avail
  by unfold_locales (simp_all add: qemu_put_be64_wrote qemu_get_be64_rest)

text \<open>A field of 8 bits, and a field of type \<open>bool\<close>, that is saved with \<open>qemu_put_be32\<close>.\<close>

definition put_u8 :: "'w QEMUFileOps \<Rightarrow> (nat \<Rightarrow> u8) \<Rightarrow> 'w QEMUFile \<Rightarrow> u8 \<Rightarrow> 'w QEMUFile option" where
  "put_u8 ops mem f v = qemu_put_be32 ops mem f (ucast v)"

definition get_u8 :: "'w QEMUFileOps \<Rightarrow> 'w QEMUFile \<Rightarrow> (u8 \<times> 'w QEMUFile) option" where
  "get_u8 ops f = map_option (\<lambda>(v, f). (ucast v, f)) (qemu_get_be32 ops f)"

definition put_bool :: "'w QEMUFileOps \<Rightarrow> (nat \<Rightarrow> u8) \<Rightarrow> 'w QEMUFile \<Rightarrow> bool \<Rightarrow> 'w QEMUFile option" where
  "put_bool ops mem f b = qemu_put_be32 ops mem f (if b then 1 else 0)"

definition get_bool :: "'w QEMUFileOps \<Rightarrow> 'w QEMUFile \<Rightarrow> (bool \<times> 'w QEMUFile) option" where
  "get_bool ops f = map_option (\<lambda>(v, f). (v \<noteq> 0, f)) (qemu_get_be32 ops f)"

lemma ucast_u8_u32: "ucast (ucast (v::u8) :: u32) = v"
  by (rule bit_word_eqI) (auto simp: bit_simps)

interpretation byte32: stream_codec "qf_wrote ops mem written" "qf_rest iops avail" "put_u8 ops mem" "get_u8 iops" "\<lambda>v. enc32 (ucast v)"
  for ops mem written iops avail
  by unfold_locales (auto simp: put_u8_def get_u8_def qemu_put_be32_wrote ucast_u8_u32 intro!: yields_mono [OF qemu_get_be32_rest])

interpretation bool32: stream_codec "qf_wrote ops mem written" "qf_rest iops avail" "put_bool ops mem" "get_bool iops" "\<lambda>b. enc32 (if b then 1 else 0)"
  for ops mem written iops avail
  by unfold_locales (auto simp: put_bool_def get_bool_def qemu_put_be32_wrote split: if_splits intro!: yields_mono [OF qemu_get_be32_rest])

lemma buffer_put_bind:
  assumes "qf_wrote ops mem written f bs" "\<And>g. qf_wrote ops mem written g (bs @ ds) \<Longrightarrow> yields (k g) P"
  shows "yields (qemu_put_buffer ops mem f ds \<bind> k) P"
  using yields_mono [OF qemu_put_buffer_wrote [OF assms(1)] assms(2)] by simp

lemma buffer_get_bind:
  assumes "qf_rest ops avail f (ds @ bs)" "n = length ds" "\<And>g. qf_rest ops avail g bs \<Longrightarrow> yields (k (ds, g)) P"
  shows "yields (qemu_get_buffer ops f n \<bind> k) P"
  unfolding yields_bind assms(2) by (rule yields_mono [OF qemu_get_buffer_rest [OF assms(1)]]) (use assms(3) in auto)

subsection \<open>Buffering is invisible\<close>

datatype put_op = PutByte u8 | PutBuffer "u8 list" | PutAsync nat nat | PutFlush

fun put_step :: "'w QEMUFileOps \<Rightarrow> (nat \<Rightarrow> u8) \<Rightarrow> 'w QEMUFile \<Rightarrow> put_op \<Rightarrow> 'w QEMUFile option" where
  "put_step ops mem f (PutByte v) = qemu_put_byte ops mem f v"
| "put_step ops mem f (PutBuffer bs) = qemu_put_buffer ops mem f bs"
| "put_step ops mem f (PutAsync a n) = qemu_put_buffer_async ops mem f a n"
| "put_step ops mem f PutFlush = Some (qemu_fflush ops mem f)"

fun put_bytes :: "(nat \<Rightarrow> u8) \<Rightarrow> put_op \<Rightarrow> u8 list" where
  "put_bytes mem (PutByte v) = [v]"
| "put_bytes mem (PutBuffer bs) = bs"
| "put_bytes mem (PutAsync a n) = map mem [a..<a + n]"
| "put_bytes mem PutFlush = []"

datatype get_op = GetByte | GetBuffer nat

fun get_step :: "'r QEMUFileOps \<Rightarrow> 'r QEMUFile \<Rightarrow> get_op \<Rightarrow> (u8 list \<times> 'r QEMUFile) option" where
  "get_step ops f GetByte = map_option (\<lambda>(v, f). ([v], f)) (qemu_get_byte ops f)"
| "get_step ops f (GetBuffer n) = qemu_get_buffer ops f n"

fun get_len :: "get_op \<Rightarrow> nat" where
  "get_len GetByte = 1"
| "get_len (GetBuffer n) = n"

lemma qemu_fflush_wrote: "qf_wrote ops mem written f bs \<Longrightarrow> qf_wrote ops mem written (qemu_fflush ops mem f) bs"
  using qemu_fflush_held [of ops mem written "qf_buf_index f" f bs] by (simp add: qf_wrote_def)

lemma put_step_wrote:
  "qf_wrote ops mem written f bs \<Longrightarrow> yields (put_step ops mem f e) (\<lambda>g. qf_wrote ops mem written g (bs @ put_bytes mem e))"
  by (cases e) (simp_all add: qemu_put_byte_wrote qemu_put_buffer_wrote qemu_put_buffer_async_wrote qemu_fflush_wrote)

lemma put_run_wrote:
  "qf_wrote ops mem written f bs \<Longrightarrow> yields (exec_list (put_step ops mem) f es) (\<lambda>g. qf_wrote ops mem written g (bs @ concat (map (put_bytes mem) es)))"
proof (induction es arbitrary: f bs)
  case (Cons e es)
  have "yields (exec_list (put_step ops mem) g es) (\<lambda>g. qf_wrote ops mem written g (bs @ concat (map (put_bytes mem) (e # es))))"
    if "qf_wrote ops mem written g (bs @ put_bytes mem e)" for g
    using Cons.IH [OF that] by simp
  from yields_mono [OF put_step_wrote [OF Cons.prems] this] show ?case by simp
qed simp

lemma get_step_rest:
  assumes "qf_rest ops avail f bs" "get_len e \<le> length bs"
  shows "yields (get_step ops f e) (\<lambda>(xs, g). xs = take (get_len e) bs \<and> qf_rest ops avail g (drop (get_len e) bs))"
proof (cases e)
  case GetByte
  then obtain v cs where "bs = v # cs" using assms(2) by (cases bs) auto
  then show ?thesis using GetByte qemu_get_byte_rest [of ops avail f v cs] assms(1) by (auto elim!: yields_mono)
next
  case (GetBuffer n)
  then show ?thesis using qemu_get_buffer_rest [of ops avail f "take n bs" "drop n bs"] assms by simp
qed

lemma get_run_rest:
  assumes "qf_rest ops avail f bs" "sum_list (map get_len es) \<le> length bs"
  shows "yields (io_run (get_step ops) f es) (\<lambda>(outs, g). concat outs = take (sum_list (map get_len es)) bs \<and>
    map length outs = map get_len es \<and> qf_rest ops avail g (drop (sum_list (map get_len es)) bs))"
  using assms
proof (induction es arbitrary: f bs)
  case (Cons e es)
  let ?m = "get_len e" and ?n = "sum_list (map get_len es)"
  have "yields (do { (outs, u) \<leftarrow> io_run (get_step ops) g es; Some (take ?m bs # outs, u) })
      (\<lambda>(outs, g). concat outs = take (?m + ?n) bs \<and> map length outs = map get_len (e # es) \<and> qf_rest ops avail g (drop (?m + ?n) bs))"
    if "qf_rest ops avail g (drop ?m bs)" for g
  proof -
    have "yields (io_run (get_step ops) g es) (\<lambda>(outs, g). concat outs = take ?n (drop ?m bs) \<and>
        map length outs = map get_len es \<and> qf_rest ops avail g (drop ?n (drop ?m bs)))"
      using Cons.prems(2) by (intro Cons.IH [OF that]) simp
    then show ?thesis using Cons.prems(2) by (auto simp: take_add add.commute elim!: yields_mono)
  qed
  then show ?case
    using Cons.prems yields_mono [OF get_step_rest [OF Cons.prems(1), of e]]
    by (simp del: yields_Some) (rule yields_mono [OF get_step_rest [OF Cons.prems(1), of e]], auto)
qed simp

text \<open>A backend in memory that takes vectors, and one that delivers at most three bytes at a time.\<close>

definition ram_sink :: "u8 list QEMUFileOps" where
  "ram_sink = \<lparr>fo_put_buffer = None, fo_get_buffer = (\<lambda>w pos n. (0, [], w)), fo_close = None,
     fo_writev_buffer = Some (\<lambda>w bss pos. (int (length (concat bss)), w @ concat bss))\<rparr>"

definition ram_source :: "u8 list QEMUFileOps" where
  "ram_source = \<lparr>fo_put_buffer = None, fo_get_buffer = (\<lambda>w pos n. (int (length (take (min n 3) w)), take (min n 3) w, drop (min n 3) w)),
     fo_close = None, fo_writev_buffer = None\<rparr>"

lemma ram_lawful: "sink_lawful ram_sink id" "source_lawful ram_source id"
  by (auto simp: sink_lawful_def source_lawful_def ram_sink_def ram_source_def qemu_file_is_writable_def min_def split: if_splits)

text \<open>
  C3: What a file delivers to its backend is what was put into it: for every mixture of bytes, buffers of any length, buffers
  left in the memory of the guest and flushes, no access is out of bounds, every loop ends, no error is set, and after a
  final flush the backend holds the concatenation of what was put, whose length is the position reported.
\<close>

theorem qemu_file_write_stream:
  assumes "sink_lawful ops written" "written w = []"
  shows "\<exists>f. exec_list (put_step ops mem) (qemu_fopen_ops w) es = Some f \<and> qf_last_error f = 0 \<and>
    written (qf_opaque (qemu_fflush ops mem f)) = concat (map (put_bytes mem) es) \<and>
    fst (qemu_ftell ops mem f) = int (length (concat (map (put_bytes mem) es)))"
proof -
  obtain f where f: "exec_list (put_step ops mem) (qemu_fopen_ops w) es = Some f" "qf_wrote ops mem written f (concat (map (put_bytes mem) es))"
    using put_run_wrote [OF qemu_fopen_wrote [OF assms], of mem es] by (auto simp: yields_def)
  then have h: "qf_held ops mem written (qf_buf_index f) f (concat (map (put_bytes mem) es))" by (simp add: qf_wrote_def)
  from f(1) h qemu_fflush_held [OF h] show ?thesis by (simp add: qemu_ftell_def qf_held_def)
qed

theorem qemu_file_write_stream_witness:
  "\<exists>f. exec_list (put_step ram_sink of_nat) (qemu_fopen_ops []) [PutByte 1, PutAsync 7 2, PutBuffer (replicate 40000 3), PutByte 4] = Some f \<and>
    qf_last_error f = 0 \<and>
    qf_opaque (qemu_fflush ram_sink of_nat f) = [1, 7, 8] @ replicate 40000 3 @ [4] \<and>
    fst (qemu_ftell ram_sink of_nat f) = 40004"
  using qemu_file_write_stream [OF ram_lawful(1), of "[]" of_nat "[PutByte 1, PutAsync 7 2, PutBuffer (replicate 40000 3), PutByte 4]"]
  by simp

text \<open>
  C14: What is read is what the backend has: as long as the stream is not at its end, every mixture of single bytes and
  buffers of any length returns consecutive pieces of exactly the lengths asked for, whatever sizes the backend delivers,
  and no error is set.
\<close>

theorem qemu_file_read_stream:
  assumes "source_lawful ops avail" "sum_list (map get_len es) \<le> length (avail w)"
  shows "\<exists>outs f. io_run (get_step ops) (qemu_fopen_ops w) es = Some (outs, f) \<and> qf_last_error f = 0 \<and>
    concat outs = take (sum_list (map get_len es)) (avail w) \<and> map length outs = map get_len es"
  using get_run_rest [OF qemu_fopen_rest [OF assms(1)] assms(2)] by (auto simp: yields_def qf_rest_def)

theorem qemu_file_read_stream_witness:
  "\<exists>outs f. io_run (get_step ram_source) (qemu_fopen_ops [1, 2, 3, 4, 5, 6, 7]) [GetByte, GetBuffer 5] = Some (outs, f) \<and>
    qf_last_error f = 0 \<and> concat outs = [1, 2, 3, 4, 5, 6] \<and> map length outs = [1, 5]"
  using qemu_file_read_stream [OF ram_lawful(2), of "[GetByte, GetBuffer 5]" "[1, 2, 3, 4, 5, 6, 7]"] by simp

end
