(* ===== verification/SsiSd.thy ===== *)
theory SsiSd
  imports SdCardRun QemuStream
begin

text \<open>
  The SPI front end of the SD card, \<^verbatim>\<open>hw/sd/ssi-sd.c\<close>: one byte per transfer, in which commands, responses and data
  blocks of the card of theory \<open>SdCard\<close> are framed, and its save and load functions.

  The C fields of type \<open>int\<close> and the mode are 32 bit words, read as signed numbers where the code compares or indexes
  with them; this is what the save stream carries. The uninitialised \<open>crc\<close> of a request, which the card ignores, is 0.
\<close>

abbreviation SSI_SD_CMD :: u32 where "SSI_SD_CMD \<equiv> 0"
abbreviation SSI_SD_CMDARG :: u32 where "SSI_SD_CMDARG \<equiv> 1"
abbreviation SSI_SD_RESPONSE :: u32 where "SSI_SD_RESPONSE \<equiv> 2"
abbreviation SSI_SD_DATA_START :: u32 where "SSI_SD_DATA_START \<equiv> 3"
abbreviation SSI_SD_DATA_READ :: u32 where "SSI_SD_DATA_READ \<equiv> 4"

record 'b ssi_sd_state =
  ss_cs :: bool
  ss_mode :: u32
  ss_cmd :: u32
  ss_cmdarg :: "u8 list"
  ss_response :: "u8 list"
  ss_arglen :: u32
  ss_response_pos :: u32
  ss_stopping :: u32
  ss_sd :: "'b SDState"

definition ssi_sd_arg :: "u8 list \<Rightarrow> u32" where
  "ssi_sd_arg a = push_bit 24 (ucast (a ! 0)) OR push_bit 16 (ucast (a ! 1)) OR push_bit 8 (ucast (a ! 2)) OR ucast (a ! 3)"

text \<open>The SPI status word of a card status.\<close>

definition ssi_sd_status :: "u32 \<Rightarrow> u16" where
  "ssi_sd_status cs =
    (let st = or_if (drop_bit 9 cs AND 0xf < 4) 0x0100 0;
         st = or_if (cs AND ERASE_RESET \<noteq> 0) 0x0200 st;
         st = or_if (cs AND ILLEGAL_COMMAND \<noteq> 0) 0x0400 st;
         st = or_if (cs AND COM_CRC_ERROR \<noteq> 0) 0x0800 st;
         st = or_if (cs AND ERASE_SEQ_ERROR \<noteq> 0) 0x1000 st;
         st = or_if (cs AND ADDRESS_ERROR \<noteq> 0) 0x2000 st;
         st = or_if (cs AND CARD_IS_LOCKED \<noteq> 0) 0x0001 st;
         st = or_if (cs AND (LOCK_UNLOCK_FAILED OR WP_ERASE_SKIP) \<noteq> 0) 0x0002 st;
         st = or_if (cs AND SD_ERROR \<noteq> 0) 0x0004 st;
         st = or_if (cs AND CC_ERROR \<noteq> 0) 0x0008 st;
         st = or_if (cs AND CARD_ECC_FAILED \<noteq> 0) 0x0010 st;
         st = or_if (cs AND WP_VIOLATION \<noteq> 0) 0x0020 st;
         st = or_if (cs AND ERASE_PARAM \<noteq> 0) 0x0040 st;
         st = or_if (cs AND (OUT_OF_RANGE OR CID_CSD_OVERWRITE) \<noteq> 0) 0x0080 st
     in or_if (st AND 0xff \<noteq> 0) 0x4000 st)"

text \<open>The sixth byte of a command: the card executes it, and the response is put together.\<close>

definition ssi_sd_execute :: "'b bdrv_ops \<Rightarrow> 'b ssi_sd_state \<Rightarrow> 'b ssi_sd_state option" where
  "ssi_sd_execute B s =
    do { (rsp, sd) \<leftarrow> sd_do_command B (ss_sd s)
           \<lparr>rq_cmd = ucast (ss_cmd s), rq_arg = ssi_sd_arg (ss_cmdarg s), rq_crc = 0\<rparr>;
         let s = s\<lparr>ss_sd := sd\<rparr>;
         s \<leftarrow> (if rsp = [] then
                 do { r \<leftarrow> set_opt (ss_response s) 0 4; Some (s\<lparr>ss_arglen := 1, ss_response := r\<rparr>) }
               else if ss_cmd s = 58 then
                 do { r \<leftarrow> set_opt (ss_response s) 0 1;
                      r \<leftarrow> memcpy r 1 rsp 0 4;
                      Some (s\<lparr>ss_arglen := 5, ss_response := r\<rparr>) }
               else if length rsp \<noteq> 4 then
                 do { r \<leftarrow> set_opt (ss_response s) 0 4; Some (s\<lparr>ss_arglen := 1, ss_response := r\<rparr>) }
               else let st = ssi_sd_status (ssi_sd_arg rsp) in
                 do { r \<leftarrow> set_opt (ss_response s) 0 (ucast (drop_bit 8 st));
                      r \<leftarrow> set_opt r 1 (ucast st);
                      Some (s\<lparr>ss_arglen := (if ss_cmd s = 13 then 2 else 1), ss_response := r\<rparr>) });
         Some (s\<lparr>ss_mode := SSI_SD_RESPONSE, ss_response_pos := 0\<rparr>) }"

definition ssi_sd_transfer :: "'b bdrv_ops \<Rightarrow> 'b ssi_sd_state \<Rightarrow> u32 \<Rightarrow> (u32 \<times> 'b ssi_sd_state) option" where
  "ssi_sd_transfer B s val =
    (let s = (if ss_mode s = SSI_SD_DATA_READ \<and> val = 0x4d then s\<lparr>ss_mode := SSI_SD_CMD, ss_stopping := 1\<rparr> else s) in
     if ss_mode s = SSI_SD_CMD then
       if val = 0xff then Some (0xff, s)
       else Some (0xff, s\<lparr>ss_cmd := val AND 0x3f, ss_mode := SSI_SD_CMDARG, ss_arglen := 0\<rparr>)
     else if ss_mode s = SSI_SD_CMDARG then
       if ss_arglen s = 4 then map_option (\<lambda>s. (0xff, s)) (ssi_sd_execute B s)
       else do { a \<leftarrow> arr_set (ss_cmdarg s) (sint (ss_arglen s)) (ucast val);
                 Some (0xff, s\<lparr>ss_cmdarg := a, ss_arglen := ss_arglen s + 1\<rparr>) }
     else if ss_mode s = SSI_SD_RESPONSE then
       if ss_stopping s \<noteq> 0 then Some (0xff, s\<lparr>ss_stopping := 0\<rparr>)
       else if sint (ss_response_pos s) < sint (ss_arglen s) then
         do { r \<leftarrow> arr_get (ss_response s) (sint (ss_response_pos s));
              Some (ucast r, s\<lparr>ss_response_pos := ss_response_pos s + 1\<rparr>) }
       else Some (0xff, s\<lparr>ss_mode := (if sd_data_ready (ss_sd s) then SSI_SD_DATA_START else SSI_SD_CMD)\<rparr>)
     else if ss_mode s = SSI_SD_DATA_START then Some (0xfe, s\<lparr>ss_mode := SSI_SD_DATA_READ\<rparr>)
     else if ss_mode s = SSI_SD_DATA_READ then
       do { (v, sd) \<leftarrow> sd_read_data B (ss_sd s);
            let s = s\<lparr>ss_sd := sd\<rparr>;
            Some (ucast v, if sd_data_ready sd then s else s\<lparr>ss_mode := SSI_SD_CMD\<rparr>) }
     else Some (0xff, s))"

definition ssi_sd_save :: "'w QEMUFileOps \<Rightarrow> (nat \<Rightarrow> u8) \<Rightarrow> 'w QEMUFile \<Rightarrow> 'b ssi_sd_state \<Rightarrow> 'w QEMUFile option" where
  "ssi_sd_save ops mem f s =
    do { f \<leftarrow> qemu_put_be32 ops mem f (ss_mode s);
         f \<leftarrow> qemu_put_be32 ops mem f (ss_cmd s);
         f \<leftarrow> exec_list (put_u8 ops mem) f (ss_cmdarg s);
         f \<leftarrow> exec_list (put_u8 ops mem) f (ss_response s);
         f \<leftarrow> qemu_put_be32 ops mem f (ss_arglen s);
         f \<leftarrow> qemu_put_be32 ops mem f (ss_response_pos s);
         f \<leftarrow> qemu_put_be32 ops mem f (ss_stopping s);
         put_bool ops mem f (ss_cs s) }"

definition ssi_sd_load :: "'r QEMUFileOps \<Rightarrow> 'r QEMUFile \<Rightarrow> 'b ssi_sd_state \<Rightarrow> int \<Rightarrow> (int \<times> 'b ssi_sd_state \<times> 'r QEMUFile) option" where
  "ssi_sd_load ops f s version_id =
    (if version_id \<noteq> 1 then Some (- EINVAL, s, f)
     else do { (mode, f) \<leftarrow> qemu_get_be32 ops f;
               (cmd, f) \<leftarrow> qemu_get_be32 ops f;
               (cmdarg, f) \<leftarrow> get_array (get_u8 ops) f 4;
               (response, f) \<leftarrow> get_array (get_u8 ops) f 5;
               (arglen, f) \<leftarrow> qemu_get_be32 ops f;
               (pos, f) \<leftarrow> qemu_get_be32 ops f;
               (stopping, f) \<leftarrow> qemu_get_be32 ops f;
               (cs, f) \<leftarrow> get_bool ops f;
               Some (0, s\<lparr>ss_mode := mode, ss_cmd := cmd, ss_cmdarg := cmdarg, ss_response := response, ss_arglen := arglen,
                          ss_response_pos := pos, ss_stopping := stopping, ss_cs := cs\<rparr>, f) })"

definition ssi_sd_init :: "'b bdrv_ops \<Rightarrow> 'b option \<Rightarrow> 'b ssi_sd_state" where
  "ssi_sd_init B bs = \<lparr>ss_cs = False, ss_mode = SSI_SD_CMD, ss_cmd = 0, ss_cmdarg = replicate 4 0, ss_response = replicate 5 0,
     ss_arglen = 0, ss_response_pos = 0, ss_stopping = 0, ss_sd = sd_init B bs True\<rparr>"

subsection \<open>Transfers stay within the arrays\<close>

definition ssi_sd_inv :: "'b ssi_sd_state \<Rightarrow> bool" where
  "ssi_sd_inv s \<longleftrightarrow> length (ss_cmdarg s) = 4 \<and> length (ss_response s) = 5 \<and> ss_cmd s < 64 \<and> sd_inv (ss_sd s) \<and>
     (ss_mode s = SSI_SD_CMDARG \<longrightarrow> ss_arglen s \<le> 4) \<and>
     (ss_mode s = SSI_SD_RESPONSE \<longrightarrow> ss_arglen s \<le> 5 \<and> ss_response_pos s \<le> ss_arglen s)"

text \<open>The state may take any byte, unless that byte completes one of the commands the card cannot execute safely.\<close>

definition ssi_sd_ok :: "'b ssi_sd_state \<Rightarrow> bool" where
  "ssi_sd_ok s \<longleftrightarrow> (ss_mode s = SSI_SD_CMDARG \<and> ss_arglen s = 4 \<longrightarrow>
     sd_request_ok (ss_sd s) \<lparr>rq_cmd = ucast (ss_cmd s), rq_arg = ssi_sd_arg (ss_cmdarg s), rq_crc = 0\<rparr>)"

lemma sint_small:
  assumes "(x::u32) \<le> 5"
  shows "sint x = int (unat x)" "unat x \<le> 5"
proof -
  show u: "unat x \<le> 5" using assms by (simp add: word_le_nat_alt)
  then have "int (unat x) \<le> int 5" by (simp only: of_nat_le_iff)
  then have "uint x \<le> 5" by simp
  then have "uint x < 2 ^ 31" by simp
  moreover have "- (2 ^ 31) \<le> uint x" by (rule order_trans [of _ 0]) simp_all
  ultimately have "signed_take_bit 31 (uint x) = uint x" by (simp only: signed_take_bit_int_eq_self)
  then show "sint x = int (unat x)" by (simp add: sint_uint)
qed

lemma ssi_sd_execute_ok:
  assumes "ssi_sd_inv s" "bdrv_bounded B"
    and "sd_request_ok (ss_sd s) \<lparr>rq_cmd = ucast (ss_cmd s), rq_arg = ssi_sd_arg (ss_cmdarg s), rq_crc = 0\<rparr>"
  shows "yields (ssi_sd_execute B s) ssi_sd_inv"
proof -
  have "sd_inv (ss_sd s)" using assms(1) by (simp add: ssi_sd_inv_def)
  note c = sd_do_command_ok [OF this assms(2,3)]
  show ?thesis
    unfolding ssi_sd_execute_def yields_bind
    by (rule yields_mono [OF c]) (use assms(1) in \<open>auto simp: ssi_sd_inv_def sd_reply_def memcpy_def Let_def case_prod_beta\<close>)
qed

lemma ssi_sd_read_ok:
  assumes "ssi_sd_inv s" "bdrv_bounded B"
  shows "yields (do { (v, sd) \<leftarrow> sd_read_data B (ss_sd s);
      Some (ucast v :: u32, if sd_data_ready sd then s\<lparr>ss_sd := sd\<rparr> else s\<lparr>ss_sd := sd, ss_mode := SSI_SD_CMD\<rparr>) })
    (\<lambda>rt. ssi_sd_inv (snd rt))"
proof -
  have "yields (sd_read_data B (ss_sd s)) (\<lambda>r. sd_inv (snd r))"
    using assms by (intro sd_read_data_ok) (auto simp: ssi_sd_inv_def)
  then show ?thesis
    unfolding yields_bind by (rule yields_mono) (use assms(1) in \<open>auto simp: ssi_sd_inv_def\<close>)
qed

lemma ssi_sd_arg_step:
  assumes "ssi_sd_inv s" "ss_mode s = SSI_SD_CMDARG" "ss_arglen s \<noteq> 4"
  shows "yields (arr_set (ss_cmdarg s) (sint (ss_arglen s)) v)
    (\<lambda>a. ssi_sd_inv (s\<lparr>ss_cmdarg := a, ss_arglen := ss_arglen s + 1\<rparr>))"
proof -
  have l: "ss_arglen s \<le> 4" using assms by (simp add: ssi_sd_inv_def)
  then have "ss_arglen s < 4" using assms(3) by simp
  then have u: "unat (ss_arglen s) < 4" by (simp add: word_less_nat_alt)
  then have "ss_arglen s + 1 \<le> 4" by (simp add: word_le_nat_alt unat_word_add)
  moreover have i: "sint (ss_arglen s) = int (unat (ss_arglen s))" using l by (intro sint_small(1)) (auto simp: word_le_nat_alt)
  moreover have "unat (ss_arglen s) < length (ss_cmdarg s)" using u assms(1) by (simp add: ssi_sd_inv_def)
  ultimately show ?thesis using assms(1,2) unfolding i arr_set_nat [OF \<open>unat (ss_arglen s) < length (ss_cmdarg s)\<close>]
    by (simp add: ssi_sd_inv_def)
qed

lemma ssi_sd_response_step:
  assumes "ssi_sd_inv s" "ss_mode s = SSI_SD_RESPONSE" "sint (ss_response_pos s) < sint (ss_arglen s)"
  shows "yields (arr_get (ss_response s) (sint (ss_response_pos s)))
    (\<lambda>_. ssi_sd_inv (s\<lparr>ss_response_pos := ss_response_pos s + 1\<rparr>))"
proof -
  have i: "ss_arglen s \<le> 5" "ss_response_pos s \<le> ss_arglen s" "length (ss_response s) = 5"
    using assms(1,2) by (simp_all add: ssi_sd_inv_def)
  note a = sint_small [OF i(1)] and p = sint_small [OF order_trans [OF i(2,1)]]
  have l: "unat (ss_response_pos s) < unat (ss_arglen s)" using assms(3) unfolding a(1) p(1) by (simp only: of_nat_less_iff)
  then have "ss_response_pos s + 1 \<le> ss_arglen s" using a(2) by (simp add: word_le_nat_alt unat_word_add)
  moreover have "unat (ss_response_pos s) < length (ss_response s)" using l a(2) i(3) by simp
  ultimately show ?thesis using assms(1,2) unfolding p(1) arr_get_nat [OF \<open>unat (ss_response_pos s) < length (ss_response s)\<close>]
    by (simp add: ssi_sd_inv_def)
qed

lemma ssi_sd_transfer_cs: "ssi_sd_transfer B s v = Some (r, t) \<Longrightarrow> ss_cs t = ss_cs s"
  by (auto simp: ssi_sd_transfer_def ssi_sd_execute_def Let_def split: if_splits bind_splits)

lemma ssi_sd_transfer_ok:
  assumes "ssi_sd_inv s" "bdrv_bounded B" "ssi_sd_ok s"
  shows "yields (ssi_sd_transfer B s val) (\<lambda>rt. ssi_sd_inv (snd rt))"
proof -
  define u where "u = (if ss_mode s = SSI_SD_DATA_READ \<and> val = 0x4d then s\<lparr>ss_mode := SSI_SD_CMD, ss_stopping := 1\<rparr> else s)"
  have u: "ssi_sd_inv u" "ssi_sd_ok u" using assms(1,3) by (simp_all add: u_def ssi_sd_inv_def ssi_sd_ok_def)
  have lt: "val AND 0x3f < 64" by (rule le_less_trans [OF word_and_le1]) simp
  have misc: "ssi_sd_inv (u\<lparr>ss_cmd := val AND 0x3f, ss_mode := SSI_SD_CMDARG, ss_arglen := 0\<rparr>)"
    "ssi_sd_inv (u\<lparr>ss_stopping := 0\<rparr>)" "ssi_sd_inv (u\<lparr>ss_mode := SSI_SD_DATA_READ\<rparr>)"
    "ssi_sd_inv (u\<lparr>ss_mode := (if c then SSI_SD_DATA_START else SSI_SD_CMD)\<rparr>)" for c
    using u(1) lt by (simp_all add: ssi_sd_inv_def)
  show ?thesis
    unfolding ssi_sd_transfer_def u_def [symmetric] Let_def
    apply (intro yields_if)
    subgoal using u(1) by simp
    subgoal using misc(1) by simp
    subgoal using ssi_sd_execute_ok [OF u(1) assms(2)] u(2) by (simp add: ssi_sd_ok_def)
    subgoal using ssi_sd_arg_step [OF u(1)] by simp
    subgoal using misc(2) by simp
    subgoal using ssi_sd_response_step [OF u(1)] by simp
    subgoal using misc(4) by simp
    subgoal using misc(3) by simp
    subgoal using ssi_sd_read_ok [OF u(1) assms(2)] by simp
    subgoal using u(1) by simp
    done
qed

lemma ssi_sd_init_inv: "bdrv_bounded B \<Longrightarrow> ssi_sd_inv (ssi_sd_init B bs)"
  by (simp add: ssi_sd_init_def ssi_sd_inv_def sd_init_ok)

subsection \<open>The framing of a command\<close>

text \<open>The six bytes of a command: its index, the argument with the high byte first, and a checksum.\<close>

definition ssi_sd_frame :: "u8 \<Rightarrow> u32 \<Rightarrow> u8 \<Rightarrow> u32 list" where
  "ssi_sd_frame c arg crc =
    [0x40 OR ucast c, ucast (ucast (drop_bit 24 arg) :: u8), ucast (ucast (drop_bit 16 arg) :: u8),
     ucast (ucast (drop_bit 8 arg) :: u8), ucast (ucast arg :: u8), ucast crc]"

definition ssi_sd_bytes :: "u32 \<Rightarrow> u8 list" where
  "ssi_sd_bytes arg = [ucast (drop_bit 24 arg), ucast (drop_bit 16 arg), ucast (drop_bit 8 arg), ucast arg]"

lemma ssi_sd_arg_bytes: "ssi_sd_arg (ssi_sd_bytes arg) = arg"
  using bytes_be32 [of arg] by (simp add: ssi_sd_arg_def ssi_sd_bytes_def)

lemma ssi_sd_frame_index:
  assumes "(c :: u8) < 64"
  shows "(0x40 OR ucast c) AND 0x3f = (ucast c :: u32)" "0x40 OR ucast c \<noteq> (0xff :: u32)"
proof -
  have "take_bit 6 c = c" using assms by (simp add: word_unat_eq_iff take_bit_eq_mod unat_mod word_less_nat_alt)
  then have m: "c AND 0x3f = c" by (simp add: take_bit_eq_mask mask_eq_decr_exp)
  have "(0x40 OR ucast c) AND 0x3f = (ucast (c AND 0x3f) :: u32)" by (simp add: bit.conj_disj_distrib2 unsigned_and_eq)
  then show "(0x40 OR ucast c) AND 0x3f = (ucast c :: u32)" using m by simp
  show "0x40 OR ucast c \<noteq> (0xff :: u32)"
  proof
    assume "0x40 OR ucast c = (0xff :: u32)"
    then have "bit (0x40 OR ucast c :: u32) 7" by simp
    then have "bit c 7" by (simp add: bit_simps)
    then have "bit (c AND 0x3f) 7" using m by simp
    then show False by (simp add: bit_simps)
  qed
qed

text \<open>One transfer in each mode.\<close>

lemma ssi_sd_transfer_cmd:
  "ss_mode s = SSI_SD_CMD \<Longrightarrow> v \<noteq> 0xff \<Longrightarrow>
   ssi_sd_transfer B s v = Some (0xff, s\<lparr>ss_cmd := v AND 0x3f, ss_mode := SSI_SD_CMDARG, ss_arglen := 0\<rparr>)"
  by (simp add: ssi_sd_transfer_def)

lemma ssi_sd_transfer_arg:
  assumes "ss_mode s = SSI_SD_CMDARG" "ss_arglen s = a" "a < 4" "length (ss_cmdarg s) = 4"
  shows "ssi_sd_transfer B s v = Some (0xff, s\<lparr>ss_cmdarg := (ss_cmdarg s)[unat a := ucast v], ss_arglen := a + 1\<rparr>)"
proof -
  have u: "unat a < length (ss_cmdarg s)" using assms(3,4) by (simp add: word_less_nat_alt)
  have i: "sint a = int (unat a)" using assms(3) by (intro sint_small(1)) (simp add: word_le_nat_alt word_less_nat_alt)
  have t: "ssi_sd_transfer B s v = do { x \<leftarrow> arr_set (ss_cmdarg s) (sint a) (ucast v); Some (0xff, s\<lparr>ss_cmdarg := x, ss_arglen := a + 1\<rparr>) }"
    using assms(1-3) by (simp add: ssi_sd_transfer_def) (auto simp: word_less_nat_alt)
  show ?thesis unfolding t i arr_set_nat [OF u] by simp
qed

lemma ssi_sd_transfer_execute:
  "ss_mode s = SSI_SD_CMDARG \<Longrightarrow> ss_arglen s = 4 \<Longrightarrow> ssi_sd_transfer B s v = map_option (Pair 0xff) (ssi_sd_execute B s)"
  by (simp add: ssi_sd_transfer_def)

lemma ssi_sd_frame_run:
  assumes "ss_mode s = SSI_SD_CMD" "length (ss_cmdarg s) = 4" "c < 64"
  shows "io_run (ssi_sd_transfer B) s (ssi_sd_frame c arg crc) =
    map_option (Pair (replicate 6 0xff))
      (ssi_sd_execute B (s\<lparr>ss_cmd := ucast c, ss_mode := SSI_SD_CMDARG, ss_cmdarg := ssi_sd_bytes arg, ss_arglen := 4\<rparr>))"
proof -
  have r: "replicate 6 x = [x, x, x, x, x, x]" for x :: u32 by (simp add: numeral_eq_Suc)
  obtain a0 a1 a2 a3 where a: "ss_cmdarg s = [a0, a1, a2, a3]"
    using assms(2) by (auto simp: numeral_eq_Suc length_Suc_conv)
  show ?thesis
    using assms(1) ssi_sd_frame_index [OF assms(3)]
    by (simp add: ssi_sd_frame_def ssi_sd_transfer_cmd ssi_sd_transfer_arg ssi_sd_transfer_execute a ssi_sd_bytes_def ucast_u8_u32
      r map_option_case split: option.split)
qed

subsection \<open>A block read over the bus\<close>

lemma ssi_sd_execute_17:
  assumes "ssi_sd_inv s" "bdrv_bounded B" "sd_ready B (ss_sd s)" "ss_cmd s = 17"
  shows "yields (ssi_sd_execute B s) (\<lambda>u. sd_started 17 sd_sendingdata_state (ucast (ssi_sd_arg (ss_cmdarg s))) (ss_sd s) (ss_sd u) \<and>
    length (ss_response u) = 5 \<and> ss_arglen u = 1 \<and> ss_mode u = SSI_SD_RESPONSE \<and> ss_response_pos u = 0 \<and> ss_stopping u = ss_stopping s \<and> ss_cs u = ss_cs s)"
proof -
  have "length (ss_response s) = 5" using assms(1) by (simp add: ssi_sd_inv_def)
  then show ?thesis
    unfolding ssi_sd_execute_def yields_bind assms(4)
    by (simp, intro yields_mono [OF sd_cmd17 [OF assms(3)]]) (auto simp: Let_def assms(4))
qed

lemma ssi_sd_response_run:
  assumes "ss_mode s = SSI_SD_RESPONSE" "ss_response_pos s = 0" "ss_arglen s = 1" "ss_stopping s = 0" "ss_response s = r # rs"
    and "sd_data_ready (ss_sd s)"
  shows "io_run (ssi_sd_transfer B) s [0xff, 0xff, 0xff] =
    Some ([ucast r, 0xff, 0xfe], s\<lparr>ss_response_pos := 1, ss_mode := SSI_SD_DATA_READ\<rparr>)"
  using assms by (simp add: ssi_sd_transfer_def arr_get_def)

lemma ssi_sd_data_run:
  assumes "ss_mode s = SSI_SD_DATA_READ" "sd_read_bytes B (ss_sd s) n = Some (vs, u)"
    and "\<And>k us w. 0 < k \<Longrightarrow> k < n \<Longrightarrow> sd_read_bytes B (ss_sd s) k = Some (us, w) \<Longrightarrow> sd_data_ready w"
  shows "io_run (ssi_sd_transfer B) s (replicate n 0xff) =
    Some (map ucast vs, s\<lparr>ss_sd := u, ss_mode := (if n = 0 \<or> sd_data_ready u then SSI_SD_DATA_READ else SSI_SD_CMD)\<rparr>)"
  using assms
proof (induction n arbitrary: s vs)
  case 0
  then show ?case by simp
next
  case (Suc n)
  from Suc.prems(2) obtain v t us where t: "sd_read_data B (ss_sd s) = Some (v, t)" "sd_read_bytes B t n = Some (us, u)" "vs = v # us"
    by (auto split: bind_splits)
  let ?s = "s\<lparr>ss_sd := t\<rparr>"
  have x: "ssi_sd_transfer B s 0xff = Some (ucast v, if sd_data_ready t then ?s else ?s\<lparr>ss_mode := SSI_SD_CMD\<rparr>)"
    using Suc.prems(1) t(1) by (simp add: ssi_sd_transfer_def)
  show ?case
  proof (cases n)
    case 0
    then show ?thesis using t x Suc.prems(1) by simp
  next
    case (Suc m)
    then have d: "sd_data_ready t" using Suc.prems(3) [of 1] t(1) by simp
    have "sd_data_ready w" if "0 < k" "k < n" "sd_read_bytes B t k = Some (us', w)" for k us' w
      using Suc.prems(3) [of "Suc k" "v # us'" w] that t(1) by simp
    from Suc.IH [of ?s us] this t(2) Suc.prems(1) Suc have
      "io_run (ssi_sd_transfer B) ?s (replicate n 0xff) =
        Some (map ucast us, s\<lparr>ss_sd := u, ss_mode := (if sd_data_ready u then SSI_SD_DATA_READ else SSI_SD_CMD)\<rparr>)" by simp
    then show ?thesis using x d t(3) by simp
  qed
qed

text \<open>
  On a card in the transfer state, the six bytes of \<open>CMD17\<close> followed by null bytes are answered with the response byte, the
  idle byte, the start token \<open>0xfe\<close> and then the bytes of the medium from the given address on, for the block length.
\<close>

lemma ssi_sd_block_run:
  assumes "bdrv_lawful B V n" "V b" "ssi_sd_inv s" "ss_mode s = SSI_SD_CMD" "ss_stopping s = 0"
    and "sd_bdrv (ss_sd s) = Some b" "sd_ready B (ss_sd s)" "unat arg + unat (sd_blk_len (ss_sd s)) \<le> 512 * n"
  shows "\<exists>r t. io_run (ssi_sd_transfer B) s (ssi_sd_frame 17 arg crc @ replicate (3 + unat (sd_blk_len (ss_sd s))) 0xff) =
      Some (replicate 6 0xff @ [r, 0xff, 0xfe] @ map (\<lambda>i. ucast (medium_byte B b (unat arg + i))) [0..<unat (sd_blk_len (ss_sd s))], t) \<and>
      ss_mode t = SSI_SD_CMD \<and> ss_cs t = ss_cs s \<and> sd_state (ss_sd t) = sd_transfer_state"
proof -
  let ?n = "unat (sd_blk_len (ss_sd s))" and ?x = "ssi_sd_transfer B"
  let ?s = "s\<lparr>ss_cmd := 17, ss_mode := SSI_SD_CMDARG, ss_cmdarg := ssi_sd_bytes arg, ss_arglen := 4\<rparr>"
  have bd: "bdrv_bounded B" using assms(1) by (simp add: bdrv_lawful_def)
  have "ssi_sd_inv ?s" using assms(3) by (simp add: ssi_sd_inv_def ssi_sd_bytes_def)
  from ssi_sd_execute_17 [OF this bd] assms(7) obtain u where u: "ssi_sd_execute B ?s = Some u"
    "sd_started 17 sd_sendingdata_state (ucast arg) (ss_sd s) (ss_sd u)" "length (ss_response u) = 5" "ss_arglen u = 1"
    "ss_mode u = SSI_SD_RESPONSE" "ss_response_pos u = 0" "ss_stopping u = 0" "ss_cs u = ss_cs s"
    using assms(5) by (auto simp: yields_def ssi_sd_arg_bytes)
  have frame: "io_run ?x s (ssi_sd_frame 17 arg crc) = Some (replicate 6 0xff, u)"
    using ssi_sd_frame_run [OF assms(4), of 17] u(1) assms(3) by (simp add: ssi_sd_inv_def)
  obtain r rs where r: "ss_response u = r # rs" using u(3) by (cases "ss_response u") auto
  have "sd_data_ready (ss_sd u)" using sd_started_keeps(1) [OF u(2) assms(7)] by (simp add: sd_active_def sd_data_ready_def)
  note resp = ssi_sd_response_run [OF u(5,6,4,7) r this, of B]
  let ?u = "u\<lparr>ss_response_pos := 1, ss_mode := SSI_SD_DATA_READ\<rparr>"
  note prog = sd_read_progress [OF assms(1,2,6-8) u(2)]
  have n: "0 < ?n" using assms(7) by (simp add: sd_ready_def)
  from prog [OF this order.refl] obtain vs w where w: "sd_read_bytes B (ss_sd ?u) ?n = Some (vs, w)"
    "vs = map (\<lambda>i. medium_byte B b (unat arg + i)) [0..<?n]" "sd_state w = sd_transfer_state"
    by (auto simp: yields_def)
  have "sd_data_ready w'" if "0 < k" "k < ?n" "sd_read_bytes B (ss_sd ?u) k = Some (us, w')" for k us w'
    using prog [OF that(1)] that(2,3) by (simp add: sd_data_ready_def)
  from ssi_sd_data_run [OF _ w(1) this] n w(3) have
    data: "io_run ?x ?u (replicate ?n 0xff) = Some (map ucast vs, ?u\<lparr>ss_sd := w, ss_mode := SSI_SD_CMD\<rparr>)" by (simp add: sd_data_ready_def)
  have e: "replicate (3 + ?n) 0xff = [0xff, 0xff, 0xff] @ replicate ?n (0xff :: u32)" by (simp add: numeral_eq_Suc)
  show ?thesis
    unfolding e io_run_append frame resp data Option.bind.bind_lunit prod.case using w(2,3) u(8) by (simp add: comp_def)
qed

text \<open>A card on the bus, after \<open>CMD1\<close>.\<close>

definition sd_spi_up :: "u8 list list SDState" where
  "sd_spi_up = (case exec_list (sd_event_step ram_ops) (sd_init ram_ops (Some (replicate 2 (replicate 512 0))) True) [sd_cmd 1 0] of
     None \<Rightarrow> sd_zero | Some t \<Rightarrow> t)"

definition ssi_sd_up :: "u8 list list ssi_sd_state" where
  "ssi_sd_up = (ssi_sd_init ram_ops None)\<lparr>ss_sd := sd_spi_up\<rparr>"

lemma sd_spi_up_run:
  "yields (exec_list (sd_event_step ram_ops) (sd_init ram_ops (Some (replicate 2 (replicate 512 0))) True) [sd_cmd 1 0])
    (\<lambda>t. sd_bdrv t = Some (replicate 2 (replicate 512 0)) \<and> sd_enable t \<and>
     sd_state t = sd_transfer_state \<and> \<not> sd_expecting_acmd t \<and> \<not> bit (sd_card_status t) 25 \<and> \<not> bit (sd_ocr t) 30 \<and>
     sd_blk_len t = 512)"
  by (simp add: sd_eval)

lemma sd_spi_up_facts:
  "sd_bdrv sd_spi_up = Some (replicate 2 (replicate 512 0))" "sd_blk_len sd_spi_up = 512" "sd_ready ram_ops sd_spi_up"
proof -
  let ?i = "sd_init ram_ops (Some (replicate 2 (replicate 512 0))) True"
  have "bdrv_bounded ram_ops \<and> sd_inv ?i" using ram_ops_bounded sd_init_ok by blast
  moreover have "guarded (sd_event_step ram_ops) sd_event_ok ?i [sd_cmd 1 0]" by (simp add: sd_cmd_def sd_request_ok_def split: option.split)
  ultimately have "sd_inv sd_spi_up" using sdm.run_ok [of ram_ops ?i "[sd_cmd 1 0]"] by (auto simp: sd_spi_up_def)
  then show "sd_bdrv sd_spi_up = Some (replicate 2 (replicate 512 0))" "sd_blk_len sd_spi_up = 512" "sd_ready ram_ops sd_spi_up"
    using sd_spi_up_run by (auto simp: yields_def sd_spi_up_def sd_ready_def sd_present_def sd_ram_inserted)
qed

subsection \<open>Migration\<close>

definition ssi_sd_image :: "'b ssi_sd_state \<Rightarrow> u8 list" where
  "ssi_sd_image s = enc32 (ss_mode s) @ enc32 (ss_cmd s) @ concat (map (\<lambda>v. enc32 (ucast v)) (ss_cmdarg s)) @
     concat (map (\<lambda>v. enc32 (ucast v)) (ss_response s)) @ enc32 (ss_arglen s) @ enc32 (ss_response_pos s) @
     enc32 (ss_stopping s) @ enc32 (if ss_cs s then 1 else 0)"

lemma ssi_sd_save_image:
  assumes "qf_wrote ops mem written f bs"
  shows "yields (ssi_sd_save ops mem f s) (\<lambda>g. qf_wrote ops mem written g (bs @ ssi_sd_image s))"
  unfolding ssi_sd_save_def ssi_sd_image_def append_assoc [symmetric]
  by (rule be32.put_bind [OF assms], rule be32.put_bind, assumption, rule byte32.array_put_bind, assumption,
      rule byte32.array_put_bind, assumption, (rule be32.put_bind, assumption)+, rule bool32.put_enc)

lemma ssi_sd_load_image:
  assumes "qf_rest ops avail f (ssi_sd_image s @ bs)" "length (ss_cmdarg s) = 4" "length (ss_response s) = 5"
  shows "yields (ssi_sd_load ops f t 1) (\<lambda>(r, u, g). r = 0 \<and> u = s\<lparr>ss_sd := ss_sd t\<rparr> \<and> qf_rest ops avail g bs)"
  using assms(1) unfolding ssi_sd_load_def ssi_sd_image_def append_assoc
  apply (simp only: refl not_True_eq_False if_False)
  apply (rule be32.get_bind, assumption, simp only: prod.case)+
  apply (rule byte32.array_get_bind, assumption, simp only: assms(2), simp only: prod.case)
  apply (rule byte32.array_get_bind, assumption, simp only: assms(3), simp only: prod.case)
  apply (rule be32.get_bind, assumption, simp only: prod.case)+
  apply (rule bool32.get_bind, assumption)
  apply simp
  done


lemma ssi_sd_up_self: "ssi_sd_up\<lparr>ss_sd := ss_sd ssi_sd_up\<rparr> = ssi_sd_up"
  by simp


text \<open>Nothing a stream carries is checked: a stream whose argument counter is 100 loads, and the next byte is stored beyond the array.\<close>

lemma ssi_sd_load_unchecked:
  fixes s :: "u8 list list ssi_sd_state"
  assumes "qf_rest ops avail f (ssi_sd_image (ssi_sd_up\<lparr>ss_mode := SSI_SD_CMDARG, ss_arglen := 100\<rparr>))"
  shows "yields (ssi_sd_load ops f s 1) (\<lambda>(r, t, g). r = 0 \<and> ssi_sd_transfer B t v = None)"
  using ssi_sd_load_image [of ops avail f "ssi_sd_up\<lparr>ss_mode := SSI_SD_CMDARG, ss_arglen := 100\<rparr>" "[]" s] assms
  by (simp add: ssi_sd_up_def ssi_sd_init_def) (erule yields_mono, auto simp: ssi_sd_transfer_def arr_set_def)

end
