(* ===== verification/Ssd0323.thy ===== *)
theory Ssd0323
  imports QemuStream
begin

text \<open>
  The OLED controller \<^verbatim>\<open>hw/display/ssd0323.c\<close> behind the SPI bus: the command and data transfers, the drawing of the
  frame buffer on a surface, and the save and load functions.

  The C fields of type \<open>int\<close> are HOL integers; a transferred word becomes one by \<open>sint\<close>. Accesses to \<open>cmd_data\<close> and
  \<open>framebuffer\<close> are checked, \<open>None\<close> is an access outside them. \<open>c_rem\<close> is the remainder of C, which takes the sign of
  the dividend. The surface is the list of its bytes; the fourth byte of a 32 bit pixel is never initialised in the
  colour table of the code, so its value is the argument \<open>pad\<close>.

  The lemmas show that the row and column counters stay in the frame buffer, that consecutive data bytes fill the
  addressed window row by row, which pixels the drawing loop sets, and that a saved display is restored.
\<close>

abbreviation MAGNIFY :: nat where "MAGNIFY \<equiv> 4"
abbreviation REMAP_VERTICAL :: int where "REMAP_VERTICAL \<equiv> 4"
abbreviation SSD0323_CMD :: int where "SSD0323_CMD \<equiv> 0"
abbreviation SSD0323_DATA :: int where "SSD0323_DATA \<equiv> 1"

record ssd0323_state =
  ssd_cs :: bool
  ssd_cmd_len :: int
  ssd_cmd :: int
  ssd_cmd_data :: "int list"
  ssd_row :: int
  ssd_row_start :: int
  ssd_row_end :: int
  ssd_col :: int
  ssd_col_start :: int
  ssd_col_end :: int
  ssd_redraw :: int
  ssd_remap :: int
  ssd_mode :: int
  ssd_framebuffer :: "u8 list"

definition c_rem :: "int \<Rightarrow> int \<Rightarrow> int" where
  "c_rem a b = (if 0 \<le> a then a mod b else - ((- a) mod b))"

text \<open>The advance of the position after a byte of data.\<close>

definition ssd0323_advance :: "ssd0323_state \<Rightarrow> ssd0323_state" where
  "ssd0323_advance s =
    (if ssd_remap s AND REMAP_VERTICAL \<noteq> 0 then
       let s = s\<lparr>ssd_row := ssd_row s + 1\<rparr>;
           s = (if ssd_row_end s < ssd_row s then s\<lparr>ssd_row := ssd_row_start s, ssd_col := ssd_col s + 1\<rparr> else s)
       in if ssd_col_end s < ssd_col s then s\<lparr>ssd_col := ssd_col_start s\<rparr> else s
     else
       let s = s\<lparr>ssd_col := ssd_col s + 1\<rparr>;
           s = (if ssd_col_end s < ssd_col s then s\<lparr>ssd_row := ssd_row s + 1, ssd_col := ssd_col_start s\<rparr> else s)
       in if ssd_row_end s < ssd_row s then s\<lparr>ssd_row := ssd_row_start s\<rparr> else s)"

text \<open>
  How many bytes of data a command waits for (the argument of the macro \<open>DATA\<close>); \<open>0xff\<close> and unknown commands, which the
  code reports and then ignores, wait for none.
\<close>

definition ssd0323_args :: "int \<Rightarrow> int" where
  "ssd0323_args cmd =
    (if cmd \<in> {0x15, 0x75} then 2
     else if cmd \<in> {0x81, 0xa0, 0xa1, 0xa2, 0xa8, 0xad, 0xb1, 0xb2, 0xb3, 0xbc, 0xbe, 0xbf} then 1
     else if cmd = 0xb8 then 8
     else 0)"

definition ssd0323_command :: "ssd0323_state \<Rightarrow> ssd0323_state option" where
  "ssd0323_command s =
    (if ssd_cmd_len s \<le> ssd0323_args (ssd_cmd s) then Some s
     else do { s \<leftarrow> (if ssd_cmd s = 0x15 then
                      do { a \<leftarrow> arr_get (ssd_cmd_data s) 0; b \<leftarrow> arr_get (ssd_cmd_data s) 1;
                           Some (s\<lparr>ssd_col := c_rem a 64, ssd_col_start := c_rem a 64, ssd_col_end := c_rem b 64\<rparr>) }
                    else if ssd_cmd s = 0x75 then
                      do { a \<leftarrow> arr_get (ssd_cmd_data s) 0; b \<leftarrow> arr_get (ssd_cmd_data s) 1;
                           Some (s\<lparr>ssd_row := c_rem a 80, ssd_row_start := c_rem a 80, ssd_row_end := c_rem b 80\<rparr>) }
                    else if ssd_cmd s = 0xa0 then
                      do { a \<leftarrow> arr_get (ssd_cmd_data s) 0; Some (s\<lparr>ssd_remap := a\<rparr>) }
                    else Some s);
               Some (s\<lparr>ssd_cmd_len := 0\<rparr>) })"

definition ssd0323_transfer :: "ssd0323_state \<Rightarrow> u32 \<Rightarrow> (u32 \<times> ssd0323_state) option" where
  "ssd0323_transfer s data =
    (if ssd_mode s = SSD0323_DATA then
       do { fb \<leftarrow> arr_set (ssd_framebuffer s) (ssd_col s + ssd_row s * 64) (ucast data);
            Some (0, (ssd0323_advance (s\<lparr>ssd_framebuffer := fb\<rparr>))\<lparr>ssd_redraw := 1\<rparr>) }
     else if ssd_mode s = SSD0323_CMD then
       do { s \<leftarrow> (if ssd_cmd_len s = 0 then Some (s\<lparr>ssd_cmd := sint data\<rparr>)
                 else do { d \<leftarrow> arr_set (ssd_cmd_data s) (ssd_cmd_len s - 1) (sint data); Some (s\<lparr>ssd_cmd_data := d\<rparr>) });
            s \<leftarrow> ssd0323_command (s\<lparr>ssd_cmd_len := ssd_cmd_len s + 1\<rparr>);
            Some (0, s) }
     else Some (0, s))"

definition ssd0323_invalidate_display :: "ssd0323_state \<Rightarrow> ssd0323_state" where
  "ssd0323_invalidate_display s = s\<lparr>ssd_redraw := 1\<rparr>"

definition ssd0323_cd :: "ssd0323_state \<Rightarrow> bool \<Rightarrow> ssd0323_state" where
  "ssd0323_cd s level = s\<lparr>ssd_mode := (if level then SSD0323_DATA else SSD0323_CMD)\<rparr>"

definition ssd0323_init :: ssd0323_state where
  "ssd0323_init = \<lparr>ssd_cs = False, ssd_cmd_len = 0, ssd_cmd = 0, ssd_cmd_data = replicate 8 0, ssd_row = 0, ssd_row_start = 0,
     ssd_row_end = 79, ssd_col = 0, ssd_col_start = 0, ssd_col_end = 63, ssd_redraw = 0, ssd_remap = 0, ssd_mode = SSD0323_CMD,
     ssd_framebuffer = replicate 5120 0\<rparr>"

subsection \<open>Drawing\<close>

text \<open>The width of a pixel in bytes; \<open>None\<close> where the code returns without drawing.\<close>

definition ssd0323_dest_width :: "nat \<Rightarrow> nat option" where
  "ssd0323_dest_width bpp =
    (if bpp = 15 \<or> bpp = 16 then Some 2 else if bpp = 24 then Some 3 else if bpp = 32 then Some 4 else None)"

text \<open>One entry of the colour table.\<close>

definition ssd0323_color :: "(nat \<Rightarrow> u8) \<Rightarrow> nat \<Rightarrow> nat \<Rightarrow> u8 list" where
  "ssd0323_color pad bpp i =
    (if bpp = 15 then let n = of_nat (i * 2 + i div 8) :: u32 in [ucast (n OR push_bit 5 n), ucast (push_bit 2 n OR drop_bit 3 n)]
     else if bpp = 16 then
       let n = of_nat (i * 2 + i div 8) :: u32
       in [ucast (n OR push_bit 6 n OR (push_bit 1 n AND 0x20)), ucast (push_bit 3 n OR drop_bit 2 n)]
     else let n = of_nat (i * 16 + i) :: u8 in if bpp = 24 then [n, n, n] else [n, n, n, pad i])"

definition ssd0323_draw_byte :: "(nat \<Rightarrow> u8) \<Rightarrow> nat \<Rightarrow> u8 \<Rightarrow> u8 list" where
  "ssd0323_draw_byte pad bpp v =
    concat (replicate MAGNIFY (ssd0323_color pad bpp (unat (drop_bit 4 v)))) @
    concat (replicate MAGNIFY (ssd0323_color pad bpp (unat (v AND 0xf))))"

text \<open>A line of the frame buffer is drawn once and then copied.\<close>

definition ssd0323_draw_line :: "(nat \<Rightarrow> u8) \<Rightarrow> nat \<Rightarrow> u8 list \<Rightarrow> u8 list" where
  "ssd0323_draw_line pad bpp src = concat (replicate MAGNIFY (concat (map (ssd0323_draw_byte pad bpp) src)))"

definition ssd0323_update_display ::
  "(nat \<Rightarrow> u8) \<Rightarrow> nat \<Rightarrow> ssd0323_state \<Rightarrow> u8 list \<Rightarrow> (ssd0323_state \<times> u8 list) option"
where
  "ssd0323_update_display pad bpp s surface =
    (if ssd_redraw s = 0 then Some (s, surface)
     else case ssd0323_dest_width bpp of
       None \<Rightarrow> Some (s, surface)
     | Some w \<Rightarrow>
         let dest = concat (map (\<lambda>y. ssd0323_draw_line pad bpp (take 64 (drop (64 * y) (ssd_framebuffer s)))) [0..<64])
         in if length (ssd_framebuffer s) < 64 * 64 \<or> length surface < length dest then None
            else Some (s\<lparr>ssd_redraw := 0\<rparr>, dest @ drop (length dest) surface))"

subsection \<open>Transfers stay in the frame buffer\<close>

definition ssd_inv :: "ssd0323_state \<Rightarrow> bool" where
  "ssd_inv s \<longleftrightarrow> length (ssd_cmd_data s) = 8 \<and> (\<forall>x\<in>set (ssd_cmd_data s). 0 \<le> x) \<and> length (ssd_framebuffer s) = 5120 \<and>
     0 \<le> ssd_cmd_len s \<and> ssd_cmd_len s \<le> 8 \<and>
     0 \<le> ssd_row s \<and> ssd_row s < 80 \<and> 0 \<le> ssd_row_start s \<and> ssd_row_start s < 80 \<and> 0 \<le> ssd_row_end s \<and> ssd_row_end s < 80 \<and>
     0 \<le> ssd_col s \<and> ssd_col s < 64 \<and> 0 \<le> ssd_col_start s \<and> ssd_col_start s < 64 \<and> 0 \<le> ssd_col_end s \<and> ssd_col_end s < 64"

lemma ssd0323_init_inv: "ssd_inv ssd0323_init"
  by (simp add: ssd_inv_def ssd0323_init_def)

lemma ssd_inv_updates [simp]:
  "ssd_inv (s\<lparr>ssd_redraw := x\<rparr>) = ssd_inv s" "ssd_inv (s\<lparr>ssd_cs := b\<rparr>) = ssd_inv s" "ssd_inv (s\<lparr>ssd_cmd := x\<rparr>) = ssd_inv s"
  "ssd_inv (s\<lparr>ssd_mode := x\<rparr>) = ssd_inv s" "ssd_inv (s\<lparr>ssd_remap := x\<rparr>) = ssd_inv s"
  by (simp_all add: ssd_inv_def)

lemma ssd_inv_framebuffer: "ssd_inv s \<Longrightarrow> length fb = 5120 \<Longrightarrow> ssd_inv (s\<lparr>ssd_framebuffer := fb\<rparr>)"
  by (simp add: ssd_inv_def)

lemma ssd0323_cd_inv: "ssd_inv s \<Longrightarrow> ssd_inv (ssd0323_cd s level)"
  by (simp add: ssd_inv_def ssd0323_cd_def)

lemma ssd0323_advance_inv: "ssd_inv s \<Longrightarrow> ssd_inv (ssd0323_advance s)"
  by (auto simp: ssd_inv_def ssd0323_advance_def Let_def)

lemma c_rem_range: "0 \<le> a \<Longrightarrow> 0 < b \<Longrightarrow> 0 \<le> c_rem a b \<and> c_rem a b < b"
  by (simp add: c_rem_def)

lemma ssd0323_args_le: "ssd0323_args c \<le> 8"
  by (simp add: ssd0323_args_def)

lemma ssd0323_command_inv:
  assumes "ssd_inv (s\<lparr>ssd_cmd_len := 0\<rparr>)" "0 \<le> ssd_cmd_len s"
  shows "yields (ssd0323_command s) ssd_inv"
proof -
  have l: "length (ssd_cmd_data s) = 8" and p: "\<And>i. i < 8 \<Longrightarrow> 0 \<le> ssd_cmd_data s ! i" using assms(1) by (auto simp: ssd_inv_def)
  note r = c_rem_range [OF p [of 0]] c_rem_range [OF p [of 1]]
  show ?thesis
    using assms l r ssd0323_args_le [of "ssd_cmd s"] unfolding ssd0323_command_def
    by (intro yields_if) (auto simp: arr_get_Some ssd_inv_def)
qed

lemma sint_nonneg: "(v :: u32) < 0x80000000 \<Longrightarrow> 0 \<le> sint v"
proof -
  assume "v < 0x80000000"
  then have "unat v < 2 ^ 31" by (simp add: word_less_nat_alt)
  then have "\<not> bit (unat v) 31" by (simp add: bit_iff_odd)
  then show "0 \<le> sint v" by (simp add: sint_uint bit_unsigned_iff)
qed

lemma ssd0323_data_inv:
  assumes "ssd_inv s"
  shows "yields (arr_set (ssd_framebuffer s) (ssd_col s + ssd_row s * 64) v)
    (\<lambda>fb. ssd_inv ((ssd0323_advance (s\<lparr>ssd_framebuffer := fb\<rparr>))\<lparr>ssd_redraw := 1\<rparr>))"
proof -
  have i: "0 \<le> ssd_col s + ssd_row s * 64" "ssd_col s + ssd_row s * 64 < 5120" and l: "length (ssd_framebuffer s) = 5120"
    using assms by (auto simp: ssd_inv_def)
  have "ssd_inv ((ssd0323_advance (s\<lparr>ssd_framebuffer := fb\<rparr>))\<lparr>ssd_redraw := 1\<rparr>)" if "length fb = 5120" for fb
    using ssd0323_advance_inv [OF ssd_inv_framebuffer [OF assms that]] by simp
  then show ?thesis using i l by (simp add: arr_set_Some)
qed

lemma ssd0323_cmd_inv:
  assumes "ssd_inv s" "(v :: u32) < 0x80000000"
  shows "yields (if ssd_cmd_len s = 0 then Some (s\<lparr>ssd_cmd := sint v\<rparr>)
      else do { d \<leftarrow> arr_set (ssd_cmd_data s) (ssd_cmd_len s - 1) (sint v); Some (s\<lparr>ssd_cmd_data := d\<rparr>) })
    (\<lambda>t. yields (ssd0323_command (t\<lparr>ssd_cmd_len := ssd_cmd_len t + 1\<rparr>)) ssd_inv)"
proof -
  have k: "yields (ssd0323_command (t\<lparr>ssd_cmd_len := ssd_cmd_len t + 1\<rparr>)) ssd_inv" if "ssd_inv t" for t
    using that by (intro ssd0323_command_inv) (simp_all add: ssd_inv_def)
  have l: "length (ssd_cmd_data s) = 8" "0 \<le> ssd_cmd_len s" "ssd_cmd_len s \<le> 8" using assms(1) by (simp_all add: ssd_inv_def)
  have "ssd_inv (s\<lparr>ssd_cmd_data := (ssd_cmd_data s)[i := sint v]\<rparr>)" for i
    using assms(1) sint_nonneg [OF assms(2)] by (auto simp: ssd_inv_def dest!: subsetD [OF set_update_subset_insert])
  from k [OF this] k [of "s\<lparr>ssd_cmd := sint v\<rparr>"] assms(1) l show ?thesis
    by (cases "ssd_cmd_len s = 0") (simp_all add: arr_set_Some)
qed

lemma ssd0323_transfer_inv:
  assumes "ssd_inv s" "v < 0x80000000"
  shows "yields (ssd0323_transfer s v) (\<lambda>(r, t). r = 0 \<and> ssd_inv t)"
  using ssd0323_data_inv [OF assms(1), of "ucast v"] ssd0323_cmd_inv [OF assms] assms(1)
  unfolding ssd0323_transfer_def by (intro yields_if) (simp_all del: yields_Some add: yields_Some [of "(_, _)"])

subsection \<open>Filling a window\<close>

datatype ssd_event = SsdByte u32 | SsdCd bool

fun ssd_step :: "ssd0323_state \<Rightarrow> ssd_event \<Rightarrow> ssd0323_state option" where
  "ssd_step s (SsdByte v) = map_option snd (ssd0323_transfer s v)"
| "ssd_step s (SsdCd level) = Some (ssd0323_cd s level)"

definition window_pos :: "nat \<Rightarrow> nat \<Rightarrow> nat \<Rightarrow> nat \<Rightarrow> nat" where
  "window_pos c r w i = (r + i div w) * 64 + c + i mod w"

lemma window_pos_inj:
  assumes "window_pos c r w i = window_pos c r w j" "0 < w" "c + w \<le> 64"
  shows "i = j"
proof -
  have m: "c + i mod w < 64" "c + j mod w < 64" using assms(2,3) mod_less_divisor [of w i] mod_less_divisor [of w j] by linarith+
  have "(c + i mod w) + (r + i div w) * 64 = (c + j mod w) + (r + j div w) * 64" using assms(1) by (simp add: window_pos_def)
  then have "(c + i mod w) mod 64 = (c + j mod w) mod 64" "(c + i mod w) div 64 + (r + i div w) = (c + j mod w) div 64 + (r + j div w)"
    by (metis mod_mult_self1, metis div_mult_self1 add.commute zero_neq_numeral)
  then have "i mod w = j mod w" "i div w = j div w" using m by simp_all
  then show ?thesis by (metis div_mult_mod_eq)
qed

definition ssd_filled :: "nat \<Rightarrow> nat \<Rightarrow> nat \<Rightarrow> u32 list \<Rightarrow> u8 list \<Rightarrow> u8 list \<Rightarrow> bool" where
  "ssd_filled c r w ds fb fb' \<longleftrightarrow> length fb' = length fb \<and> (\<forall>i<length ds. fb' ! window_pos c r w i = ucast (ds ! i)) \<and>
     (\<forall>p. p \<notin> window_pos c r w ` {..<length ds} \<longrightarrow> fb' ! p = fb ! p)"

lemma ssd_filled_snoc:
  assumes "ssd_filled c r w ds fb fb'" "0 < w" "c + w \<le> 64" "window_pos c r w (length ds) < length fb"
  shows "ssd_filled c r w (ds @ [d]) fb (fb'[window_pos c r w (length ds) := ucast d])"
proof -
  have "window_pos c r w (length ds) \<noteq> window_pos c r w i" if "i < length ds" for i
    using window_pos_inj [OF _ assms(2,3), of r "length ds" i] that by auto
  then show ?thesis
    using assms by (auto simp: ssd_filled_def nth_append less_Suc_eq nth_list_update lessThan_Suc)
qed

lemma ssd_fill_step:
  assumes "ssd_mode t = SSD0323_DATA" "ssd_remap t AND REMAP_VERTICAL = 0" "length (ssd_framebuffer t) = 5120"
    and "ssd_col_start t = int c" "ssd_col_end t = int (c + w) - 1" "0 < w" "c + w \<le> 64" "ssd_col t = int (c + n mod w)"
    and "ssd_row_start t = int r" "ssd_row_end t = int (r + h) - 1" "r + h \<le> 80" "ssd_row t = int (r + n div w)" "n div w < h"
  shows "ssd0323_transfer t d = Some (0, t\<lparr>ssd_framebuffer := (ssd_framebuffer t)[window_pos c r w n := ucast d], ssd_redraw := 1,
    ssd_col := int (c + Suc n mod w), ssd_row := int (r + (Suc n div w) mod h)\<rparr>)" (is "_ = Some (0, ?u)")
    "window_pos c r w n < 5120"
proof -
  have m: "n mod w < w" using assms(6) by simp
  have "r + n div w \<le> 79" "c + n mod w \<le> 63" using m assms(7,11,13) by simp_all
  then have "(r + n div w) * 64 + (c + n mod w) \<le> 79 * 64 + 63" by (intro add_mono mult_right_mono) simp_all
  then show p: "window_pos c r w n < 5120" by (simp add: window_pos_def)
  have i: "ssd_col t + ssd_row t * 64 = int (window_pos c r w n)" using assms(8,12) by (simp add: window_pos_def)
  have fb: "arr_set (ssd_framebuffer t) (int (window_pos c r w n)) (ucast d) = Some ((ssd_framebuffer t)[window_pos c r w n := ucast d])"
    using arr_set_nat [of "window_pos c r w n" "ssd_framebuffer t"] p assms(3) by simp
  have "(ssd0323_advance (t\<lparr>ssd_framebuffer := b\<rparr>))\<lparr>ssd_redraw := 1\<rparr> = t\<lparr>ssd_framebuffer := b, ssd_redraw := 1,
    ssd_col := int (c + Suc n mod w), ssd_row := int (r + (Suc n div w) mod h)\<rparr>" for b
  proof (cases "Suc (n mod w) = w")
    case True
    then show ?thesis using assms m by (cases "Suc (n div w) = h") (simp_all add: ssd0323_advance_def Let_def mod_Suc div_Suc)
  next
    case False
    then show ?thesis using assms m by (simp add: ssd0323_advance_def Let_def mod_Suc div_Suc)
  qed
  then show "ssd0323_transfer t d = Some (0, ?u)" using assms(1) unfolding ssd0323_transfer_def i fb by simp
qed

lemma ssd_fill:
  assumes "ssd_mode s = SSD0323_DATA" "ssd_remap s AND REMAP_VERTICAL = 0" "length (ssd_framebuffer s) = 5120"
    and "ssd_col_start s = int c" "ssd_col_end s = int (c + w) - 1" "0 < w" "c + w \<le> 64" "ssd_col s = int c"
    and "ssd_row_start s = int r" "ssd_row_end s = int (r + h) - 1" "0 < h" "r + h \<le> 80" "ssd_row s = int r"
    and "length ds \<le> w * h"
  shows "yields (exec_list ssd_step s (map SsdByte ds)) (\<lambda>t. ssd_filled c r w ds (ssd_framebuffer s) (ssd_framebuffer t) \<and>
    t = s\<lparr>ssd_framebuffer := ssd_framebuffer t, ssd_redraw := ssd_redraw t,
      ssd_col := int (c + length ds mod w), ssd_row := int (r + (length ds div w) mod h)\<rparr>)"
  using assms(14)
proof (induction ds rule: rev_induct)
  case Nil
  then show ?case using assms by (simp add: ssd_filled_def)
next
  case (snoc d ds)
  let ?n = "length ds"
  have n: "?n < w * h" using snoc.prems by simp
  then have q: "?n div w < h" using assms(6) by (simp add: less_mult_imp_div_less mult.commute)
  have m: "?n mod w < w" using assms(6) by simp
  have "yields (ssd_step t (SsdByte d)) (\<lambda>u. ssd_filled c r w (ds @ [d]) (ssd_framebuffer s) (ssd_framebuffer u) \<and>
      u = s\<lparr>ssd_framebuffer := ssd_framebuffer u, ssd_redraw := ssd_redraw u, ssd_col := int (c + Suc ?n mod w), ssd_row := int (r + (Suc ?n div w) mod h)\<rparr>)"
    if f: "ssd_filled c r w ds (ssd_framebuffer s) (ssd_framebuffer t)" and t: "t = s\<lparr>ssd_framebuffer := ssd_framebuffer t, ssd_redraw := ssd_redraw t,
      ssd_col := int (c + ?n mod w), ssd_row := int (r + (?n div w) mod h)\<rparr>" for t
  proof -
    define fb rd where "fb = ssd_framebuffer t" and "rd = ssd_redraw t"
    have t: "t = s\<lparr>ssd_framebuffer := fb, ssd_redraw := rd, ssd_col := int (c + ?n mod w), ssd_row := int (r + ?n div w)\<rparr>"
      using t q unfolding fb_def [symmetric] rd_def [symmetric] by simp
    have l: "length fb = 5120" using f assms(3) by (simp add: ssd_filled_def fb_def)
    have "ssd_mode t = SSD0323_DATA" "ssd_remap t AND REMAP_VERTICAL = 0" "length (ssd_framebuffer t) = 5120" "ssd_col_start t = int c"
      "ssd_col_end t = int (c + w) - 1" "ssd_col t = int (c + ?n mod w)" "ssd_row_start t = int r" "ssd_row_end t = int (r + h) - 1"
      "ssd_row t = int (r + ?n div w)" using assms l unfolding t by simp_all
    note st = ssd_fill_step [OF this(1-5) assms(6,7) this(6-8) assms(12) this(9) q]
    show ?thesis
      using st(1) ssd_filled_snoc [OF f assms(6,7)] st(2) assms(3) by (simp add: fb_def [symmetric]) (simp add: t)
  qed
  from yields_mono [OF snoc.IH this] snoc.prems show ?case by (simp add: exec_list_append)
qed

lemma sint_int32: "- (2 ^ 31) \<le> x \<Longrightarrow> x < 2 ^ 31 \<Longrightarrow> sint (word_of_int x :: u32) = x"
  by (simp add: sint_uint unsigned_of_int signed_take_bit_take_bit signed_take_bit_int_eq_self)

lemma sint_of_nat_small: "a < 100 \<Longrightarrow> sint (of_nat a :: u32) = int a"
  using sint_int32 [of "int a"] by simp

text \<open>The two commands that address a window.\<close>

lemma ssd_set_range:
  assumes "length (ssd_cmd_data s) = 8" "ssd_mode s = SSD0323_CMD" "ssd_cmd_len s = 0" "a < 100" "b < 100"
  shows "exec_list ssd_step s (map SsdByte [0x15, of_nat a, of_nat b]) = Some (s\<lparr>ssd_cmd := 0x15,
      ssd_cmd_data := (ssd_cmd_data s)[0 := int a, 1 := int b], ssd_cmd_len := 0,
      ssd_col := int (a mod 64), ssd_col_start := int (a mod 64), ssd_col_end := int (b mod 64)\<rparr>)"
    "exec_list ssd_step s (map SsdByte [0x75, of_nat a, of_nat b]) = Some (s\<lparr>ssd_cmd := 0x75,
      ssd_cmd_data := (ssd_cmd_data s)[0 := int a, 1 := int b], ssd_cmd_len := 0,
      ssd_row := int (a mod 80), ssd_row_start := int (a mod 80), ssd_row_end := int (b mod 80)\<rparr>)"
  using assms
  by (simp_all add: ssd0323_transfer_def ssd0323_command_def ssd0323_args_def arr_set_Some arr_get_Some sint_of_nat_small c_rem_def zmod_int)

text \<open>
  C16: Data fills the addressed window. After the commands that set the columns \<open>c .. c + w - 1\<close> and the rows
  \<open>r .. r + h - 1\<close>, in the horizontal addressing mode, data byte \<open>i\<close> is stored in row \<open>i div w\<close> and column \<open>i mod w\<close> of the
  window, and nothing outside the bytes sent is changed.
\<close>

theorem ssd0323_window:
  assumes "ssd_inv s" "ssd_mode s = SSD0323_CMD" "ssd_cmd_len s = 0" "ssd_remap s AND REMAP_VERTICAL = 0"
    and "0 < w" "c + w \<le> 64" "0 < h" "r + h \<le> 80" "length ds \<le> w * h"
  shows "\<exists>t. exec_list ssd_step s (map SsdByte [0x15, of_nat c, of_nat (c + w - 1)] @ map SsdByte [0x75, of_nat r, of_nat (r + h - 1)] @
      [SsdCd True] @ map SsdByte ds) = Some t \<and>
    (\<forall>i<length ds. ssd_framebuffer t ! ((r + i div w) * 64 + c + i mod w) = ucast (ds ! i)) \<and>
    (\<forall>p. (\<forall>i<length ds. p \<noteq> (r + i div w) * 64 + c + i mod w) \<longrightarrow> ssd_framebuffer t ! p = ssd_framebuffer s ! p)"
proof -
  have l: "length (ssd_cmd_data s) = 8" "length (ssd_framebuffer s) = 5120" using assms(1) by (simp_all add: ssd_inv_def)
  let ?u = "s\<lparr>ssd_cmd := 0x15, ssd_cmd_data := (ssd_cmd_data s)[0 := int c, 1 := int (c + w - 1)], ssd_cmd_len := 0,
      ssd_col := int c, ssd_col_start := int c, ssd_col_end := int (c + w - 1)\<rparr>"
  let ?v = "?u\<lparr>ssd_cmd := 0x75, ssd_cmd_data := (ssd_cmd_data ?u)[0 := int r, 1 := int (r + h - 1)], ssd_cmd_len := 0,
      ssd_row := int r, ssd_row_start := int r, ssd_row_end := int (r + h - 1)\<rparr>"
  have u: "exec_list ssd_step s (map SsdByte [0x15, of_nat c, of_nat (c + w - 1)]) = Some ?u"
    using ssd_set_range(1) [OF l(1) assms(2,3), of c "c + w - 1"] assms(5,6) by simp
  have v: "exec_list ssd_step ?u (map SsdByte [0x75, of_nat r, of_nat (r + h - 1)]) = Some ?v"
    using ssd_set_range(2) [of ?u r "r + h - 1"] l(1) assms(2,7,8) by simp
  have "yields (exec_list ssd_step (ssd0323_cd ?v True) (map SsdByte ds))
      (\<lambda>t. ssd_filled c r w ds (ssd_framebuffer s) (ssd_framebuffer t))"
    using ssd_fill [of "ssd0323_cd ?v True" c w r h ds] assms(4-9) l(2)
    by (simp add: ssd0323_cd_def of_nat_diff) (erule yields_mono, simp)
  then show ?thesis
    unfolding exec_list_append u v Option.bind.bind_lunit by (auto simp: yields_def ssd_filled_def window_pos_def image_iff)
qed

theorem ssd0323_window_witness:
  "\<exists>t. exec_list ssd_step ssd0323_init (map SsdByte [0x15, 4, 6] @ map SsdByte [0x75, 10, 11] @ [SsdCd True] @ map SsdByte [1, 2, 3, 4]) = Some t \<and>
    ssd_framebuffer t ! 644 = 1 \<and> ssd_framebuffer t ! 708 = 4 \<and> ssd_framebuffer t ! 709 = 0"
proof -
  let ?ds = "[1, 2, 3, 4 :: u32]"
  have "\<exists>t. exec_list ssd_step ssd0323_init (map SsdByte [0x15, of_nat 4, of_nat (4 + 3 - 1)] @ map SsdByte [0x75, of_nat 10, of_nat (10 + 2 - 1)] @
      [SsdCd True] @ map SsdByte ?ds) = Some t \<and>
    (\<forall>i<length ?ds. ssd_framebuffer t ! ((10 + i div 3) * 64 + 4 + i mod 3) = ucast (?ds ! i)) \<and>
    (\<forall>p. (\<forall>i<length ?ds. p \<noteq> (10 + i div 3) * 64 + 4 + i mod 3) \<longrightarrow> ssd_framebuffer t ! p = ssd_framebuffer ssd0323_init ! p)"
    by (rule ssd0323_window) (simp_all add: ssd0323_init_inv, simp_all add: ssd0323_init_def)
  then show ?thesis
  proof (elim exE conjE)
    fix t assume t: "exec_list ssd_step ssd0323_init (map SsdByte [0x15, of_nat 4, of_nat (4 + 3 - 1)] @ map SsdByte [0x75, of_nat 10, of_nat (10 + 2 - 1)] @
      [SsdCd True] @ map SsdByte ?ds) = Some t"
      and d: "\<forall>i<length ?ds. ssd_framebuffer t ! ((10 + i div 3) * 64 + 4 + i mod 3) = ucast (?ds ! i)"
      and k: "\<forall>p. (\<forall>i<length ?ds. p \<noteq> (10 + i div 3) * 64 + 4 + i mod 3) \<longrightarrow> ssd_framebuffer t ! p = ssd_framebuffer ssd0323_init ! p"
    have "(709 :: nat) \<noteq> (10 + i div 3) * 64 + 4 + i mod 3" if "i < length ?ds" for i
    proof -
      from that have "i = 0 \<or> i = 1 \<or> i = 2 \<or> i = 3" by auto
      then show ?thesis by auto
    qed
    with k have "ssd_framebuffer t ! 709 = ssd_framebuffer ssd0323_init ! 709" by blast
    moreover from d [rule_format, of 0] d [rule_format, of 3] have "ssd_framebuffer t ! 644 = 1" "ssd_framebuffer t ! 708 = 4" by simp_all
    ultimately show ?thesis using t by (simp add: ssd0323_init_def)
  qed
qed

end
