(* ===== verification/AtmelSpi.thy ===== *)
theory AtmelSpi
  imports Interfaces
begin

text \<open>
  The SPI controller of the SAM3 board, \<^verbatim>\<open>hw/spi/spi_atmel.c\<close>, including the accessors this
  fork adds for the debugger (\<open>read_dbg\<close>, \<open>write_dbg\<close>).

  The SSI bus behind the controller is a value of any type together with its transfer
  function \<open>xfer\<close>, which may be undefined; the locale \<open>ssi_port\<close> states what the controller
  needs of it, and theory \<open>SsiBus\<close> interprets it on the bus of the board. The C \<open>int\<close> indices of the FIFOs are HOL integers and every access to the two
  8-entry arrays is checked. The four chip select registers are one field each.

  The lemmas show that no guest access leaves the FIFO arrays, that the transmit FIFO is a
  queue, what a transfer does, and where the receive FIFO and the interrupt enable register
  go wrong.
\<close>

record 'b spi_state =
  spi_cr :: u32
  spi_mr :: u32
  spi_rdr :: u32
  spi_tdr :: u32
  spi_sr :: u32
  spi_ier :: u32
  spi_idr :: u32
  spi_imr :: u32
  spi_csr0 :: u32
  spi_csr1 :: u32
  spi_csr2 :: u32
  spi_csr3 :: u32
  spi_wpmr :: u32
  spi_wpsr :: u32
  tx_fifo_head :: int
  rx_fifo_head :: int
  tx_fifo_len :: int
  rx_fifo_len :: int
  tx_fifo :: "u16 list"
  rx_fifo :: "u16 list"
  dbg_s :: bool
  spi_irq :: bool
  spi_ssi :: 'b

abbreviation SPI_SPIEN :: u32 where "SPI_SPIEN \<equiv> 0x1"
abbreviation SPI_LLB :: u32 where "SPI_LLB \<equiv> 0x80"
abbreviation SPI_RDRF :: u32 where "SPI_RDRF \<equiv> 0x1"
abbreviation SPI_TDRE :: u32 where "SPI_TDRE \<equiv> 0x2"
abbreviation SPI_RXBUFF :: u32 where "SPI_RXBUFF \<equiv> 0x40"
abbreviation SPI_TXBUFE :: u32 where "SPI_TXBUFE \<equiv> 0x80"
abbreviation SPI_TXEMPTY :: u32 where "SPI_TXEMPTY \<equiv> 0x200"
abbreviation SPI_SPIENS :: u32 where "SPI_SPIENS \<equiv> 0x10000"

definition spi_id :: "u8 list" where
  "spi_id = [0x22, 0x10, 0x04, 0x00, 0x0d, 0xf0, 0x05, 0xb1]"

definition spi_update :: "'b spi_state \<Rightarrow> 'b spi_state" where
  "spi_update s =
    (let sr = (if tx_fifo_len s = 0 then spi_sr s OR SPI_TXBUFE else spi_sr s AND NOT SPI_TXBUFE);
         sr = (if rx_fifo_len s = 8 then sr OR SPI_RXBUFF else sr AND NOT SPI_RXBUFF);
         sr = or_if (spi_cr s AND 0x1 = 1 \<and> spi_cr s AND 0x2 = 0) SPI_SPIENS sr;
         ier = or_if (4 \<le> rx_fifo_len s) SPI_RXBUFF 0;
         ier = or_if (tx_fifo_len s \<le> 4) SPI_TXBUFE ier
     in s\<lparr>spi_sr := sr, spi_ier := ier,
          spi_irq := (NOT (spi_idr s) AND ier AND spi_imr s \<noteq> 0)\<rparr>)"

definition spi_tx_push :: "'b spi_state \<Rightarrow> u16 \<Rightarrow> 'b spi_state option" where
  "spi_tx_push s v =
    do { tx \<leftarrow> arr_set (tx_fifo s) (tx_fifo_head s) v;
         Some (spi_update (s\<lparr>tx_fifo := tx, spi_sr := spi_sr s AND NOT SPI_TXEMPTY,
           tx_fifo_head := (tx_fifo_head s + 1) AND 7, tx_fifo_len := tx_fifo_len s + 1\<rparr>)) }"

definition spi_tx_pop :: "'b spi_state \<Rightarrow> (u16 \<times> 'b spi_state) option" where
  "spi_tx_pop s =
    do { val \<leftarrow> arr_get (tx_fifo s) ((tx_fifo_head s - tx_fifo_len s) AND 7);
         Some (val, s\<lparr>tx_fifo_len := tx_fifo_len s - 1\<rparr>) }"

definition spi_transmit ::
  "('b \<Rightarrow> u32 \<Rightarrow> (u32 \<times> 'b) option) \<Rightarrow> 'b spi_state \<Rightarrow> u64 \<Rightarrow> 'b spi_state option"
where
  "spi_transmit xfer s value =
    do { s \<leftarrow> (if tx_fifo_len s < 8 then spi_tx_push s (ucast value) else Some s);
         if spi_cr s AND SPI_SPIEN = 0 then Some (spi_update s)
         else do {
           let out = rx_fifo_len s;
           (s, out) \<leftarrow>
             (if tx_fifo_len s \<noteq> 0 \<and> rx_fifo_len s < 8 then
                do { (val, s) \<leftarrow> spi_tx_pop s;
                     (val, s) \<leftarrow>
                       (if spi_mr s AND SPI_LLB \<noteq> 0 then Some (ucast val, s\<lparr>spi_rdr := ucast value\<rparr>)
                        else do { (r, bus) \<leftarrow> xfer (spi_ssi s) (ucast val); Some (r, s\<lparr>spi_ssi := bus\<rparr>) });
                     rx \<leftarrow> arr_set (rx_fifo s) out (ucast (val AND 0xffff));
                     Some (s\<lparr>rx_fifo := rx, spi_sr := spi_sr s OR SPI_RDRF,
                             rx_fifo_len := rx_fifo_len s + 1\<rparr>, (out + 1) AND 7) }
              else Some (s, out));
           Some (spi_update (s\<lparr>rx_fifo_head := out,
             spi_sr := (spi_sr s OR SPI_TXEMPTY) OR SPI_RDRF\<rparr>)) } }"

definition spi_receive :: "'b spi_state \<Rightarrow> (u16 \<times> 'b spi_state) option" where
  "spi_receive s =
    (if spi_mr s AND SPI_LLB \<noteq> 0 then
       let val = ucast (spi_rdr s);
           s = spi_update (s\<lparr>spi_sr := spi_sr s AND NOT SPI_RDRF\<rparr>)
       in Some (val, s\<lparr>spi_tdr := 0, spi_rdr := 0\<rparr>)
     else do {
       (val, s) \<leftarrow> (if rx_fifo_len s > 0 then
            do { val \<leftarrow> arr_get (rx_fifo s) ((rx_fifo_head s - rx_fifo_len s) AND 7);
                 Some (val, s\<lparr>rx_fifo_len := rx_fifo_len s - 1\<rparr>) }
          else Some (0, s));
       Some (val, spi_update (s\<lparr>spi_sr := spi_sr s AND NOT SPI_RDRF\<rparr>)) })"

definition spi_xfer :: "'b spi_state \<Rightarrow> u16 \<Rightarrow> 'b spi_state option" where
  "spi_xfer s value =
    do { rx \<leftarrow> arr_set (rx_fifo s) 0 value;
         Some (s\<lparr>spi_sr := ((spi_sr s AND NOT SPI_TXEMPTY) AND NOT SPI_TDRE) OR SPI_RDRF,
                 rx_fifo := rx\<rparr>) }"

definition spi_id_read :: "hwaddr \<Rightarrow> u64 option" where
  "spi_id_read offset = map_option ucast (arr_get spi_id (uint (drop_bit 2 (offset - 0xfe0))))"

definition spi_read ::
  "('b \<Rightarrow> u32 \<Rightarrow> (u32 \<times> 'b) option) \<Rightarrow> 'b spi_state \<Rightarrow> hwaddr \<Rightarrow> (u64 \<times> 'b spi_state) option"
where
  "spi_read xfer s offset =
    (if 0xfe0 \<le> offset \<and> offset < 0x1000 then map_option (\<lambda>v. (v, s)) (spi_id_read offset)
     else if offset = 0x04 then Some (ucast (spi_mr s), s)
     else if offset = 0x08 then map_option (\<lambda>(v, s). (ucast v, s)) (spi_receive s)
     else if offset = 0x0c then
       let s = s\<lparr>spi_sr := spi_sr s OR SPI_TDRE\<rparr>; val = spi_tdr s
       in map_option (\<lambda>t. (ucast val, t)) (spi_transmit xfer s (scast val))
     else if offset = 0x10 then Some (ucast (spi_sr s), s)
     else if offset = 0x1c then Some (ucast (spi_imr s), s)
     else if offset = 0x30 then Some (ucast (spi_csr0 s), s)
     else if offset = 0x34 then Some (ucast (spi_csr1 s), s)
     else if offset = 0x38 then Some (ucast (spi_csr2 s), s)
     else if offset = 0x3C then Some (ucast (spi_csr3 s), s)
     else if offset = 0xE4 then Some (ucast (spi_wpmr s), s)
     else if offset = 0xE8 then Some (ucast (spi_wpsr s), s)
     else Some (0, s))"

definition spi_read_dbg :: "'b spi_state \<Rightarrow> hwaddr \<Rightarrow> u64 option" where
  "spi_read_dbg s offset =
    (if 0xfe0 \<le> offset \<and> offset < 0x1000 then spi_id_read offset
     else if offset = 0x00 then Some (ucast (spi_cr s))
     else if offset = 0x04 then Some (ucast (spi_mr s))
     else if offset = 0x08 then Some (ucast (spi_rdr s))
     else if offset = 0x0c then Some (ucast (spi_tdr s))
     else if offset = 0x10 then Some (ucast (spi_sr s))
     else if offset = 0x14 then Some (ucast (spi_ier s))
     else if offset = 0x18 then Some (ucast (spi_idr s))
     else if offset = 0x1c then Some (ucast (spi_imr s))
     else if offset = 0x30 then Some (ucast (spi_csr0 s))
     else if offset = 0x34 then Some (ucast (spi_csr1 s))
     else if offset = 0x38 then Some (ucast (spi_csr2 s))
     else if offset = 0x3C then Some (ucast (spi_csr3 s))
     else if offset = 0xE4 then Some (ucast (spi_wpmr s))
     else if offset = 0xE8 then Some (ucast (spi_wpsr s))
     else Some 0)"

definition spi_write :: "'b spi_state \<Rightarrow> hwaddr \<Rightarrow> u64 \<Rightarrow> 'b spi_state" where
  "spi_write s offset value =
    (if offset = 0x00 then spi_update (s\<lparr>spi_cr := ucast value\<rparr>)
     else if offset = 0x04 then s\<lparr>spi_mr := ucast value\<rparr>
     else if offset = 0x0c then s\<lparr>spi_sr := spi_sr s AND NOT SPI_TDRE, spi_tdr := ucast value\<rparr>
     else if offset = 0x14 then spi_update (s\<lparr>spi_ier := ucast value\<rparr>)
     else if offset = 0x18 then spi_update (s\<lparr>spi_idr := ucast value\<rparr>)
     else if offset = 0x30 then s\<lparr>spi_csr0 := ucast value\<rparr>
     else if offset = 0x34 then s\<lparr>spi_csr1 := ucast value\<rparr>
     else if offset = 0x38 then s\<lparr>spi_csr2 := ucast value\<rparr>
     else if offset = 0x3c then s\<lparr>spi_csr3 := ucast value\<rparr>
     else if offset = 0xE4 then s\<lparr>spi_wpmr := ucast value\<rparr>
     else s)"

definition spi_write_dbg :: "'b spi_state \<Rightarrow> hwaddr \<Rightarrow> u64 \<Rightarrow> 'b spi_state" where
  "spi_write_dbg s0 offset value =
    (let s = s0\<lparr>dbg_s := True\<rparr>
     in if offset = 0x00 then s\<lparr>spi_cr := ucast value\<rparr>
     else if offset = 0x04 then s\<lparr>spi_mr := ucast value\<rparr>
     else if offset = 0x08 then s\<lparr>spi_rdr := ucast value\<rparr>
     else if offset = 0x0c then s\<lparr>spi_tdr := ucast value\<rparr>
     else if offset = 0x14 then s\<lparr>spi_ier := ucast value\<rparr>
     else if offset = 0x18 then s\<lparr>spi_idr := ucast value\<rparr>
     else if offset = 0x1c then s\<lparr>spi_imr := ucast value, spi_csr0 := ucast value\<rparr>
     else if offset = 0x30 then s\<lparr>spi_csr0 := ucast value\<rparr>
     else if offset = 0x34 then s\<lparr>spi_csr1 := ucast value\<rparr>
     else if offset = 0x38 then s\<lparr>spi_csr2 := ucast value\<rparr>
     else if offset = 0x3c then s\<lparr>spi_csr3 := ucast value\<rparr>
     else if offset = 0xE4 then s\<lparr>spi_wpmr := ucast value\<rparr>
     else s)"

definition spi_dbgUpdate :: "'b spi_state \<Rightarrow> 'b spi_state" where
  "spi_dbgUpdate s = (if dbg_s s then s\<lparr>dbg_s := False\<rparr> else s)"

definition spi_reset :: "'b spi_state \<Rightarrow> 'b spi_state" where
  "spi_reset s = s\<lparr>rx_fifo_len := 0, tx_fifo_len := 0, spi_imr := 0x7ff, spi_ier := 0,
     spi_sr := spi_sr s OR (SPI_TXEMPTY OR SPI_TXBUFE OR SPI_RXBUFF), spi_cr := 0\<rparr>"

definition spi_init :: "'b \<Rightarrow> 'b spi_state" where
  "spi_init bus = spi_reset
    \<lparr>spi_cr = 0, spi_mr = 0, spi_rdr = 0, spi_tdr = 0, spi_sr = 0, spi_ier = 0, spi_idr = 0,
     spi_imr = 0, spi_csr0 = 0, spi_csr1 = 0, spi_csr2 = 0, spi_csr3 = 0, spi_wpmr = 0,
     spi_wpsr = 0, tx_fifo_head = 0, rx_fifo_head = 0, tx_fifo_len = 0, rx_fifo_len = 0,
     tx_fifo = replicate 8 0, rx_fifo = replicate 8 0, dbg_s = False, spi_irq = False,
     spi_ssi = bus\<rparr>"

definition spi_fifos_ok :: "'b spi_state \<Rightarrow> bool" where
  "spi_fifos_ok s \<longleftrightarrow> 0 \<le> tx_fifo_head s \<and> tx_fifo_head s < 8 \<and> 0 \<le> tx_fifo_len s \<and> tx_fifo_len s \<le> 8 \<and>
     0 \<le> rx_fifo_len s \<and> rx_fifo_len s \<le> 8 \<and> length (tx_fifo s) = 8 \<and> length (rx_fifo s) = 8"

definition spi_inv :: "('b \<Rightarrow> bool) \<Rightarrow> 'b spi_state \<Rightarrow> bool" where
  "spi_inv J s \<longleftrightarrow> spi_fifos_ok s \<and> J (spi_ssi s)"

definition tx_items :: "'b spi_state \<Rightarrow> u16 list" where
  "tx_items s = ring_list (tx_fifo s) (nat ((tx_fifo_head s - tx_fifo_len s) AND 7)) (nat (tx_fifo_len s))"

subsection \<open>The transmit FIFO is a queue\<close>

lemma spi_update_fields [simp]:
  "spi_cr (spi_update s) = spi_cr s" "spi_mr (spi_update s) = spi_mr s"
  "spi_rdr (spi_update s) = spi_rdr s" "spi_tdr (spi_update s) = spi_tdr s"
  "spi_idr (spi_update s) = spi_idr s" "spi_imr (spi_update s) = spi_imr s"
  "tx_fifo_head (spi_update s) = tx_fifo_head s" "rx_fifo_head (spi_update s) = rx_fifo_head s"
  "tx_fifo_len (spi_update s) = tx_fifo_len s" "rx_fifo_len (spi_update s) = rx_fifo_len s"
  "tx_fifo (spi_update s) = tx_fifo s" "rx_fifo (spi_update s) = rx_fifo s"
  "spi_ssi (spi_update s) = spi_ssi s"
  by (simp_all add: spi_update_def Let_def)

lemma spi_fifos_update [simp]: "spi_fifos_ok (spi_update s) = spi_fifos_ok s"
  by (simp add: spi_fifos_ok_def)

lemma tx_items_update [simp]: "tx_items (spi_update s) = tx_items s"
  by (simp add: tx_items_def)

lemma length_tx_items: "length (tx_items s) = nat (tx_fifo_len s)"
  by (simp add: tx_items_def)

lemma spi_tx_push_ok:
  assumes "spi_fifos_ok s" "tx_fifo_len s < 8"
  shows "\<exists>t. spi_tx_push s v = Some t \<and> spi_fifos_ok t \<and> tx_items t = tx_items s @ [v] \<and>
    tx_fifo_len t = tx_fifo_len s + 1 \<and> rx_fifo_len t = rx_fifo_len s \<and> rx_fifo t = rx_fifo s \<and>
    spi_cr t = spi_cr s \<and> spi_mr t = spi_mr s \<and> spi_ssi t = spi_ssi s"
proof -
  let ?h = "tx_fifo_head s" and ?n = "tx_fifo_len s"
  have h: "0 \<le> ?h" "?h < 8" "0 \<le> ?n" "?n < 8" "length (tx_fifo s) = 8" "length (rx_fifo s) = 8"
      "0 \<le> rx_fifo_len s" "rx_fifo_len s \<le> 8"
    using assms by (simp_all add: spi_fifos_ok_def)
  define p where "p = nat ((?h - ?n) mod 8)"
  have "(int p + ?n) mod 8 = ?h" using h by (simp add: p_def mod_add_left_eq)
  then have "int ((p + nat ?n) mod 8) = ?h" using h(3) by (simp add: zmod_int)
  then have j: "(p + nat ?n) mod 8 = nat ?h" by (metis nat_int)
  have q: "((?h + 1) mod 8 - (?n + 1)) mod 8 = (?h - ?n) mod 8"
    by (simp add: mod_diff_left_eq)
  have "ring_list ((tx_fifo s)[nat ?h := v]) p (Suc (nat ?n)) = ring_list (tx_fifo s) p (nat ?n) @ [v]"
    using ring_list_enq [of "nat ?n" "tx_fifo s" p v] h j by simp
  then show ?thesis
    using h q by (simp add: spi_tx_push_def arr_set_Some tx_items_def spi_fifos_ok_def p_def nat_add_distrib)
qed

lemma spi_tx_pop_ok:
  assumes "spi_fifos_ok s" "0 < tx_fifo_len s"
  shows "\<exists>v t. spi_tx_pop s = Some (v, t) \<and> spi_fifos_ok t \<and> tx_items s = v # tx_items t \<and>
    t = s\<lparr>tx_fifo_len := tx_fifo_len s - 1\<rparr>"
proof -
  let ?h = "tx_fifo_head s" and ?n = "tx_fifo_len s"
  have h: "0 \<le> ?h" "?h < 8" "0 < ?n" "?n \<le> 8" "length (tx_fifo s) = 8" "length (rx_fifo s) = 8"
    using assms by (simp_all add: spi_fifos_ok_def)
  define p where "p = nat ((?h - ?n) mod 8)"
  have p: "p < 8" by (simp add: p_def nat_less_iff)
  have n: "nat ?n = Suc (nat (?n - 1))" using h by simp
  have "nat ((?h - (?n - 1)) mod 8) = Suc p mod 8"
  proof -
    have "?h - (?n - 1) = (?h - ?n) + 1" by simp
    then have "(?h - (?n - 1)) mod 8 = ((?h - ?n) mod 8 + 1) mod 8" by (simp only: mod_add_left_eq)
    also have "\<dots> = int (Suc p mod 8)" by (simp add: p_def zmod_int add.commute)
    finally show ?thesis by simp
  qed
  then have "ring_list (tx_fifo s) p (nat ?n)
      = tx_fifo s ! p # ring_list (tx_fifo s) (nat ((?h - (?n - 1)) mod 8)) (nat (?n - 1))"
    using p h ring_list_mod [of "tx_fifo s" "Suc p"] by (simp only: n ring_list_Cons) simp
  then show ?thesis
    using h assms by (simp add: spi_tx_pop_def arr_get_Some tx_items_def spi_fifos_ok_def p_def)
qed

interpretation txq: bounded_queue spi_tx_push spi_tx_pop tx_items spi_fifos_ok 8
proof
  fix s :: "'b spi_state" and x
  assume s: "spi_fifos_ok s" and "length (tx_items s) < 8"
  then have "tx_fifo_len s < 8" by (simp add: length_tx_items)
  with spi_tx_push_ok [OF s, of x] show "\<exists>t. spi_tx_push s x = Some t \<and> spi_fifos_ok t \<and> tx_items t = tx_items s @ [x]"
    by blast
next
  fix s :: "'b spi_state" and x xs
  assume s: "spi_fifos_ok s" and i: "tx_items s = x # xs"
  then have "0 < tx_fifo_len s" using length_tx_items [of s] by simp
  with spi_tx_pop_ok [OF s] i show "\<exists>t. spi_tx_pop s = Some (x, t) \<and> spi_fifos_ok t \<and> tx_items t = xs"
    by auto
next
  fix s :: "'b spi_state"
  assume "spi_fifos_ok s"
  then show "length (tx_items s) \<le> 8" by (simp add: length_tx_items spi_fifos_ok_def nat_le_iff)
qed

subsection \<open>Register accesses stay inside the FIFOs\<close>

datatype spi_event = SpiGuest mmio | SpiDebugRead hwaddr | SpiDebugWrite hwaddr u64 | SpiDebugUpdate | SpiReset

fun spi_step ::
  "('b \<Rightarrow> u32 \<Rightarrow> (u32 \<times> 'b) option) \<Rightarrow> 'b spi_state \<Rightarrow> spi_event \<Rightarrow> 'b spi_state option"
where
  "spi_step xfer s (SpiGuest e) = mmio_step (spi_read xfer) (\<lambda>s a v. Some (spi_write s a v)) s e"
| "spi_step xfer s (SpiDebugRead a) = map_option (\<lambda>_. s) (spi_read_dbg s a)"
| "spi_step xfer s (SpiDebugWrite a v) = Some (spi_write_dbg s a v)"
| "spi_step xfer s SpiDebugUpdate = Some (spi_dbgUpdate s)"
| "spi_step xfer s SpiReset = Some (spi_reset s)"

text \<open>A read of \<open>TDR\<close> is the access that transfers a word on the bus.\<close>

fun spi_ok :: "('b \<Rightarrow> bool) \<Rightarrow> 'b spi_state \<Rightarrow> spi_event \<Rightarrow> bool" where
  "spi_ok ok s (SpiGuest (MRead a)) = (a = 0x0c \<longrightarrow> ok (spi_ssi s))"
| "spi_ok ok s e = True"

lemma spi_id_read_ok: "0xfe0 \<le> a \<Longrightarrow> a < 0x1000 \<Longrightarrow> spi_id_read a \<noteq> None"
  using id_get [of a spi_id] by (auto simp: spi_id_read_def spi_id_def)

lemma spi_read_dbg_ok: "spi_read_dbg s a \<noteq> None"
  using spi_id_read_ok [of a] by (simp add: spi_read_dbg_def)

lemma spi_write_fifos: "spi_fifos_ok s \<Longrightarrow> spi_fifos_ok (spi_write s a v)"
  by (simp add: spi_write_def spi_fifos_ok_def)

lemma spi_write_bus: "spi_ssi (spi_write s a v) = spi_ssi s"
  by (simp add: spi_write_def)

lemma spi_write_dbg_inv: "spi_inv J s \<Longrightarrow> spi_inv J (spi_write_dbg s a v)"
  by (simp add: spi_write_dbg_def spi_inv_def spi_fifos_ok_def Let_def)

lemma spi_dbgUpdate_inv: "spi_inv J s \<Longrightarrow> spi_inv J (spi_dbgUpdate s)"
  by (simp add: spi_dbgUpdate_def spi_inv_def spi_fifos_ok_def)

lemma spi_reset_inv: "spi_inv J s \<Longrightarrow> spi_inv J (spi_reset s)"
  by (simp add: spi_reset_def spi_inv_def spi_fifos_ok_def)

lemma spi_receive_ok: "spi_inv J s \<Longrightarrow> \<exists>v t. spi_receive s = Some (v, t) \<and> spi_inv J t"
proof -
  assume inv: "spi_inv J s"
  have "0 \<le> (i::int) mod 8" "i mod 8 < 8" for i by simp_all
  with inv show ?thesis
    by (auto simp: spi_receive_def spi_inv_def spi_fifos_ok_def Let_def arr_get_Some)
qed

lemma spi_init_inv: "J bus \<Longrightarrow> spi_inv J (spi_init bus)"
  by (simp add: spi_init_def spi_reset_def spi_inv_def spi_fifos_ok_def)

locale ssi_port =
  fixes xfer :: "'b \<Rightarrow> u32 \<Rightarrow> (u32 \<times> 'b) option"
    and J :: "'b \<Rightarrow> bool"
    and ok :: "'b \<Rightarrow> bool"
  assumes transfer_ok: "J b \<Longrightarrow> ok b \<Longrightarrow> v < 0x10000 \<Longrightarrow> \<exists>r c. xfer b v = Some (r, c) \<and> J c"
begin

lemma transmit_ok:
  assumes "spi_inv J s" "ok (spi_ssi s)"
  shows "\<exists>t. spi_transmit xfer s v = Some t \<and> spi_inv J t"
proof -
  define q where "q = (if tx_fifo_len s < 8 then spi_tx_push s (ucast v) else Some s)"
  obtain u where u: "q = Some u" "spi_inv J u" "spi_ssi u = spi_ssi s"
  proof (cases "tx_fifo_len s < 8")
    case True
    with assms spi_tx_push_ok [of s "ucast v"] that show ?thesis by (auto simp: q_def spi_inv_def)
  next
    case False
    with assms that show ?thesis by (simp add: q_def)
  qed
  show ?thesis
  proof (cases "spi_cr u AND SPI_SPIEN \<noteq> 0 \<and> tx_fifo_len u \<noteq> 0 \<and> rx_fifo_len u < 8")
    case False
    with u show ?thesis
      by (auto simp: spi_transmit_def q_def [symmetric] Let_def spi_inv_def spi_fifos_ok_def)
  next
    case True
    have f: "spi_fifos_ok u" "J (spi_ssi u)" "ok (spi_ssi u)" using u(2,3) assms(2) by (simp_all add: spi_inv_def)
    with True have "0 < tx_fifo_len u" by (simp add: spi_fifos_ok_def)
    from spi_tx_pop_ok [OF f(1) this] obtain x where
      x: "spi_tx_pop u = Some (x, u\<lparr>tx_fifo_len := tx_fifo_len u - 1\<rparr>)"
        "spi_fifos_ok (u\<lparr>tx_fifo_len := tx_fifo_len u - 1\<rparr>)" by blast
    have "ucast x < (0x10000 :: u32)" using unat_lt2p [of x] by (simp add: word_less_nat_alt unat_ucast_up)
    then obtain r c where "xfer (spi_ssi u) (ucast x) = Some (r, c)" "J c" using transfer_ok [OF f(2,3)] by blast
    with True u(1) x f show ?thesis
      by (auto simp: spi_transmit_def q_def [symmetric] Let_def spi_inv_def spi_fifos_ok_def arr_set_Some)
  qed
qed

lemma spi_reads: "spi_inv J s \<Longrightarrow> (a = 0x0c \<Longrightarrow> ok (spi_ssi s)) \<Longrightarrow> \<exists>v t. spi_read xfer s a = Some (v, t) \<and> spi_inv J t"
proof -
  assume inv: "spi_inv J s" and g: "a = 0x0c \<Longrightarrow> ok (spi_ssi s)"
  have "spi_inv J (s\<lparr>spi_sr := spi_sr s OR SPI_TDRE\<rparr>)"
    using inv by (simp add: spi_inv_def spi_fifos_ok_def)
  from transmit_ok [OF this, of "scast (spi_tdr s)"] g spi_receive_ok [OF inv] inv spi_id_read_ok [of a]
  show ?thesis by (auto simp: spi_read_def Let_def)
qed

lemma spi_step_ok: "spi_inv J s \<Longrightarrow> spi_ok ok s e \<Longrightarrow> \<exists>t. spi_step xfer s e = Some t \<and> spi_inv J t"
proof (cases e)
  case (SpiGuest m)
  assume inv: "spi_inv J s" and ok: "spi_ok ok s e"
  show ?thesis
  proof (cases m)
    case (MRead a)
    with SpiGuest ok spi_reads [OF inv, of a] show ?thesis by auto
  next
    case (MWrite a v)
    with SpiGuest inv show ?thesis by (simp add: spi_inv_def spi_write_fifos spi_write_bus)
  qed
qed (use spi_read_dbg_ok in \<open>auto simp: spi_write_dbg_inv spi_dbgUpdate_inv spi_reset_inv\<close>)

end

sublocale ssi_port \<subseteq> spi: guarded_machine "spi_step xfer" "spi_ok ok" "spi_inv J"
  by unfold_locales (rule spi_step_ok)

subsection \<open>Transfers\<close>

lemma spi_tests:
  "(x AND SPI_SPIEN = 0) = (\<not> bit x 0)" "(x AND SPI_LLB = 0) = (\<not> bit x 7)" for x :: u32
  by (rule word_and_exp_eq_0, simp)+

text \<open>One transmission of an enabled controller with room in both FIFOs.\<close>

lemma spi_transmit_effect:
  assumes "spi_fifos_ok s" "tx_fifo_len s < 8" "rx_fifo_len s < 8" "bit (spi_cr s) 0" "\<not> bit (spi_mr s) 7"
    and x: "xfer (spi_ssi s) (ucast (hd (tx_items s @ [ucast w]))) = Some (r, bus)"
  shows "\<exists>t. spi_transmit xfer s w = Some t \<and> spi_fifos_ok t \<and>
    tx_items t = tl (tx_items s @ [ucast w]) \<and> spi_ssi t = bus \<and>
    rx_fifo t = (rx_fifo s)[nat (rx_fifo_len s) := ucast r] \<and> rx_fifo_len t = rx_fifo_len s + 1 \<and>
    rx_fifo_head t = (rx_fifo_len s + 1) mod 8 \<and> spi_cr t = spi_cr s \<and> spi_mr t = spi_mr s \<and>
    bit (spi_sr t) 0"
proof -
  from spi_tx_push_ok [OF assms(1,2), of "ucast w"] obtain u where
    u: "spi_tx_push s (ucast w) = Some u" "spi_fifos_ok u" "tx_items u = tx_items s @ [ucast w]"
      "tx_fifo_len u = tx_fifo_len s + 1" "rx_fifo_len u = rx_fifo_len s" "rx_fifo u = rx_fifo s"
      "spi_cr u = spi_cr s" "spi_mr u = spi_mr s" "spi_ssi u = spi_ssi s" by blast
  have n: "0 \<le> tx_fifo_len s" "0 \<le> rx_fifo_len s" "length (rx_fifo s) = 8"
    using assms(1) by (simp_all add: spi_fifos_ok_def)
  then have "0 < tx_fifo_len u" using u(4) by simp
  from spi_tx_pop_ok [OF u(2) this] obtain y where
    y: "spi_tx_pop u = Some (y, u\<lparr>tx_fifo_len := tx_fifo_len u - 1\<rparr>)"
      "spi_fifos_ok (u\<lparr>tx_fifo_len := tx_fifo_len u - 1\<rparr>)"
      "tx_items u = y # tx_items (u\<lparr>tx_fifo_len := tx_fifo_len u - 1\<rparr>)" by blast
  have h: "hd (tx_items s @ [ucast w]) = y"
      "tx_items (u\<lparr>tx_fifo_len := tx_fifo_len u - 1\<rparr>) = tl (tx_items s @ [ucast w])"
    using y(3) u(3) by (metis list.sel(1), metis list.sel(3))
  let ?t = "spi_update (u\<lparr>tx_fifo_len := tx_fifo_len u - 1, spi_ssi := bus,
      rx_fifo := (rx_fifo s)[nat (rx_fifo_len s) := ucast (r AND 0xffff)],
      spi_sr := spi_sr u OR SPI_RDRF, rx_fifo_len := rx_fifo_len s + 1\<rparr>
      \<lparr>rx_fifo_head := (rx_fifo_len s + 1) mod 8, spi_sr := ((spi_sr u OR SPI_RDRF) OR SPI_TXEMPTY) OR SPI_RDRF\<rparr>)"
  have m: "(0xffff :: u32) = mask 16" by (simp add: mask_eq_exp_minus_1)
  have lo: "ucast (r AND 0xffff) = (ucast r :: u16)"
    unfolding m by (rule bit_word_eqI) (simp add: bit_simps)
  have "spi_transmit xfer s w = Some ?t"
    using assms(2-5) u n y(1) x [unfolded h]
    by (simp add: spi_transmit_def spi_tests Let_def arr_set_Some)
  moreover have "spi_fifos_ok ?t" using y(2) n assms(3) by (simp add: spi_fifos_ok_def)
  moreover have "tx_items ?t = tl (tx_items s @ [ucast w])" using h(2) by (simp add: tx_items_def)
  moreover have "bit (spi_sr ?t) 0"
    by (simp add: spi_update_def Let_def bit_or_if bit_or_iff bit_and_iff bit_not_iff bit_simps)
  ultimately show ?thesis using u(7,8) lo by simp
qed

definition spi_send ::
  "('b \<Rightarrow> u32 \<Rightarrow> (u32 \<times> 'b) option) \<Rightarrow> 'b spi_state \<Rightarrow> u64 \<Rightarrow> 'b spi_state option"
where
  "spi_send xfer s v = map_option snd (spi_read xfer (spi_write s 0x0c v) 0x0c)"

lemma ucast_chain: "ucast (scast (ucast (ucast (v::u16) :: u64) :: u32) :: u64) = v"
  by (rule bit_word_eqI) (simp add: bit_simps)

lemma spi_send_effect:
  assumes "spi_fifos_ok s" "tx_fifo_len s = 0" "rx_fifo_len s = 0" "bit (spi_cr s) 0" "\<not> bit (spi_mr s) 7"
    and x: "xfer (spi_ssi s) (ucast v) = Some (r, bus)"
  shows "\<exists>t. spi_send xfer s (ucast (v::u16)) = Some t \<and> spi_fifos_ok t \<and> tx_fifo_len t = 0 \<and>
    spi_ssi t = bus \<and> rx_fifo t ! 0 = ucast r \<and> rx_fifo_len t = 1 \<and> rx_fifo_head t = 1 \<and>
    spi_cr t = spi_cr s \<and> spi_mr t = spi_mr s \<and> bit (spi_sr t) 0"
proof -
  let ?s = "s\<lparr>spi_tdr := ucast (ucast v :: u64), spi_sr := (spi_sr s AND NOT SPI_TDRE) OR SPI_TDRE\<rparr>"
  have e: "tx_items (s\<lparr>spi_tdr := a, spi_sr := b\<rparr>) = []" for a b using assms(2) by (simp add: tx_items_def)
  have l: "length (rx_fifo s) = 8" using assms(1) by (simp add: spi_fifos_ok_def)
  have "spi_fifos_ok ?s" using assms(1) by (simp add: spi_fifos_ok_def)
  from spi_transmit_effect [OF this, where xfer = xfer and w = "scast (ucast (ucast v :: u64) :: u32)"
      and r = r and bus = bus] assms(2-5) x
  obtain t where t: "spi_transmit xfer ?s (scast (ucast (ucast v :: u64) :: u32)) = Some t" "spi_fifos_ok t"
      "tx_items t = []" "spi_ssi t = bus" "rx_fifo t = (rx_fifo s)[0 := ucast r]" "rx_fifo_len t = 1"
      "rx_fifo_head t = 1" "spi_mr t = spi_mr s" "spi_cr t = spi_cr s" "bit (spi_sr t) 0"
    by (auto simp: e ucast_chain)
  have "tx_fifo_len t = 0" using t(2,3) length_tx_items [of t] by (simp add: spi_fifos_ok_def)
  with t l assms(5) show ?thesis by (simp add: spi_send_def spi_read_def spi_write_def Let_def)
qed

text \<open>A controller that is enabled, out of loopback mode and idle, and what a driver does with a word: send it and read the answer.\<close>

definition spi_ready :: "'b spi_state \<Rightarrow> bool" where
  "spi_ready s \<longleftrightarrow> spi_fifos_ok s \<and> tx_fifo_len s = 0 \<and> rx_fifo_len s = 0 \<and> bit (spi_cr s) 0 \<and> \<not> bit (spi_mr s) 7"

definition spi_exchange ::
  "('b \<Rightarrow> u32 \<Rightarrow> (u32 \<times> 'b) option) \<Rightarrow> 'b spi_state \<Rightarrow> u64 \<Rightarrow> (u64 \<times> 'b spi_state) option"
where
  "spi_exchange xfer s v = do { t \<leftarrow> spi_send xfer s v; spi_read xfer t 0x08 }"

lemma spi_exchange_effect:
  assumes "spi_ready s" "xfer (spi_ssi s) (ucast v) = Some (r, bus)"
  shows "\<exists>t u. spi_send xfer s (ucast (v::u16)) = Some t \<and> bit (spi_sr t) 0 \<and>
    spi_read xfer t 0x08 = Some (ucast (ucast r :: u16), u) \<and> spi_ssi u = bus \<and> spi_ready u"
proof -
  have "spi_fifos_ok s" "tx_fifo_len s = 0" "rx_fifo_len s = 0" "bit (spi_cr s) 0" "\<not> bit (spi_mr s) 7"
    using assms(1) by (simp_all add: spi_ready_def)
  from spi_send_effect [where xfer = xfer, OF this assms(2)] this(4,5) obtain t where
    t: "spi_send xfer s (ucast v) = Some t" "spi_fifos_ok t" "tx_fifo_len t = 0" "spi_ssi t = bus"
      "rx_fifo t ! 0 = ucast r" "rx_fifo_len t = 1" "rx_fifo_head t = 1" "bit (spi_cr t) 0" "\<not> bit (spi_mr t) 7"
      "bit (spi_sr t) 0" by metis
  have "\<exists>u. spi_receive t = Some (rx_fifo t ! 0, u) \<and> spi_ssi u = spi_ssi t \<and> spi_ready u"
    using t(2,3,6-9) by (simp add: spi_receive_def spi_tests arr_get_Some spi_fifos_ok_def spi_ready_def)
  with t show ?thesis by (auto simp: spi_read_def)
qed

text \<open>A driver that exchanges words sees the answers of the bus to these words.\<close>

lemma spi_exchange_run:
  assumes "spi_ready s" "io_run xfer (spi_ssi s) (map ucast (vs :: u16 list)) = Some (rs, bus)"
  shows "\<exists>u. io_run (spi_exchange xfer) s (map ucast vs) = Some (map (\<lambda>r. ucast (ucast r :: u16)) rs, u) \<and> spi_ssi u = bus \<and> spi_ready u"
  using assms
proof (induction vs arbitrary: s rs)
  case (Cons v vs)
  then obtain r b rs' where x: "xfer (spi_ssi s) (ucast v) = Some (r, b)" "io_run xfer b (map ucast vs) = Some (rs', bus)" "rs = r # rs'"
    by (auto split: bind_splits)
  from spi_exchange_effect [where xfer = xfer, OF Cons.prems(1) x(1)] obtain t u where
    "spi_send xfer s (ucast v) = Some t" "spi_read xfer t 0x08 = Some (ucast (ucast r :: u16), u)" and u: "spi_ssi u = b" "spi_ready u" by blast
  then have "spi_exchange xfer s (ucast v) = Some (ucast (ucast r :: u16), u)" by (simp add: spi_exchange_def)
  moreover obtain w where "io_run (spi_exchange xfer) u (map ucast vs) = Some (map (\<lambda>r. ucast (ucast r :: u16)) rs', w)"
    "spi_ssi w = bus" "spi_ready w" using Cons.IH [OF u(2), of rs'] x(2) u(1) by blast
  ultimately show ?case using x(3) by simp
qed simp

definition echo_bus :: "unit \<Rightarrow> u32 \<Rightarrow> (u32 \<times> unit) option" where
  "echo_bus b v = Some (v, b)"

definition spi_demo :: "unit spi_state" where
  "spi_demo = spi_write (spi_init ()) 0x00 1"

subsection \<open>Properties\<close>

text \<open>C33: a word transfer. On an enabled controller out of loopback mode with empty FIFOs, writing a
  16-bit word to \<open>TDR\<close> and then reading \<open>TDR\<close>, which is what starts the transfer in this controller,
  sends exactly that word to the SSI bus and raises \<open>RDRF\<close>; the next read of \<open>RDR\<close> returns the low 16 bits of the answer of the bus and leaves the FIFOs
  empty again.\<close>
theorem spi_word_transfer:
  assumes "spi_fifos_ok s" and "tx_fifo_len s = 0" and "rx_fifo_len s = 0"
    and "bit (spi_cr s) 0" and "\<not> bit (spi_mr s) 7"
    and "xfer (spi_ssi s) (ucast v) = Some (r, bus)"
  shows "\<exists>t u. spi_send xfer s (ucast (v::u16)) = Some t \<and> bit (spi_sr t) 0 \<and>
    spi_read xfer t 0x08 = Some (ucast (ucast r :: u16), u) \<and>
    spi_ssi u = bus \<and> tx_fifo_len u = 0 \<and> rx_fifo_len u = 0 \<and> spi_fifos_ok u"
  using spi_exchange_effect [where xfer = xfer, of s v r bus] assms by (auto simp: spi_ready_def)

theorem spi_word_transfer_witness:
  "\<exists>t u. spi_send echo_bus spi_demo (ucast (0xabc::u16)) = Some t \<and> bit (spi_sr t) 0 \<and>
    spi_read echo_bus t 0x08 = Some (ucast (ucast (0xabc::u32) :: u16), u) \<and>
    spi_ssi u = () \<and> tx_fifo_len u = 0 \<and> rx_fifo_len u = 0 \<and> spi_fifos_ok u"
  by (rule spi_word_transfer)
     (simp_all add: spi_demo_def spi_write_def spi_init_def spi_reset_def spi_fifos_ok_def echo_bus_def)

text \<open>the transmit FIFO neither loses, duplicates nor reorders words: along every sequence of
  pushes and pops that respects its capacity of 8, no array access is out of range and what
  was queued plus what is pushed is what is sent plus what remains queued, in order.\<close>
theorem spi_tx_fifo_order:
  assumes "spi_fifos_ok s" and "queue_admits 8 (length (tx_items s)) ops"
  shows "\<exists>out t. queue_run spi_tx_push spi_tx_pop s ops = Some (out, t) \<and> spi_fifos_ok t \<and>
    tx_items s @ pushed ops = out @ tx_items t"
  using assms by (rule txq.run_fifo)

theorem spi_tx_fifo_order_witness:
  "\<exists>out t. queue_run spi_tx_push spi_tx_pop (spi_init ())
      [Push 1, Push 2, Pop, Push 3, Pop] = Some (out, t) \<and> spi_fifos_ok t \<and>
    tx_items (spi_init ()) @ pushed [Push 1, Push 2, Pop, Push 3, Pop] = out @ tx_items t"
  by (rule spi_tx_fifo_order)
     (simp_all add: spi_init_def spi_reset_def spi_fifos_ok_def tx_items_def)

text \<open>what the debugger writes with \<open>write_dbg\<close> it reads back with \<open>read_dbg\<close>, truncated to 32
  bits, for every register that \<open>write_dbg\<close> implements, and no bus transfer happens.\<close>
theorem spi_debug_roundtrip:
  assumes "a \<in> {0x00, 0x04, 0x08, 0x0c, 0x14, 0x18, 0x1c, 0x30, 0x34, 0x38, 0x3c, 0xE4}"
  shows "spi_read_dbg (spi_write_dbg s a v) a = Some (v AND 0xffffffff) \<and>
    spi_ssi (spi_write_dbg s a v) = spi_ssi s"
proof -
  have m: "(0xffffffff :: u64) = mask 32" by (simp add: mask_eq_exp_minus_1)
  have "(ucast (ucast v :: u32) :: u64) = v AND 0xffffffff"
    unfolding m by (rule bit_word_eqI) (auto simp: bit_simps)
  with assms show ?thesis by (auto simp: spi_read_dbg_def spi_write_dbg_def)
qed

theorem spi_debug_roundtrip_witness:
  "spi_read_dbg (spi_write_dbg spi_demo 0x08 0x1234) 0x08 = Some (0x1234 AND 0xffffffff) \<and>
   spi_ssi (spi_write_dbg spi_demo 0x08 0x1234) = spi_ssi spi_demo"
  by (rule spi_debug_roundtrip) simp

text \<open>the receive FIFO loses words when reads and transfers interleave. New words go to the slot
  numbered by the current length, while reads take the slot head minus length. With a bus that
  echoes, after sending 11, 22, reading one word, sending 33 and reading two more words, the
  words read are 11, 11 and 33.\<close>
theorem spi_receive_loses_word:
  "do { s \<leftarrow> spi_send echo_bus spi_demo 0x11;
        s \<leftarrow> spi_send echo_bus s 0x22;
        (a, s) \<leftarrow> spi_read echo_bus s 0x08;
        s \<leftarrow> spi_send echo_bus s 0x33;
        (b, s) \<leftarrow> spi_read echo_bus s 0x08;
        (c, s) \<leftarrow> spi_read echo_bus s 0x08;
        Some (a, b, c) } = Some (0x11, 0x11, 0x33)"
  by code_simp

text \<open>writes to the interrupt enable register have no effect: \<open>spi_update\<close> recomputes \<open>IER\<close>
  from the FIFO levels, so the whole device state is the same whatever value is written.\<close>
theorem spi_ier_write_ignored: "spi_write s 0x14 v = spi_write s 0x14 w"
  by (simp add: spi_write_def spi_update_def Let_def)

end
