(* ===== verification/SsiBus.thy ===== *)
theory SsiBus
  imports SsiSd Ssd0323 AtmelSpi
begin

text \<open>
  The SSI bus of the board: \<^verbatim>\<open>hw/ssi/ssi.c\<close> and the two devices \<^verbatim>\<open>hw/arm/atmel.c\<close> puts on it behind the SPI controller,
  the SD card of theory \<open>SsiSd\<close> and the display of theory \<open>Ssd0323\<close>.

  A slave is a value of a datatype with one constructor per device class; its class gives the transfer function and the
  polarity of the chip select. Neither class defines \<open>set_cs\<close> or \<open>transfer_raw\<close>, so the defaults of the bus apply. The
  children of a bus are a list, in the order in which the code visits them, last created first.

  The locale \<open>ssi_port\<close> of the controller is interpreted on this bus, so that the runs of controller, bus, card and
  display together are safe.
\<close>

datatype SSICSMode = SSI_CS_NONE | SSI_CS_LOW | SSI_CS_HIGH

datatype 'b SSISlave = SsiSdSlave "'b ssi_sd_state" | Ssd0323Slave ssd0323_state

fun ssi_cs_polarity :: "'b SSISlave \<Rightarrow> SSICSMode" where
  "ssi_cs_polarity (SsiSdSlave s) = SSI_CS_LOW"
| "ssi_cs_polarity (Ssd0323Slave s) = SSI_CS_HIGH"

fun ssi_slave_cs :: "'b SSISlave \<Rightarrow> bool" where
  "ssi_slave_cs (SsiSdSlave s) = ss_cs s"
| "ssi_slave_cs (Ssd0323Slave s) = ssd_cs s"

fun ssi_slave_transfer :: "'b bdrv_ops \<Rightarrow> 'b SSISlave \<Rightarrow> u32 \<Rightarrow> (u32 \<times> 'b SSISlave) option" where
  "ssi_slave_transfer B (SsiSdSlave s) val = map_option (\<lambda>(r, s). (r, SsiSdSlave s)) (ssi_sd_transfer B s val)"
| "ssi_slave_transfer B (Ssd0323Slave s) val = map_option (\<lambda>(r, s). (r, Ssd0323Slave s)) (ssd0323_transfer s val)"

text \<open>The handler of a chip select line.\<close>

fun ssi_cs_default :: "'b SSISlave \<Rightarrow> bool \<Rightarrow> 'b SSISlave" where
  "ssi_cs_default (SsiSdSlave s) level = SsiSdSlave (s\<lparr>ss_cs := level\<rparr>)"
| "ssi_cs_default (Ssd0323Slave s) level = Ssd0323Slave (s\<lparr>ssd_cs := level\<rparr>)"

definition ssi_transfer_raw_default :: "'b bdrv_ops \<Rightarrow> 'b SSISlave \<Rightarrow> u32 \<Rightarrow> (u32 \<times> 'b SSISlave) option" where
  "ssi_transfer_raw_default B dev val =
    (if ssi_slave_cs dev \<and> ssi_cs_polarity dev = SSI_CS_HIGH \<or> \<not> ssi_slave_cs dev \<and> ssi_cs_polarity dev = SSI_CS_LOW \<or>
        ssi_cs_polarity dev = SSI_CS_NONE
     then ssi_slave_transfer B dev val else Some (0, dev))"

fun ssi_transfer :: "'b bdrv_ops \<Rightarrow> 'b SSISlave list \<Rightarrow> u32 \<Rightarrow> (u32 \<times> 'b SSISlave list) option" where
  "ssi_transfer B [] val = Some (0, [])"
| "ssi_transfer B (dev # bus) val =
     do { (r, dev) \<leftarrow> ssi_transfer_raw_default B dev val;
          (rs, bus) \<leftarrow> ssi_transfer B bus val;
          Some (r OR rs, dev # bus) }"

text \<open>The bus as the board creates it, and the controller in front of it.\<close>

definition atmel_ssi_bus :: "'b bdrv_ops \<Rightarrow> 'b option \<Rightarrow> 'b SSISlave list" where
  "atmel_ssi_bus B bs = [Ssd0323Slave ssd0323_init, SsiSdSlave (ssi_sd_init B bs)]"

subsection \<open>Controller, bus and devices together\<close>

fun ssi_slave_inv :: "'b SSISlave \<Rightarrow> bool" where
  "ssi_slave_inv (SsiSdSlave s) = ssi_sd_inv s"
| "ssi_slave_inv (Ssd0323Slave s) = ssd_inv s"

fun ssi_slave_ok :: "'b SSISlave \<Rightarrow> bool" where
  "ssi_slave_ok (SsiSdSlave s) = (\<not> ss_cs s \<longrightarrow> ssi_sd_ok s)"
| "ssi_slave_ok (Ssd0323Slave s) = True"

definition ssi_bus_inv :: "'b bdrv_ops \<Rightarrow> 'b SSISlave list \<Rightarrow> bool" where
  "ssi_bus_inv B bus \<longleftrightarrow> bdrv_bounded B \<and> list_all ssi_slave_inv bus"

definition ssi_bus_ok :: "'b SSISlave list \<Rightarrow> bool" where
  "ssi_bus_ok bus \<longleftrightarrow> list_all ssi_slave_ok bus"

lemma ssi_slave_transfer_ok:
  assumes "ssi_slave_inv dev" "ssi_slave_ok dev" "bdrv_bounded B" "v < 0x10000"
  shows "yields (ssi_transfer_raw_default B dev v) (\<lambda>(r, dev). ssi_slave_inv dev)"
proof (cases dev)
  case (SsiSdSlave s)
  with assms have "\<not> ss_cs s \<Longrightarrow> yields (ssi_sd_transfer B s v) (\<lambda>rt. ssi_sd_inv (snd rt))" by (intro ssi_sd_transfer_ok) simp_all
  then show ?thesis using SsiSdSlave assms(1) by (auto simp: ssi_transfer_raw_default_def elim!: yields_mono)
next
  case (Ssd0323Slave s)
  have "v < 0x80000000" using assms(4) by (rule less_trans) simp
  then have "yields (ssd0323_transfer s v) (\<lambda>(r, t). r = 0 \<and> ssd_inv t)" using ssd0323_transfer_inv assms(1) Ssd0323Slave by simp
  then show ?thesis using Ssd0323Slave assms(1) by (auto simp: ssi_transfer_raw_default_def elim!: yields_mono)
qed

lemma ssi_transfer_ok:
  assumes "bdrv_bounded B" "v < 0x10000"
  shows "list_all ssi_slave_inv bus \<Longrightarrow> list_all ssi_slave_ok bus \<Longrightarrow> yields (ssi_transfer B bus v) (\<lambda>(r, bus). list_all ssi_slave_inv bus)"
proof (induction bus)
  case (Cons dev bus)
  then have "yields (ssi_transfer_raw_default B dev v) (\<lambda>(r, dev). ssi_slave_inv dev)"
    and "yields (ssi_transfer B bus v) (\<lambda>(r, bus). list_all ssi_slave_inv bus)" using ssi_slave_transfer_ok [OF _ _ assms] by simp_all
  then show ?case by (auto simp: yields_def)
qed simp

interpretation atmel: ssi_port "ssi_transfer B" "ssi_bus_inv B" ssi_bus_ok
  for B
proof
  fix b :: "'a SSISlave list" and v :: u32
  assume "ssi_bus_inv B b" "ssi_bus_ok b" "v < 0x10000"
  then have "yields (ssi_transfer B b v) (\<lambda>(r, bus). list_all ssi_slave_inv bus)" "bdrv_bounded B"
    using ssi_transfer_ok by (auto simp: ssi_bus_inv_def ssi_bus_ok_def)
  then show "\<exists>r c. ssi_transfer B b v = Some (r, c) \<and> ssi_bus_inv B c" by (auto simp: yields_def ssi_bus_inv_def)
qed

text \<open>
  C7: Controller, bus, card and display stay well formed together. From reset, every sequence of guest accesses to the SPI
  controller, debugger accesses and resets is executed within the FIFOs of the controller, the command and response
  arrays of the card's front end, the arrays of the card and the frame buffer of the display, and their invariants hold
  afterwards, as long as no transfer completes one of the card commands that \<open>sd_request_ok\<close> excludes.
\<close>

theorem atmel_spi_wellformed:
  assumes "bdrv_bounded B" "guarded (spi_step (ssi_transfer B)) (spi_ok ssi_bus_ok) (spi_init (atmel_ssi_bus B bs)) es"
  shows "\<exists>t. exec_list (spi_step (ssi_transfer B)) (spi_init (atmel_ssi_bus B bs)) es = Some t \<and>
    spi_fifos_ok t \<and> list_all ssi_slave_inv (spi_ssi t)"
proof -
  have "spi_inv (ssi_bus_inv B) (spi_init (atmel_ssi_bus B bs))"
    using assms(1) by (intro spi_init_inv) (simp add: ssi_bus_inv_def atmel_ssi_bus_def ssd0323_init_inv ssi_sd_init_inv)
  from atmel.spi.run_ok [OF this assms(2)] show ?thesis by (auto simp: spi_inv_def ssi_bus_inv_def)
qed

theorem atmel_spi_wellformed_witness:
  "\<exists>t. exec_list (spi_step (ssi_transfer ram_ops)) (spi_init (atmel_ssi_bus ram_ops None))
      [SpiGuest (MWrite 0x00 1), SpiGuest (MWrite 0x0c 0x40), SpiGuest (MRead 0x0c), SpiGuest (MRead 0x08), SpiReset] = Some t \<and>
    spi_fifos_ok t \<and> list_all ssi_slave_inv (spi_ssi t)"
  by (rule atmel_spi_wellformed [OF ram_ops_bounded])
    (auto simp: atmel_ssi_bus_def spi_init_def spi_reset_def spi_write_def ssi_bus_ok_def ssi_sd_ok_def ssi_sd_init_def split: option.splits)

subsection \<open>A block read through the registers of the controller\<close>

lemma atmel_bus_run:
  assumes "\<not> ssd_cs d" "\<not> ss_cs s" "io_run (ssi_sd_transfer B) s vs = Some (rs, t)"
  shows "io_run (ssi_transfer B) [Ssd0323Slave d, SsiSdSlave s] vs = Some (rs, [Ssd0323Slave d, SsiSdSlave t])"
  using assms
proof (induction vs arbitrary: s rs)
  case (Cons v vs)
  then obtain r u rs' where u: "ssi_sd_transfer B s v = Some (r, u)" "io_run (ssi_sd_transfer B) u vs = Some (rs', t)" "rs = r # rs'"
    by (auto split: bind_splits)
  have "\<not> ss_cs u" using ssi_sd_transfer_cs [OF u(1)] Cons.prems(2) by simp
  from Cons.IH [OF assms(1) this u(2)] u Cons.prems(1,2) show ?case by (simp add: ssi_transfer_raw_default_def)
qed simp

lemma ucast_bytes:
  "ucast (ucast (v::u8) :: u16) = (ucast v :: u32)" "ucast (ucast (ucast (v::u8) :: u32) :: u16) = (ucast v :: u64)"
  by (rule bit_word_eqI, use bit_imp_le_length [of v] in \<open>force simp: bit_simps\<close>)+

text \<open>The words a driver exchanges to read a block: the frame of \<open>CMD17\<close> and null bytes.\<close>

definition atmel_read_words :: "u32 \<Rightarrow> u8 \<Rightarrow> nat \<Rightarrow> u16 list" where
  "atmel_read_words arg crc n = map ucast ([0x51, ucast (drop_bit 24 arg), ucast (drop_bit 16 arg), ucast (drop_bit 8 arg), ucast arg, crc] @
     replicate (3 + n) (0xff :: u8))"

lemma atmel_read_words_frame: "map ucast (atmel_read_words arg crc n) = ssi_sd_frame 17 arg crc @ replicate (3 + n) 0xff"
  by (simp add: atmel_read_words_def ssi_sd_frame_def ucast_bytes)

text \<open>
  C1: A block read through the registers. Take an idle, enabled controller out of loopback mode whose bus has the display
  and the card, both chip select lines low (the line of the card is active low, so the card is selected, and that of the
  display active high, so the display is not), a card ready in the transfer state with a lawful medium, its adapter waiting for a command, and a block that
  lies within the medium. A driver exchanges a word by writing it to \<open>TDR\<close>, reading \<open>TDR\<close>, which is what starts the
  transfer in this controller, and then reading \<open>RDR\<close>. Exchanging the six bytes of \<open>CMD17\<close> and then \<open>0xff\<close> bytes, it
  reads six idle bytes, the response byte, an idle byte, the start token and then the bytes of the medium from
  the given address on, one per exchange, for the block length; the controller is idle again, the adapter takes the
  next command and the display has not been touched.
\<close>

theorem atmel_block_read:
  assumes "bdrv_lawful B V n" "V b" "ssi_sd_inv s" "ss_mode s = SSI_SD_CMD" "ss_stopping s = 0"
    and "sd_bdrv (ss_sd s) = Some b" "sd_ready B (ss_sd s)" "unat arg + unat (sd_blk_len (ss_sd s)) \<le> 512 * n"
    and "spi_ready c" "spi_ssi c = [Ssd0323Slave d, SsiSdSlave s]" "\<not> ssd_cs d" "\<not> ss_cs s"
  shows "\<exists>r t u. io_run (spi_exchange (ssi_transfer B)) c (map ucast (atmel_read_words arg crc (unat (sd_blk_len (ss_sd s))))) =
      Some (replicate 6 0xff @ [r, 0xff, 0xfe] @ map (\<lambda>i. ucast (medium_byte B b (unat arg + i))) [0..<unat (sd_blk_len (ss_sd s))], u) \<and>
    spi_ready u \<and> spi_ssi u = [Ssd0323Slave d, SsiSdSlave t] \<and> ss_mode t = SSI_SD_CMD"
proof -
  let ?n = "unat (sd_blk_len (ss_sd s))"
  obtain r t where t: "io_run (ssi_sd_transfer B) s (ssi_sd_frame 17 arg crc @ replicate (3 + ?n) 0xff) =
      Some (replicate 6 0xff @ [r, 0xff, 0xfe] @ map (\<lambda>i. ucast (medium_byte B b (unat arg + i))) [0..<?n], t)" "ss_mode t = SSI_SD_CMD"
    using ssi_sd_block_run [OF assms(1-8)] by blast
  have "io_run (ssi_transfer B) (spi_ssi c) (map ucast (atmel_read_words arg crc ?n)) =
      Some (replicate 6 0xff @ [r, 0xff, 0xfe] @ map (\<lambda>i. ucast (medium_byte B b (unat arg + i))) [0..<?n], [Ssd0323Slave d, SsiSdSlave t])"
    unfolding atmel_read_words_frame assms(10) by (rule atmel_bus_run [OF assms(11,12) t(1)])
  from spi_exchange_run [OF assms(9) this] t(2) show ?thesis by (auto simp: ucast_bytes comp_def)
qed

definition atmel_spi_up :: "u8 list list SSISlave list spi_state" where
  "atmel_spi_up = spi_write (spi_init [Ssd0323Slave ssd0323_init, SsiSdSlave ssi_sd_up]) 0x00 1"

theorem atmel_block_read_witness:
  "\<exists>r t u. io_run (spi_exchange (ssi_transfer ram_ops)) atmel_spi_up (map ucast (atmel_read_words 256 0x95 512)) =
      Some (replicate 6 0xff @ [r, 0xff, 0xfe] @ map (\<lambda>i. ucast (medium_byte ram_ops (replicate 2 (replicate 512 0)) (256 + i))) [0..<512], u) \<and>
    spi_ready u \<and> spi_ssi u = [Ssd0323Slave ssd0323_init, SsiSdSlave t] \<and> ss_mode t = SSI_SD_CMD"
proof -
  have r: "spi_ready atmel_spi_up" "spi_ssi atmel_spi_up = [Ssd0323Slave ssd0323_init, SsiSdSlave ssi_sd_up]"
    by (simp_all add: atmel_spi_up_def spi_write_def spi_init_def spi_reset_def spi_ready_def spi_fifos_ok_def)
  have u: "ssi_sd_inv ssi_sd_up" "ss_sd ssi_sd_up = sd_spi_up" "ss_mode ssi_sd_up = SSI_SD_CMD" "ss_stopping ssi_sd_up = 0" "\<not> ss_cs ssi_sd_up"
    using sd_spi_up_facts(3) by (simp_all add: ssi_sd_up_def ssi_sd_init_def ssi_sd_inv_def sd_ready_def)
  have "\<not> ssd_cs ssd0323_init" by (simp add: ssd0323_init_def)
  from atmel_block_read [OF ram_ops_lawful [of 2] _ u(1,3,4) _ _ _ r this u(5), of "replicate 2 (replicate 512 0)" 256 "0x95"]
  show ?thesis by (simp add: u(2) sd_spi_up_facts)
qed

end
