(* ===== verification/Ssd0323View.thy ===== *)
theory Ssd0323View
  imports Ssd0323
begin

text \<open>
  What the display of theory \<open>Ssd0323\<close> shows and how it is saved: the pixels that \<open>ssd0323_update_display\<close> sets, and the
  save and load functions of \<^verbatim>\<open>hw/display/ssd0323.c\<close>.
\<close>

subsection \<open>Pixels\<close>

lemma take_drop_chunk:
  assumes "\<And>x. x \<in> set xss \<Longrightarrow> length x = m" "a < length xss" "b + n \<le> m"
  shows "take n (drop (a * m + b) (concat xss)) = take n (drop b (xss ! a))"
  using assms
proof (induction xss arbitrary: a)
  case (Cons x xss)
  show ?case
  proof (cases a)
    case 0
    have "length x = m" using Cons.prems(1) by simp
    then show ?thesis using 0 Cons.prems(3) by simp
  next
    case (Suc i)
    have "length x = m" using Cons.prems(1) by simp
    then show ?thesis using Suc Cons.IH [of i] Cons.prems by (simp add: ac_simps)
  qed
qed simp

lemma length_concat_chunks: "(\<And>x. x \<in> set xss \<Longrightarrow> length x = m) \<Longrightarrow> length (concat xss) = length xss * m"
  by (induction xss) simp_all

lemma ssd0323_lengths:
  assumes "ssd0323_dest_width bpp = Some w"
  shows "length (ssd0323_color pad bpp i) = w" "length (ssd0323_draw_byte pad bpp v) = 8 * w"
    "length src = 64 \<Longrightarrow> length (concat (map (ssd0323_draw_byte pad bpp) src)) = 512 * w"
    "length src = 64 \<Longrightarrow> length (ssd0323_draw_line pad bpp src) = 2048 * w"
proof -
  show c: "length (ssd0323_color pad bpp i) = w" for i
    using assms by (auto simp: ssd0323_dest_width_def ssd0323_color_def Let_def split: if_splits)
  show d: "length (ssd0323_draw_byte pad bpp v) = 8 * w" for v by (simp add: ssd0323_draw_byte_def length_concat_chunks c numeral_eq_Suc)
  show r: "length (concat (map (ssd0323_draw_byte pad bpp) src)) = 512 * w" if "length src = 64"
    using length_concat_chunks [of "map (ssd0323_draw_byte pad bpp) src" "8 * w"] d that by auto
  show "length (ssd0323_draw_line pad bpp src) = 2048 * w" if "length src = 64"
    using length_concat_chunks [of "replicate MAGNIFY (concat (map (ssd0323_draw_byte pad bpp) src))" "512 * w"] r [OF that]
    by (simp add: ssd0323_draw_line_def)
qed

definition ssd_nibble :: "u8 list \<Rightarrow> nat \<Rightarrow> nat \<Rightarrow> nat" where
  "ssd_nibble fb x y = (let v = fb ! (y * 64 + x div 2) in unat (if even x then drop_bit 4 v else v AND 0xf))"

lemma ssd0323_draw_byte_pixel:
  assumes "ssd0323_dest_width bpp = Some w" "j < 8"
  shows "take w (drop (j * w) (ssd0323_draw_byte pad bpp v)) = ssd0323_color pad bpp (unat (if j < 4 then drop_bit 4 v else v AND 0xf))"
proof -
  let ?c = "ssd0323_color pad bpp" and ?h = "unat (drop_bit 4 v)" and ?l = "unat (v AND 0xf)"
  have b: "ssd0323_draw_byte pad bpp v = concat (replicate 4 (?c ?h) @ replicate 4 (?c ?l))"
    by (simp add: ssd0323_draw_byte_def)
  have n: "(replicate 4 (?c ?h) @ replicate 4 (?c ?l)) ! j = ?c (if j < 4 then ?h else ?l)" using assms(2) by (simp add: nth_append)
  have "take w (drop (j * w + 0) (concat (replicate 4 (?c ?h) @ replicate 4 (?c ?l)))) = take w (drop 0 (?c (if j < 4 then ?h else ?l)))"
    unfolding n [symmetric] using assms ssd0323_lengths(1) [OF assms(1)] by (intro take_drop_chunk) auto
  then show ?thesis using ssd0323_lengths(1) [OF assms(1)] unfolding b by simp
qed

lemma ssd0323_row_pixel:
  assumes "ssd0323_dest_width bpp = Some w" "length src = 64" "px < 512"
  shows "take w (drop (px * w) (concat (map (ssd0323_draw_byte pad bpp) src))) =
    ssd0323_color pad bpp (unat (if px mod 8 < 4 then drop_bit 4 (src ! (px div 8)) else src ! (px div 8) AND 0xf))"
proof -
  have p: "px * w = (px div 8) * (8 * w) + (px mod 8) * w" using div_mult_mod_eq [of px 8] by (metis add_mult_distrib mult.assoc)
  have "px mod 8 + 1 \<le> 8" using mod_less_divisor [of 8 px] by linarith
  from mult_right_mono [OF this, of w] have "px mod 8 * w + w \<le> 8 * w" by simp
  then have "take w (drop (px * w) (concat (map (ssd0323_draw_byte pad bpp) src))) = take w (drop ((px mod 8) * w) (map (ssd0323_draw_byte pad bpp) src ! (px div 8)))"
    unfolding p using assms ssd0323_lengths(2) [OF assms(1)] by (intro take_drop_chunk) auto
  then show ?thesis using assms ssd0323_draw_byte_pixel [OF assms(1), of "px mod 8"] by simp
qed

lemma ssd0323_line_pixel:
  assumes "ssd0323_dest_width bpp = Some w" "length src = 64" "px < 512" "k < 4"
  shows "take w (drop ((k * 512 + px) * w) (ssd0323_draw_line pad bpp src)) =
    ssd0323_color pad bpp (unat (if px mod 8 < 4 then drop_bit 4 (src ! (px div 8)) else src ! (px div 8) AND 0xf))"
proof -
  let ?r = "concat (map (ssd0323_draw_byte pad bpp) src)"
  have "px + 1 \<le> 512" using assms(3) by simp
  from mult_right_mono [OF this, of w] have "px * w + w \<le> 512 * w" by simp
  then have "take w (drop (k * (512 * w) + px * w) (concat (replicate 4 ?r))) = take w (drop (px * w) (replicate 4 ?r ! k))"
    using assms(4) ssd0323_lengths(3) [OF assms(1,2), of pad] by (intro take_drop_chunk) auto
  moreover have "(k * 512 + px) * w = k * (512 * w) + px * w" by (simp add: add_mult_distrib)
  ultimately show ?thesis using assms(4) ssd0323_row_pixel [OF assms(1-3), of pad] unfolding ssd0323_draw_line_def by simp
qed

lemma ssd_nibble_line:
  assumes "length fb = 5120" "y < 64" "px < 512"
  shows "ssd_nibble fb (px div 4) y =
    unat (if px mod 8 < 4 then drop_bit 4 (take 64 (drop (64 * y) fb) ! (px div 8)) else take 64 (drop (64 * y) fb) ! (px div 8) AND 0xf)"
proof -
  have "px div 8 < 64" using assms(3) by simp
  moreover have "px div 4 div 2 = px div 8" by (simp add: div_mult2_eq [symmetric])
  moreover have "even (px div 4) \<longleftrightarrow> px mod 8 < 4" by presburger
  ultimately show ?thesis using assms by (simp add: ssd_nibble_def Let_def mult.commute)
qed

text \<open>
  C28: The surface shows the frame buffer. After an update of a display that needs one, every pixel of the 512 by 256 surface
  has the colour of the entry of the frame buffer below it, four by four pixels an entry, two entries a byte with the high
  half first; for every supported depth, and without leaving the surface.
\<close>

theorem ssd0323_pixels:
  assumes "length (ssd_framebuffer s) = 5120" "ssd_redraw s \<noteq> 0" "ssd0323_dest_width bpp = Some w"
    and "length surface = 512 * 256 * w" "px < 512" "py < 256"
  shows "\<exists>out. ssd0323_update_display pad bpp s surface = Some (s\<lparr>ssd_redraw := 0\<rparr>, out) \<and> length out = length surface \<and>
    take w (drop ((py * 512 + px) * w) out) = ssd0323_color pad bpp (ssd_nibble (ssd_framebuffer s) (px div 4) (py div 4))"
proof -
  let ?fb = "ssd_framebuffer s" and ?y = "py div 4"
  let ?src = "\<lambda>y. take 64 (drop (64 * y) ?fb)"
  let ?ls = "map (\<lambda>y. ssd0323_draw_line pad bpp (?src y)) [0..<64]"
  have src: "length (?src y) = 64" if "y < 64" for y using assms(1) that by simp
  have ls: "length x = 2048 * w" if "x \<in> set ?ls" for x using that ssd0323_lengths(4) [OF assms(3) src] by auto
  have len: "length (concat ?ls) = 512 * 256 * w" using length_concat_chunks [of ?ls "2048 * w", OF ls] by simp
  have y: "?y < 64" "py mod 4 < 4" "py mod 4 + 1 \<le> 4" using assms(6) by auto
  have p: "(py * 512 + px) * w = ?y * (2048 * w) + ((py mod 4) * 512 + px) * w"
  proof -
    have "py * 512 + px = ?y * 2048 + ((py mod 4) * 512 + px)" using div_mult_mod_eq [of py 4] by linarith
    then show ?thesis by (simp only: add_mult_distrib mult.assoc)
  qed
  have "py mod 4 * 512 + px + 1 \<le> 2048" using y(3) assms(5) by linarith
  from mult_right_mono [OF this, of w] have b: "((py mod 4) * 512 + px) * w + w \<le> 2048 * w" by (simp add: add_mult_distrib)
  have "?y < length ?ls" using y(1) by simp
  from take_drop_chunk [OF ls this b] have "take w (drop ((py * 512 + px) * w) (concat ?ls)) = take w (drop (((py mod 4) * 512 + px) * w) (?ls ! ?y))"
    unfolding p .
  also have "\<dots> = ssd0323_color pad bpp (ssd_nibble ?fb (px div 4) ?y)"
    using ssd0323_line_pixel [OF assms(3) src [OF y(1)] assms(5) y(2)] ssd_nibble_line [OF assms(1) y(1) assms(5)] y(1) by simp
  finally have "take w (drop ((py * 512 + px) * w) (concat ?ls)) = ssd0323_color pad bpp (ssd_nibble ?fb (px div 4) ?y)" .
  moreover have "ssd0323_update_display pad bpp s surface = Some (s\<lparr>ssd_redraw := 0\<rparr>, concat ?ls)"
    using assms(1-4) len unfolding ssd0323_update_display_def Let_def by simp
  ultimately show ?thesis using len assms(4) by simp
qed

theorem ssd0323_pixels_witness:
  "\<exists>out. ssd0323_update_display (\<lambda>_. 0) 16 (ssd0323_init\<lparr>ssd_redraw := 1\<rparr>) (replicate 262144 0) =
      Some (ssd0323_init, out) \<and> length out = 262144 \<and>
    take 2 (drop ((255 * 512 + 511) * 2) out) = ssd0323_color (\<lambda>_. 0) 16 (ssd_nibble (replicate 5120 0) 127 63)"
  using ssd0323_pixels [of "ssd0323_init\<lparr>ssd_redraw := 1\<rparr>" 16 2 "replicate 262144 0" 511 255 "\<lambda>_. 0"]
  by (simp add: ssd0323_init_def ssd0323_dest_width_def)

subsection \<open>Migration\<close>

text \<open>A field of type \<open>int\<close> passes through the stream as an unsigned number.\<close>

abbreviation u32_of :: "int \<Rightarrow> u32" where "u32_of x \<equiv> word_of_int x"

definition ssd0323_save :: "'w QEMUFileOps \<Rightarrow> (nat \<Rightarrow> u8) \<Rightarrow> 'w QEMUFile \<Rightarrow> ssd0323_state \<Rightarrow> 'w QEMUFile option" where
  "ssd0323_save ops mem f s =
    do { f \<leftarrow> qemu_put_be32 ops mem f (u32_of (ssd_cmd_len s));
         f \<leftarrow> qemu_put_be32 ops mem f (u32_of (ssd_cmd s));
         f \<leftarrow> exec_list (qemu_put_be32 ops mem) f (map u32_of (ssd_cmd_data s));
         f \<leftarrow> qemu_put_be32 ops mem f (u32_of (ssd_row s));
         f \<leftarrow> qemu_put_be32 ops mem f (u32_of (ssd_row_start s));
         f \<leftarrow> qemu_put_be32 ops mem f (u32_of (ssd_row_end s));
         f \<leftarrow> qemu_put_be32 ops mem f (u32_of (ssd_col s));
         f \<leftarrow> qemu_put_be32 ops mem f (u32_of (ssd_col_start s));
         f \<leftarrow> qemu_put_be32 ops mem f (u32_of (ssd_col_end s));
         f \<leftarrow> qemu_put_be32 ops mem f (u32_of (ssd_redraw s));
         f \<leftarrow> qemu_put_be32 ops mem f (u32_of (ssd_remap s));
         f \<leftarrow> qemu_put_be32 ops mem f (u32_of (ssd_mode s));
         f \<leftarrow> qemu_put_buffer ops mem f (ssd_framebuffer s);
         put_bool ops mem f (ssd_cs s) }"

definition ssd0323_load :: "'r QEMUFileOps \<Rightarrow> 'r QEMUFile \<Rightarrow> ssd0323_state \<Rightarrow> int \<Rightarrow> (int \<times> ssd0323_state \<times> 'r QEMUFile) option" where
  "ssd0323_load ops f s version_id =
    (if version_id \<noteq> 1 then Some (- EINVAL, s, f)
     else do { (cmd_len, f) \<leftarrow> qemu_get_be32 ops f;
               (cmd, f) \<leftarrow> qemu_get_be32 ops f;
               (cmd_data, f) \<leftarrow> get_array (qemu_get_be32 ops) f 8;
               (row, f) \<leftarrow> qemu_get_be32 ops f;
               (row_start, f) \<leftarrow> qemu_get_be32 ops f;
               (row_end, f) \<leftarrow> qemu_get_be32 ops f;
               (col, f) \<leftarrow> qemu_get_be32 ops f;
               (col_start, f) \<leftarrow> qemu_get_be32 ops f;
               (col_end, f) \<leftarrow> qemu_get_be32 ops f;
               (redraw, f) \<leftarrow> qemu_get_be32 ops f;
               (remap, f) \<leftarrow> qemu_get_be32 ops f;
               (mode, f) \<leftarrow> qemu_get_be32 ops f;
               (fb, f) \<leftarrow> qemu_get_buffer ops f 5120;
               (cs, f) \<leftarrow> get_bool ops f;
               Some (0, s\<lparr>ssd_cs := cs, ssd_cmd_len := sint cmd_len, ssd_cmd := sint cmd, ssd_cmd_data := map sint cmd_data,
                          ssd_row := sint row, ssd_row_start := sint row_start, ssd_row_end := sint row_end,
                          ssd_col := sint col, ssd_col_start := sint col_start, ssd_col_end := sint col_end,
                          ssd_redraw := sint redraw, ssd_remap := sint remap, ssd_mode := sint mode,
                          ssd_framebuffer := fb @ drop (length fb) (ssd_framebuffer s)\<rparr>, f) })"

definition ssd0323_image :: "ssd0323_state \<Rightarrow> u8 list" where
  "ssd0323_image s = enc32 (u32_of (ssd_cmd_len s)) @ enc32 (u32_of (ssd_cmd s)) @ concat (map enc32 (map u32_of (ssd_cmd_data s))) @
     enc32 (u32_of (ssd_row s)) @ enc32 (u32_of (ssd_row_start s)) @ enc32 (u32_of (ssd_row_end s)) @
     enc32 (u32_of (ssd_col s)) @ enc32 (u32_of (ssd_col_start s)) @ enc32 (u32_of (ssd_col_end s)) @
     enc32 (u32_of (ssd_redraw s)) @ enc32 (u32_of (ssd_remap s)) @ enc32 (u32_of (ssd_mode s)) @
     ssd_framebuffer s @ enc32 (if ssd_cs s then 1 else 0)"

abbreviation int32 :: "int \<Rightarrow> bool" where "int32 x \<equiv> - (2 ^ 31) \<le> x \<and> x < 2 ^ 31"

definition ssd_int32 :: "ssd0323_state \<Rightarrow> bool" where
  "ssd_int32 s \<longleftrightarrow> int32 (ssd_cmd s) \<and> (\<forall>x\<in>set (ssd_cmd_data s). int32 x) \<and> int32 (ssd_redraw s) \<and> int32 (ssd_remap s) \<and> int32 (ssd_mode s)"

lemma ssd0323_save_image:
  assumes "qf_wrote ops mem written f bs"
  shows "yields (ssd0323_save ops mem f s) (\<lambda>g. qf_wrote ops mem written g (bs @ ssd0323_image s))"
  unfolding ssd0323_save_def ssd0323_image_def append_assoc [symmetric]
  by (rule be32.put_bind [OF assms], rule be32.put_bind, assumption, rule be32.array_put_bind, assumption,
      (rule be32.put_bind, assumption)+, rule buffer_put_bind, assumption, rule bool32.put_enc)

lemma ssd0323_load_image:
  assumes "qf_rest ops avail f (ssd0323_image s @ bs)" "ssd_inv s" "ssd_int32 s" "length (ssd_framebuffer t) = 5120"
  shows "yields (ssd0323_load ops f t 1) (\<lambda>(r, u, g). r = 0 \<and> u = s \<and> qf_rest ops avail g bs)"
proof -
  have l: "8 = length (map u32_of (ssd_cmd_data s))" "5120 = length (ssd_framebuffer s)" using assms(2) by (simp_all add: ssd_inv_def)
  have d: "map (sint \<circ> u32_of) (ssd_cmd_data s) = ssd_cmd_data s"
    using assms(3) by (intro map_idI) (simp add: ssd_int32_def sint_int32)
  have i: "sint (u32_of (ssd_cmd s)) = ssd_cmd s" "sint (u32_of (ssd_redraw s)) = ssd_redraw s" "sint (u32_of (ssd_remap s)) = ssd_remap s"
    "sint (u32_of (ssd_mode s)) = ssd_mode s" "sint (u32_of (ssd_cmd_len s)) = ssd_cmd_len s" "sint (u32_of (ssd_row s)) = ssd_row s"
    "sint (u32_of (ssd_row_start s)) = ssd_row_start s" "sint (u32_of (ssd_row_end s)) = ssd_row_end s" "sint (u32_of (ssd_col s)) = ssd_col s"
    "sint (u32_of (ssd_col_start s)) = ssd_col_start s" "sint (u32_of (ssd_col_end s)) = ssd_col_end s"
    using assms(2,3) by (simp_all add: ssd_inv_def ssd_int32_def sint_int32)
  show ?thesis
    using assms(1) unfolding ssd0323_load_def ssd0323_image_def append_assoc
    apply (simp only: refl not_True_eq_False if_False)
    apply (rule be32.get_bind, assumption, simp only: prod.case)+
    apply (rule be32.array_get_bind, assumption, rule l(1), simp only: prod.case)
    apply (rule be32.get_bind, assumption, simp only: prod.case)+
    apply (rule buffer_get_bind, assumption, rule l(2), simp only: prod.case)
    apply (rule bool32.get_bind, assumption)
    using l(2) assms(4) apply (simp add: i d)
    done
qed

end
