(* ===== verification/Spec2Isabelle.thy ===== *)
theory Spec2Isabelle
  imports AtmelRtt AtmelPmc Pl011 Pl061 Fifo8 GicMachine NvicRun SsiBus Ssd0323View
begin

text \<open>
  A verification library for the emulator of an Atmel SAM3 board: the devices the board of
  \<^verbatim>\<open>hw/arm/atmel.c\<close> creates, and the parts of the emulator they are built on. All paths are relative to
  \<^verbatim>\<open>src/\<close>.

  \<^bold>\<open>The program.\<close> The guest accesses a device through the read and write handlers of its memory region; a
  device drives interrupt lines into the interrupt controller, which signals the CPU. Time enters through
  timers of the virtual clock, which call back into the devices. Below the SPI controller is a bus with an
  SD card, behind a front end that speaks the SPI protocol of cards, and a display. Device state is saved
  to and loaded from a byte stream. The handlers run to completion one after the other, so a device is a
  state with one function per handler, and the system is explored over sequences of events.

  \<^bold>\<open>Conventions.\<close> A struct is a record with the fields of the code, an enum a datatype. Registers are words
  of their C width; \<open>int\<close> and \<open>int64_t\<close> values are integers that are checked where the code can overflow.
  A C array is a list with checked accesses. An operation that may run into undefined behaviour (an index
  outside an array, a division by zero, a signed overflow, a shift by the width) or that may not return has
  an option result, and \<open>None\<close> stands for these cases; so a theorem that a result is \<open>Some\<close> states their
  absence. \<open>yields m P\<close> says that \<open>m\<close> is defined and satisfies \<open>P\<close>. Logging, tracing and debug output
  are left out.

  \<^bold>\<open>The theories.\<close>

  \<^item> \<open>Prelude\<close>: names of the C types, checked arrays, runs of events, bit-level facts, ring buffers.
  \<^item> \<open>Interfaces\<close>: the contracts as locales: \<open>guarded_machine\<close> and \<open>mmio_device\<close> (every admitted run is defined
    and keeps an invariant), \<open>bounded_queue\<close> (nothing is lost, duplicated or reordered), \<open>simulation\<close>
    (an abstract machine follows every admitted run). Each is interpreted on the models named below.
  \<^item> \<open>HostUtils\<close>: \<^verbatim>\<open>include/qemu/host-utils.h\<close> and \<^verbatim>\<open>util/host-utils.c\<close>. The binary searches for leading and
    trailing zeros equal the bit-by-bit definition; the products from 32-bit parts are exact.
  \<^item> \<open>Bitmap\<close>: \<^verbatim>\<open>include/qemu/bitops.h\<close>, \<^verbatim>\<open>util/bitops.c\<close>, \<^verbatim>\<open>include/qemu/bitmap.h\<close>, \<^verbatim>\<open>util/bitmap.c\<close>. The word-wise
    searches and range updates equal their bit-wise specifications, except that a range which ends beyond
    the \<open>int\<close> type is undefined; the search for an aligned free area ends with the first one.
  \<^item> \<open>Fifo8\<close>: \<^verbatim>\<open>util/fifo8.c\<close> is a bounded queue.
  \<^item> \<open>QemuTimer\<close>: \<^verbatim>\<open>qemu-timer.c\<close>. The list of active timers is the stable sort by deadline of the timers in
    the order in which they were armed; a run calls the expired ones in this order.
  \<^item> \<open>Ptimer\<close>: \<^verbatim>\<open>hw/core/ptimer.c\<close>. No division by zero, an enabled timer is armed for its next event, and the
    interpolated count is within its bounds; a timer disabled by a zero period is not stopped any more.
  \<^item> \<open>AtmelRtt\<close>, \<open>AtmelPmc\<close>: \<^verbatim>\<open>hw/timer/atmel_rtt.c\<close> and \<^verbatim>\<open>hw/pmc/pmc_atmel.c\<close> over \<open>Ptimer\<close>. Alarms come on
    time, status bits agree with the configuration, write protection holds.
  \<^item> \<open>Pl011\<close>, \<open>Pl061\<close>: \<^verbatim>\<open>hw/char/pl011.c\<close> and \<^verbatim>\<open>hw/gpio/pl061.c\<close>. Characters arrive in order and the flags agree
    with the FIFO; outputs follow data and direction, and the commit lock holds.
  \<^item> \<open>Gic\<close>, \<open>GicActive\<close>, \<open>GicMachine\<close>: \<^verbatim>\<open>hw/intc/arm_gic.c\<close>, \<^verbatim>\<open>hw/intc/arm_gic_common.c\<close>, \<^verbatim>\<open>hw/intc/gic_internal.h\<close>. The
    model, what an update signals, and the refinement of the linked list of active interrupts to one
    stack per CPU along all sequences of events, with distributor accesses of every width.
  \<^item> \<open>Nvic\<close>, \<open>NvicTick\<close>, \<open>NvicRun\<close>: \<^verbatim>\<open>hw/intc/armv7m_nvic.c\<close> over \<open>Gic\<close> and \<open>QemuTimer\<close>. The model, the value and the
    expiry of the SysTick counter, and the refinement to a stack of exceptions in the hardware's
    numbering for accesses to the whole region, lines, entries, returns and timers.
  \<^item> \<open>SdCard\<close>, \<open>SdCardSafe\<close>, \<open>SdCardMedium\<close>, \<open>SdCardRun\<close>: \<^verbatim>\<open>hw/sd/sd.c\<close> over \<open>Bitmap\<close>. The model, the invariant that keeps
    it within its buffers, the effect of data phases on the medium, and the runs: a block that is
    written is read back, what write protection and lock commands do, and exactly when the four commands
    that the guard of a run restricts leave the arrays.
  \<^item> \<open>QemuFile\<close>, \<open>QemuStream\<close>: the \<open>QEMUFile\<close> of \<^verbatim>\<open>savevm.c\<close>. The model of the buffer, its vectors and its backend;
    what is put is what the backend receives, what is read is what it has, and every encoding
    that is put and read in order is recovered (locale \<open>stream_codec\<close>).
  \<^item> \<open>SsiSd\<close>: \<^verbatim>\<open>hw/sd/ssi-sd.c\<close> over \<open>SdCardRun\<close> and \<open>QemuStream\<close>. A command returns a block with its token; loading
    recovers what was saved.
  \<^item> \<open>Ssd0323\<close>, \<open>Ssd0323View\<close>: \<^verbatim>\<open>hw/display/ssd0323.c\<close>. Data fills the addressed window, the surface shows the frame
    buffer, loading recovers what was saved.
  \<^item> \<open>AtmelSpi\<close>, \<open>SsiBus\<close>: \<^verbatim>\<open>hw/spi/spi_atmel.c\<close>, \<^verbatim>\<open>hw/ssi/ssi.c\<close> and the bus of \<^verbatim>\<open>hw/arm/atmel.c\<close>. The controller against
    the contract of its bus (locale \<open>ssi_port\<close>, interpreted on the bus with card and display), the
    well-formedness of the composition and the read of a block through the registers.

  \<^bold>\<open>Parameters.\<close> What is not in the repository or belongs to the host is an argument: the virtual clock
  (\<open>now\<close>), the medium of the card (operations on sectors with the law that a sector read is the sector
  last written), the backend of a stream (a sink that takes what it is given, a source that delivers a
  fixed sequence), the number of the accessing CPU, and the callbacks of timers. The theorems that rely
  on a law are instantiated with a concrete medium, sink or source.

  \<^bold>\<open>Bounds and loops.\<close> Loops with a bound in the code are structural recursion or have a termination proof.
  The walk of \<open>gic_complete_irq\<close> and the run of expired timers may not end; they are partial functions,
  and it is proved both when they end and, on the states where the code hangs, that they do not. The
  transmit and flush loops have a bound from the length of their buffers. The 64-bit arithmetic of the
  SysTick counter is shown not to overflow for times below \<open>2^61\<close> nanoseconds, 73 years, and clock
  scales below \<open>2^20\<close>; the largest scale any board sets is 320. The search for a free area is shown right for
  bitmaps of less than \<open>2^63\<close> bits, more than any host can hold.

  \<^bold>\<open>Not modelled.\<close> The CPU and its code generator (\<^verbatim>\<open>target-arm\<close>, \<^verbatim>\<open>tcg\<close>, \<^verbatim>\<open>translate-all.c\<close>): the behaviour is
  that of generated host code; of the CPU only the two fields the NVIC reaches appear. Memory regions
  and address spaces (\<^verbatim>\<open>memory.c\<close>, \<^verbatim>\<open>exec.c\<close>), the object model (\<^verbatim>\<open>qom\<close>, \<^verbatim>\<open>hw/core/qdev.c\<close>) and with them the
  creation of the board beyond its bus: they dispatch to the handlers modelled here and have no state
  the devices depend on. VMState descriptions are data. The block layer, network, audio, user interface
  and character back ends, the main loop, coroutines and threads are input and output on the host.
  Migration, monitor and management are protocols with external programs. User mode emulation, the other
  targets and the devices of other machines are not part of the board, nor is floating point, which its
  CPU lacks. In the modelled files: population counts and 128-bit division of the host helpers, operations
  on whole bitmaps, the backends and the registry of handlers of \<^verbatim>\<open>savevm.c\<close>, and the host alarm of
  \<^verbatim>\<open>qemu-timer.c\<close> beyond its deadline.
\<close>

end
